(* ===== verification/Agave_Prelude.thy ===== *)
theory Agave_Prelude
  imports Main "HOL-Library.Word" "HOL-Library.Monad_Syntax"
begin

text \<open>
  Shared vocabulary of the development: Rust's fixed-width integers and their
  saturating and checked operations, panics as \<^term>\<open>None\<close>, loops that may panic,
  and the contract of a transition system with an inductive invariant.

  Conventions used by every component theory:
  \<^item> a Rust panic (a failed \<open>assert!\<close>, \<open>unwrap\<close>, \<open>unreachable!\<close> or an overflow
    under checked arithmetic) is \<^term>\<open>None\<close> of the result type \<open>'a option\<close>;
  \<^item> a Rust \<open>Result<A, E>\<close> is the sum \<open>'e + 'a\<close>, \<^term>\<open>Inl\<close> being the error;
  \<^item> \<open>&mut self\<close> methods take the state and return the new one;
  \<^item> \<open>u64\<close> quantities on which the code relies on saturation or wrap-around are
    \<open>64 word\<close>; identifiers (keys, hashes, slots, counters) are \<open>nat\<close> with the
    overflow checks of the source written out.
\<close>

named_theorems panic_simps \<open>unfolding rules for the panic-free path of an operation\<close>
named_theorems inv_intros \<open>preservation of a component's invariant by its operations\<close>

type_synonym u8 = "8 word"
type_synonym u16 = "16 word"
type_synonym u32 = "32 word"
type_synonym u64 = "64 word"

type_synonym pubkey = nat
type_synonym hash = nat
type_synonym slot = nat
type_synonym epoch = nat

definition u32_max :: nat where
  "u32_max = 2 ^ 32 - 1"

definition u64_max :: nat where
  "u64_max = 2 ^ 64 - 1"


text \<open>\<open>u64::saturating_add\<close> on slots and epochs.\<close>

definition slot_add :: "nat \<Rightarrow> nat \<Rightarrow> nat" where
  "slot_add a b = min (a + b) u64_max"

text \<open>
  \<open>TransactionError\<close> and \<open>InstructionError\<close> (crates \<open>solana-transaction-error\<close>,
  \<open>solana-instruction\<close>) with the variants the modelled code constructs; every other variant
  is only passed through.
\<close>

datatype instruction_error =
    InvalidInstructionData
  | OtherInstructionError nat

datatype transaction_error =
    AccountInUse
  | AccountLoadedTwice
  | TooManyAccountLocks
  | InstructionError u8 instruction_error
  | DuplicateInstruction u8
  | InvalidLoadedAccountsDataSizeLimit
  | SanitizeFailure
  | WouldExceedMaxBlockCostLimit
  | WouldExceedMaxAccountCostLimit
  | WouldExceedAccountDataBlockLimit
  | WouldExceedAccountDataTotalLimit
  | OtherTransactionError nat

type_synonym 'a transaction_result = "transaction_error + 'a"


section \<open>Panics and loops\<close>

definition ensure :: "bool \<Rightarrow> unit option" where
  "ensure b = (if b then Some () else None)"

lemma ensure_bind [simp, panic_simps]: "(ensure b \<bind> f) = (if b then f () else None)"
  by (simp add: ensure_def)

lemma ensure_eq_Some [simp]: "ensure b = Some u \<longleftrightarrow> b"
  by (simp add: ensure_def)

lemma bind_eq_SomeE:
  assumes "(m \<bind> f) = Some y"
  obtains x where "m = Some x" "f x = Some y"
  using assms by (cases m) auto

text \<open>A \<open>for\<close> loop whose body may panic.\<close>

primrec foldM :: "('a \<Rightarrow> 's \<Rightarrow> 's option) \<Rightarrow> 'a list \<Rightarrow> 's \<Rightarrow> 's option" where
  "foldM f [] s = Some s"
| "foldM f (x # xs) s = (f x s \<bind> foldM f xs)"

lemma foldM_append: "foldM f (xs @ ys) s = (foldM f xs s \<bind> foldM f ys)"
  by (induction xs arbitrary: s) (auto simp: bind_assoc split: option.splits bind_splits)

text \<open>
  The loop rule: an assertion indexed by the part of the list already processed and the
  part to come, kept by every iteration, and every iteration returns.
\<close>

lemma foldM_rule:
  assumes "I [] xs s"
    and step: "\<And>done x rest s. xs = done @ x # rest \<Longrightarrow> I done (x # rest) s \<Longrightarrow>
      \<exists>s'. f x s = Some s' \<and> I (done @ [x]) rest s'"
  shows "\<exists>s'. foldM f xs s = Some s' \<and> I xs [] s'"
proof -
  have "\<exists>s'. foldM f rest s = Some s' \<and> I xs [] s'"
    if "xs = done @ rest" and "I done rest s" for "done" rest s
    using that
  proof (induction rest arbitrary: "done" s)
    case Nil
    then show ?case by simp
  next
    case (Cons x rest)
    from step [OF Cons.prems] obtain s' where s': "f x s = Some s'" "I (done @ [x]) rest s'"
      by blast
    from Cons.prems(1) have "xs = (done @ [x]) @ rest" by simp
    from Cons.IH [OF this s'(2)] s'(1) show ?case by simp
  qed
  with assms(1) show ?thesis by (metis append_Nil)
qed


section \<open>Saturating and checked word arithmetic\<close>

definition saturating_add :: "'a::len word \<Rightarrow> 'a word \<Rightarrow> 'a word" where
  "saturating_add a b = (if unat a + unat b < 2 ^ LENGTH('a) then a + b else - 1)"

definition saturating_sub :: "'a::len word \<Rightarrow> 'a word \<Rightarrow> 'a word" where
  "saturating_sub a b = (if b \<le> a then a - b else 0)"

definition saturating_mul :: "'a::len word \<Rightarrow> 'a word \<Rightarrow> 'a word" where
  "saturating_mul a b = (if unat a * unat b < 2 ^ LENGTH('a) then a * b else - 1)"

definition checked_add :: "'a::len word \<Rightarrow> 'a word \<Rightarrow> 'a word option" where
  "checked_add a b = (if unat a + unat b < 2 ^ LENGTH('a) then Some (a + b) else None)"

lemma unat_max_word: "unat (- 1 :: 'a::len word) = 2 ^ LENGTH('a) - 1"
  by (simp add: unsigned_minus_1_eq_mask mask_eq_exp_minus_1)

lemma unat_saturating_add:
  "unat (saturating_add a b) = min (unat a + unat b) (2 ^ LENGTH('a) - 1)"
  for a b :: "'a::len word"
  by (auto simp: saturating_add_def unat_word_ariths unat_max_word min_def)

lemma unat_saturating_sub: "unat (saturating_sub a b) = unat a - unat b"
  by (auto simp: saturating_sub_def unat_sub word_le_nat_alt)

lemma unat_saturating_mul:
  "unat (saturating_mul a b) = min (unat a * unat b) (2 ^ LENGTH('a) - 1)"
  for a b :: "'a::len word"
proof (cases "unat a * unat b < 2 ^ LENGTH('a)")
  case True
  then show ?thesis by (simp add: saturating_mul_def unat_word_ariths)
next
  case False
  then have "2 ^ LENGTH('a) - 1 \<le> unat a * unat b" by linarith
  with False show ?thesis by (simp add: saturating_mul_def unat_max_word)
qed

lemma unat_min: "unat (min a b) = min (unat a) (unat b)"
  by (simp add: min_def word_le_nat_alt)

text \<open>Saturating twice at the same bound is saturating once.\<close>

lemma saturation_collapse:
  "min (min a m + b) m = min (a + b) m" "min (a + min b m) m = min (a + b) m" for a b m :: nat
  by auto

lemma unat_ucast_up:
  "unat (ucast w :: 'b::len word) = unat w" if "LENGTH('a) \<le> LENGTH('b)" for w :: "'a::len word"
proof -
  have "unat w < 2 ^ LENGTH('b)"
    by (rule less_le_trans [OF unsigned_less power_increasing [OF that]]) simp
  then show ?thesis by (simp add: unsigned_ucast_eq take_bit_nat_eq_self)
qed

lemma unat_checked_add: "checked_add a b = Some c \<Longrightarrow> unat c = unat a + unat b"
  by (auto simp: checked_add_def unat_word_ariths split: if_splits)

lemma checked_add_fits:
  "unat a + unat b < 2 ^ LENGTH('a) \<Longrightarrow> \<exists>c. checked_add a b = Some c" for a b :: "'a::len word"
  by (simp add: checked_add_def)

lemmas unat_saturating = unat_saturating_add unat_saturating_sub unat_saturating_mul

lemma saturating_add_exact:
  "unat a + unat b < 2 ^ LENGTH('a) \<Longrightarrow> saturating_add a b = (a + b :: 'a::len word)"
  by (simp add: saturating_add_def)

lemma saturating_sub_exact: "b \<le> a \<Longrightarrow> saturating_sub a b = a - b"
  by (simp add: saturating_sub_def)

lemma saturating_add_mono: "a \<le> a' \<Longrightarrow> b \<le> b' \<Longrightarrow> saturating_add a b \<le> saturating_add a' b'"
  by (auto simp: word_le_nat_alt unat_saturating_add)

lemma saturating_add_ge: "a \<le> saturating_add a (b :: 'a::len word)"
proof -
  have "unat a < 2 ^ LENGTH('a)" by (rule unsigned_less)
  then have "unat a \<le> 2 ^ LENGTH('a) - 1" by linarith
  then show ?thesis by (simp add: word_le_nat_alt unat_saturating_add)
qed

lemma saturating_sub_le: "saturating_sub a b \<le> a"
  by (simp add: word_le_nat_alt unat_saturating_sub)

text \<open>A saturating counter incremented a number of times.\<close>

definition saturating_bump :: "nat \<Rightarrow> 'a::len word \<Rightarrow> 'a word" where
  "saturating_bump n w = ((\<lambda>c. saturating_add c 1) ^^ n) w"

lemma saturating_bump_0 [simp]: "saturating_bump 0 w = w"
  by (simp add: saturating_bump_def)

lemma saturating_bump_Suc: "saturating_bump (Suc n) w = saturating_bump n (saturating_add w 1)"
  unfolding saturating_bump_def funpow_Suc_right by simp

lemma unat_saturating_bump:
  "unat w + n < 2 ^ LENGTH('a) \<Longrightarrow> unat (saturating_bump n w) = unat w + n" for w :: "'a::len word"
proof (induction n arbitrary: w)
  case (Suc n)
  have "unat (saturating_add w 1) = unat w + 1"
    using Suc.prems by (simp add: unat_saturating_add unat_1 min_def)
  with Suc show ?case by (simp add: saturating_bump_Suc)
qed simp


section \<open>Transition systems with an inductive invariant\<close>

text \<open>
  The contract every stateful component of the development discharges: its initial
  states satisfy the invariant and every operation keeps it. The client's conclusion is
  proved once, for every run.
\<close>

locale invariant_system =
  fixes init :: "'s \<Rightarrow> bool" and step :: "'s \<Rightarrow> 's \<Rightarrow> bool" and inv :: "'s \<Rightarrow> bool"
  assumes inv_init: "init s \<Longrightarrow> inv s"
    and inv_step: "inv s \<Longrightarrow> step s t \<Longrightarrow> inv t"
begin

lemma inv_run: "step\<^sup>*\<^sup>* s t \<Longrightarrow> inv s \<Longrightarrow> inv t"
  by (induction rule: rtranclp_induct) (auto intro: inv_step)

lemma inv_reachable: "init s \<Longrightarrow> step\<^sup>*\<^sup>* s t \<Longrightarrow> inv t"
  by (blast intro: inv_run inv_init)

end

end
