(* ===== verification/BTree_Map.thy ===== *)
theory BTree_Map
  imports Agave_Prelude
begin

text \<open>
  The part of \<open>std::collections::BTreeMap\<close> the modelled code uses, as an association
  list in strictly ascending key order: \<open>insert\<close>, \<open>remove\<close>, \<open>get\<close>,
  \<open>pop_first\<close>, \<open>first_key_value\<close>, \<open>retain\<close>, \<open>split_off\<close> and iteration in key
  order (the list itself). The contract of a keyed store is stated once, as a locale, and
  discharged for this representation.
\<close>

type_synonym ('k, 'v) btree = "('k \<times> 'v) list"

definition bt_wf :: "('k::linorder, 'v) btree \<Rightarrow> bool" where
  "bt_wf m = sorted_wrt (<) (map fst m)"

definition bt_get :: "('k, 'v) btree \<Rightarrow> 'k \<Rightarrow> 'v option" where
  "bt_get m k = map_of m k"

fun bt_insert :: "'k::linorder \<Rightarrow> 'v \<Rightarrow> ('k, 'v) btree \<Rightarrow> ('k, 'v) btree" where
  "bt_insert k v [] = [(k, v)]"
| "bt_insert k v ((k', v') # m) =
     (if k < k' then (k, v) # (k', v') # m
      else if k = k' then (k, v) # m
      else (k', v') # bt_insert k v m)"

definition bt_remove :: "'k \<Rightarrow> ('k, 'v) btree \<Rightarrow> ('k, 'v) btree" where
  "bt_remove k m = filter (\<lambda>e. fst e \<noteq> k) m"

text \<open>\<open>split_off(&key)\<close>: the entries whose key is at least \<open>key\<close>.\<close>

definition bt_split_off :: "'k::linorder \<Rightarrow> ('k, 'v) btree \<Rightarrow> ('k, 'v) btree" where
  "bt_split_off k m = filter (\<lambda>e. k \<le> fst e) m"

lemma bt_wf_Nil [simp]: "bt_wf []"
  by (simp add: bt_wf_def)

lemma bt_wf_Cons [simp]: "bt_wf ((k, v) # m) \<longleftrightarrow> (\<forall>e \<in> set m. k < fst e) \<and> bt_wf m"
  by (auto simp: bt_wf_def)

lemma bt_wf_filter [simp, intro]: "bt_wf m \<Longrightarrow> bt_wf (filter P m)"
  by (induction m) auto

lemma set_bt_insert: "set (map fst (bt_insert k v m)) = insert k (set (map fst m))"
  by (induction k v m rule: bt_insert.induct) auto

lemma bt_wf_insert [simp, intro]: "bt_wf m \<Longrightarrow> bt_wf (bt_insert k v m)"
proof (induction k v m rule: bt_insert.induct)
  case (2 k v k' v' m)
  have "fst ` set (bt_insert k v m) = insert k (fst ` set m)"
    using set_bt_insert [of k v m] by simp
  then have "\<forall>e \<in> set (bt_insert k v m). k' < fst e" if "k' < k" "\<forall>e \<in> set m. k' < fst e"
    using that by (metis imageE image_eqI insertE)
  with 2 show ?case by (auto dest: order.strict_trans)
qed simp

lemma bt_wf_remove [simp, intro]: "bt_wf m \<Longrightarrow> bt_wf (bt_remove k m)"
  by (simp add: bt_remove_def bt_wf_filter)

lemma bt_wf_distinct: "bt_wf m \<Longrightarrow> distinct (map fst m)"
  by (simp add: bt_wf_def strict_sorted_iff)

lemma bt_get_insert: "bt_wf m \<Longrightarrow> bt_get (bt_insert k v m) = (bt_get m)(k \<mapsto> v)"
proof (induction k v m rule: bt_insert.induct)
  case (2 k v k' v' m)
  then show ?case by (auto simp: bt_get_def fun_eq_iff)
qed (auto simp: bt_get_def fun_eq_iff)

lemma bt_get_filter:
  "bt_get (filter (\<lambda>e. P (fst e)) m) = (\<lambda>k. if P k then bt_get m k else None)"
  by (induction m) (auto simp: bt_get_def fun_eq_iff)

lemma bt_get_remove: "bt_get (bt_remove k m) = (bt_get m)(k := None)"
  by (auto simp: bt_remove_def bt_get_filter [of "\<lambda>k'. k' \<noteq> k"] fun_eq_iff)

lemma bt_wf_split_off [simp]: "bt_wf m \<Longrightarrow> bt_wf (bt_split_off k m)"
  by (simp add: bt_split_off_def)

lemma bt_get_split_off: "bt_get (bt_split_off k m) = (\<lambda>k'. if k \<le> k' then bt_get m k' else None)"
  by (simp add: bt_split_off_def bt_get_filter)

lemma bt_get_Nil [simp]: "bt_get [] k = None"
  by (simp add: bt_get_def)

lemma bt_get_Some_in_set: "bt_get m k = Some v \<Longrightarrow> (k, v) \<in> set m"
  by (simp add: bt_get_def map_of_SomeD)

lemma bt_get_None_iff: "bt_get m k = None \<longleftrightarrow> k \<notin> fst ` set m"
  by (simp add: bt_get_def map_of_eq_None_iff)

lemma bt_get_in_set: "bt_wf m \<Longrightarrow> (k, v) \<in> set m \<Longrightarrow> bt_get m k = Some v"
  by (simp add: bt_get_def bt_wf_distinct)

lemma bt_insert_set:
  "bt_get m k = None \<Longrightarrow> set (bt_insert k v m) = insert (k, v) (set m)"
  by (induction k v m rule: bt_insert.induct) (auto simp: bt_get_def split: if_splits)

lemma bt_insert_length: "bt_get m k = None \<Longrightarrow> length (bt_insert k v m) = Suc (length m)"
  by (induction k v m rule: bt_insert.induct) (auto simp: bt_get_def split: if_splits)

lemma bt_insert_not_Nil [simp]: "bt_insert k v m \<noteq> []"
  by (induction k v m rule: bt_insert.induct) auto

lemma hd_bt_insert:
  "bt_get m k = None \<Longrightarrow>
   hd (bt_insert k v m) = (if m = [] \<or> k < fst (hd m) then (k, v) else hd m)"
  by (cases m) (auto simp: bt_get_def split: if_splits)

lemma bt_wf_hd_le: "bt_wf m \<Longrightarrow> e \<in> set m \<Longrightarrow> fst (hd m) \<le> fst e"
  by (cases m) (auto simp: less_imp_le)


section \<open>The contract of a keyed store\<close>

text \<open>
  \<open>entry(k).or_default()\<close> followed by an update in place is the client most of the
  modelled code is: it reads the value under a key (or a default) and writes it back.
\<close>

definition bt_entry :: "'v \<Rightarrow> ('v \<Rightarrow> 'v) \<Rightarrow> 'k::linorder \<Rightarrow> ('k, 'v) btree \<Rightarrow> ('k, 'v) btree" where
  "bt_entry d f k m = bt_insert k (f (case bt_get m k of None \<Rightarrow> d | Some v \<Rightarrow> v)) m"

locale keyed_store =
  fixes wf :: "'m \<Rightarrow> bool" and get :: "'m \<Rightarrow> 'k \<Rightarrow> 'v option"
    and ins :: "'k \<Rightarrow> 'v \<Rightarrow> 'm \<Rightarrow> 'm" and del :: "'k \<Rightarrow> 'm \<Rightarrow> 'm"
  assumes wf_ins: "wf m \<Longrightarrow> wf (ins k v m)"
    and wf_del: "wf m \<Longrightarrow> wf (del k m)"
    and get_ins: "wf m \<Longrightarrow> get (ins k v m) = (get m)(k \<mapsto> v)"
    and get_del: "wf m \<Longrightarrow> get (del k m) = (get m)(k := None)"
begin

lemma ins_del_roundtrip: "wf m \<Longrightarrow> get m k = None \<Longrightarrow> get (del k (ins k v m)) = get m"
  by (simp add: get_del get_ins wf_ins fun_upd_idem)

lemma entry_get:
  "wf m \<Longrightarrow> get (ins k (f (case get m k of None \<Rightarrow> d | Some v \<Rightarrow> v)) m) k' =
    (if k' = k then Some (f (case get m k of None \<Rightarrow> d | Some v \<Rightarrow> v)) else get m k')"
  by (simp add: get_ins)

end

interpretation bts: keyed_store bt_wf bt_get bt_insert bt_remove
  by unfold_locales (simp_all add: bt_get_insert bt_get_remove)

lemma bt_wf_entry [simp, intro]: "bt_wf m \<Longrightarrow> bt_wf (bt_entry d f k m)"
  by (simp add: bt_entry_def)

lemma bt_get_entry:
  "bt_wf m \<Longrightarrow> bt_get (bt_entry d f k m) k' =
    (if k' = k then Some (f (case bt_get m k of None \<Rightarrow> d | Some v \<Rightarrow> v)) else bt_get m k')"
  unfolding bt_entry_def by (rule bts.entry_get)

end
