(* ===== verification/Usage_Queue.thy ===== *)
theory Usage_Queue
  imports BTree_Map
begin

text \<open>
  The lock queues of the unified scheduler
  (\<open>crates/scheduler/unified-scheduler-logic/src/lib.rs\<close>): tasks, their per-address
  lock contexts, and the \<open>UsageQueueInner\<close> enum with its FIFO and priority variants.

  \<open>Task\<close> is an \<open>Arc<TaskInner>\<close> whose \<open>blocked_usage_count\<close> is a \<open>TokenCell\<close>, and
  \<open>UsageQueue\<close> is an \<open>Arc<TokenCell<UsageQueueInner>>\<close>. Both cells are shared and
  mutated, so they are references into explicit stores: a task holds the reference
  \<^typ>\<open>nat\<close> of its counter cell and a lock context the reference of its queue cell; the
  stores themselves are what the zero-sized \<open>Token\<close>s of the code own.
\<close>

section \<open>Data\<close>

datatype scheduling_mode = BlockVerification | BlockProduction

datatype capability = FifoQueueing | PriorityQueueing

type_synonym ordered_task_id = nat
type_synonym short_counter = nat
type_synonym count_ref = nat
type_synonym queue_ref = nat

text \<open>\<open>ShortCounter\<close>: a \<open>u32\<close> whose increments and decrements are checked and unwrapped.\<close>

definition increment :: "short_counter \<Rightarrow> short_counter option" where
  "increment c = (if c < u32_max then Some (c + 1) else None)"

definition decrement :: "short_counter \<Rightarrow> short_counter option" where
  "decrement c = (if c = 0 then None else Some (c - 1))"

text \<open>
  What the scheduler reads of a \<open>RuntimeTransaction<SanitizedTransaction>\<close>: its message
  hash, its account keys and, per key index, whether it is writable.
\<close>

record runtime_transaction =
  message_hash :: hash
  account_keys :: "pubkey list"
  writable_flags :: "bool list"

definition is_writable :: "runtime_transaction \<Rightarrow> nat \<Rightarrow> bool" where
  "is_writable tx i = (i < length (writable_flags tx) \<and> writable_flags tx ! i)"

datatype requested_usage = Readonly | Writable

record lock_context =
  usage_queue :: queue_ref
  requested_usage :: requested_usage

record task =
  transaction :: runtime_transaction
  task_id :: ordered_task_id
  lock_contexts :: "lock_context list"
  blocked_usage_count :: count_ref
  consumed_block_size :: nat
  sanitized_epoch :: epoch
  alt_invalidation_slot :: slot

datatype ('r, 'w) usage = ReadonlyU 'r | WritableU 'w

fun usage_requested_usage :: "('r, 'w) usage \<Rightarrow> requested_usage" where
  "usage_requested_usage (ReadonlyU _) = Readonly"
| "usage_requested_usage (WritableU _) = Writable"

type_synonym fifo_usage = "(short_counter, unit) usage"
type_synonym priority_usage = "((ordered_task_id, task) btree, task) usage"
type_synonym usage_from_task = "requested_usage \<times> task"
type_synonym priority_usage_queue = "(ordered_task_id, usage_from_task) btree"

datatype usage_queue_inner =
    is_Fifo: Fifo (fifo_current: "fifo_usage option") (fifo_blocked: "usage_from_task list")
  | is_Priority: Priority (priority_current: "priority_usage option") (priority_blocked: priority_usage_queue)

type_synonym lock_result = "unit + unit"
type_synonym count_store = "count_ref \<Rightarrow> short_counter"


section \<open>Tasks\<close>

definition task_hash :: "task \<Rightarrow> hash" where
  "task_hash t = message_hash (transaction t)"

definition is_higher_priority :: "task \<Rightarrow> task \<Rightarrow> bool option" where
  "is_higher_priority t other =
     (if task_id t < task_id other then Some True
      else if task_id other < task_id t then Some False
      else None)"

definition set_blocked_usage_count :: "task \<Rightarrow> short_counter \<Rightarrow> count_store \<Rightarrow> count_store" where
  "set_blocked_usage_count t c n = n(blocked_usage_count t := c)"

definition try_unblock :: "task \<Rightarrow> count_store \<Rightarrow> (count_store \<times> task option) option" where
  "try_unblock t n =
     do { c \<leftarrow> decrement (n (blocked_usage_count t));
          Some (n(blocked_usage_count t := c), if c = 0 then Some t else None) }"

definition try_reblock :: "task \<Rightarrow> count_store \<Rightarrow> (count_store \<times> bool) option" where
  "try_reblock t n =
     (if n (blocked_usage_count t) = 0 then Some (n, False)
      else do { c \<leftarrow> increment (n (blocked_usage_count t));
                Some (n(blocked_usage_count t := c), True) })"


section \<open>Usages and priority usage queues\<close>

fun fifo_usage_from :: "requested_usage \<Rightarrow> fifo_usage" where
  "fifo_usage_from Readonly = ReadonlyU 1"
| "fifo_usage_from Writable = WritableU ()"

fun priority_usage_from :: "task \<Rightarrow> requested_usage \<Rightarrow> priority_usage" where
  "priority_usage_from t Readonly = ReadonlyU [(task_id t, t)]"
| "priority_usage_from t Writable = WritableU t"

fun take_readable :: "priority_usage option \<Rightarrow> priority_usage option option" where
  "take_readable (Some (ReadonlyU tasks)) = do { ensure (tasks = []); Some None }"
| "take_readable _ = None"

fun take_writable :: "priority_usage option \<Rightarrow> (priority_usage option \<times> task) option" where
  "take_writable (Some (WritableU t)) = Some (None, t)"
| "take_writable _ = None"

definition insert_usage_from_task ::
  "usage_from_task \<Rightarrow> priority_usage_queue \<Rightarrow> priority_usage_queue option" where
  "insert_usage_from_task ut m =
     do { ensure (bt_get m (task_id (snd ut)) = None);
          Some (bt_insert (task_id (snd ut)) ut m) }"

fun pop_first_usage_from_task ::
  "priority_usage_queue \<Rightarrow> priority_usage_queue \<times> usage_from_task option" where
  "pop_first_usage_from_task [] = ([], None)"
| "pop_first_usage_from_task ((_, ut) # m) = (m, Some ut)"

fun first_usage_from_task :: "priority_usage_queue \<Rightarrow> usage_from_task option" where
  "first_usage_from_task [] = None"
| "first_usage_from_task ((_, ut) # m) = Some ut"


section \<open>Queue operations\<close>

definition with_fifo :: usage_queue_inner where
  "with_fifo = Fifo None []"

definition with_priority :: usage_queue_inner where
  "with_priority = Priority None []"

fun new_usage_queue :: "capability \<Rightarrow> usage_queue_inner" where
  "new_usage_queue FifoQueueing = with_fifo"
| "new_usage_queue PriorityQueueing = with_priority"

fun current_usage :: "usage_queue_inner \<Rightarrow> requested_usage option" where
  "current_usage (Fifo cu _) = map_option usage_requested_usage cu"
| "current_usage (Priority cu _) = map_option usage_requested_usage cu"

fun pop :: "usage_queue_inner \<Rightarrow> usage_queue_inner \<times> usage_from_task option" where
  "pop (Fifo cu []) = (Fifo cu [], None)"
| "pop (Fifo cu (ut # bl)) = (Fifo cu bl, Some ut)"
| "pop (Priority cu bl) =
     (let (bl', ut) = pop_first_usage_from_task bl in (Priority cu bl', ut))"

fun push :: "usage_from_task \<Rightarrow> usage_queue_inner \<Rightarrow> usage_queue_inner option" where
  "push ut (Fifo cu bl) = Some (Fifo cu (bl @ [ut]))"
| "push ut (Priority cu bl) = do { bl' \<leftarrow> insert_usage_from_task ut bl; Some (Priority cu bl') }"

fun peek_blocked :: "usage_queue_inner \<Rightarrow> usage_from_task option" where
  "peek_blocked (Fifo _ bl) = (case bl of [] \<Rightarrow> None | ut # _ \<Rightarrow> Some ut)"
| "peek_blocked (Priority _ bl) = first_usage_from_task bl"

fun try_lock ::
  "usage_queue_inner \<Rightarrow> task \<Rightarrow> requested_usage \<Rightarrow> (usage_queue_inner \<times> lock_result) option" where
  "try_lock (Fifo cu bl) new_task u =
     (case cu of
        None \<Rightarrow> Some (Fifo (Some (fifo_usage_from u)) bl, Inr ())
      | Some (ReadonlyU count) \<Rightarrow>
          (case u of
             Readonly \<Rightarrow>
               do { count' \<leftarrow> increment count;
                    Some (Fifo (Some (ReadonlyU count')) bl, Inr ()) }
           | Writable \<Rightarrow> Some (Fifo cu bl, Inl ()))
      | Some (WritableU _) \<Rightarrow> Some (Fifo cu bl, Inl ()))"
| "try_lock (Priority cu bl) new_task u =
     (case cu of
        Some (ReadonlyU tasks) \<Rightarrow>
          (case u of
             Readonly \<Rightarrow>
               do { ensure (bt_get tasks (task_id new_task) = None);
                    Some (Priority (Some (ReadonlyU (bt_insert (task_id new_task) new_task tasks)))
                            bl, Inr ()) }
           | Writable \<Rightarrow> Some (Priority cu bl, Inl ()))
      | Some (WritableU _) \<Rightarrow> Some (Priority cu bl, Inl ())
      | None \<Rightarrow> Some (Priority (Some (priority_usage_from new_task u)) bl, Inr ()))"

text \<open>
  \<open>unlock\<close> releases one usage; when the address becomes free it pops the first blocked
  usage. \<open>release_current\<close> is the match of the code on the current usage: the new
  current usage and whether the queue is newly lockable.
\<close>

fun release_current ::
  "usage_queue_inner \<Rightarrow> task \<Rightarrow> requested_usage \<Rightarrow> (usage_queue_inner \<times> bool) option" where
  "release_current (Fifo cu bl) t u =
     (case cu of
        Some (ReadonlyU count) \<Rightarrow>
          (case u of
             Readonly \<Rightarrow>
               if count = 1 then Some (Fifo None bl, True)
               else do { count' \<leftarrow> decrement count;
                         Some (Fifo (Some (ReadonlyU count')) bl, False) }
           | Writable \<Rightarrow> None)
      | Some (WritableU _) \<Rightarrow> do { ensure (u = Writable); Some (Fifo None bl, True) }
      | None \<Rightarrow> None)"
| "release_current (Priority cu bl) t u =
     (case cu of
        Some (ReadonlyU tasks) \<Rightarrow>
          (case u of
             Readonly \<Rightarrow>
               do { ensure (bt_get tasks (task_id t) \<noteq> None);
                    let tasks' = bt_remove (task_id t) tasks in
                    if tasks' = [] then Some (Priority None bl, True)
                    else Some (Priority (Some (ReadonlyU tasks')) bl, False) }
           | Writable \<Rightarrow> None)
      | Some (WritableU _) \<Rightarrow> do { ensure (u = Writable); Some (Priority None bl, True) }
      | None \<Rightarrow> None)"

definition unlock ::
  "usage_queue_inner \<Rightarrow> task \<Rightarrow> requested_usage \<Rightarrow>
   (usage_queue_inner \<times> usage_from_task option) option" where
  "unlock q t u =
     do { (q', is_newly_lockable) \<leftarrow> release_current q t u;
          Some (if is_newly_lockable then pop q' else (q', None)) }"

definition push_blocked :: "usage_from_task \<Rightarrow> usage_queue_inner \<Rightarrow> usage_queue_inner option" where
  "push_blocked ut q = do { ensure (current_usage q \<noteq> None); push ut q }"

definition pop_lockable_readonly ::
  "usage_queue_inner \<Rightarrow> (usage_queue_inner \<times> usage_from_task option) option" where
  "pop_lockable_readonly q =
     (case peek_blocked q of
        Some (Readonly, _) \<Rightarrow> do { ensure (current_usage q = Some Readonly); Some (pop q) }
      | _ \<Rightarrow> Some (q, None))"

text \<open>
  The loop of \<open>prepare_lock\<close> over \<open>extract_if(new_task.task_id().., try_reblock)\<close>: in key
  order, every current reader at or above the new task's id that can be reblocked moves to
  the blocked queue.
\<close>

fun reblock_readers ::
  "ordered_task_id \<Rightarrow> (ordered_task_id, task) btree \<Rightarrow> count_store \<Rightarrow> priority_usage_queue \<Rightarrow>
   ((ordered_task_id, task) btree \<times> count_store \<times> priority_usage_queue) option" where
  "reblock_readers new_id [] n bl = Some ([], n, bl)"
| "reblock_readers new_id ((tid, t) # tasks) n bl =
     (if tid < new_id then
        do { (rest, n', bl') \<leftarrow> reblock_readers new_id tasks n bl; Some ((tid, t) # rest, n', bl') }
      else
        do { (n', reblocked) \<leftarrow> try_reblock t n;
             if reblocked then
               do { bl' \<leftarrow> insert_usage_from_task (Readonly, t) bl;
                    reblock_readers new_id tasks n' bl' }
             else
               do { (rest, n'', bl') \<leftarrow> reblock_readers new_id tasks n' bl;
                    Some ((tid, t) # rest, n'', bl') } })"

fun prepare_lock ::
  "usage_queue_inner \<Rightarrow> count_store \<Rightarrow> task \<Rightarrow> requested_usage \<Rightarrow>
   (usage_queue_inner \<times> count_store \<times> lock_result) option" where
  "prepare_lock (Fifo cu bl) n new_task u =
     Some (Fifo cu bl, n, if bl = [] then Inr () else Inl ())"
| "prepare_lock (Priority cu bl) n new_task u =
     (case cu of
        None \<Rightarrow> do { ensure (bl = []); Some (Priority cu bl, n, Inr ()) }
      | Some (WritableU current_task) \<Rightarrow>
          do { higher \<leftarrow> is_higher_priority new_task current_task;
               if \<not> higher then Some (Priority cu bl, n, Inl ())
               else do { (n', reblocked) \<leftarrow> try_reblock current_task n;
                         if \<not> reblocked then Some (Priority cu bl, n', Inl ())
                         else do { (cu', reblocked_task) \<leftarrow> take_writable cu;
                                   bl' \<leftarrow> insert_usage_from_task (Writable, reblocked_task) bl;
                                   Some (Priority cu' bl', n', Inr ()) } } }
      | Some (ReadonlyU current_tasks) \<Rightarrow>
          (case u of
             Readonly \<Rightarrow>
               (case peek_blocked (Priority cu bl) of
                  None \<Rightarrow> Some (Priority cu bl, n, Inr ())
                | Some (peeked_usage, peeked_task) \<Rightarrow>
                    do { ensure (peeked_usage = Writable);
                         higher \<leftarrow> is_higher_priority new_task peeked_task;
                         Some (Priority cu bl, n, if \<not> higher then Inl () else Inr ()) })
           | Writable \<Rightarrow>
               do { (current_tasks', n', bl') \<leftarrow>
                      reblock_readers (task_id new_task) current_tasks n bl;
                    if current_tasks' = []
                    then do { cu' \<leftarrow> take_readable (Some (ReadonlyU current_tasks'));
                              Some (Priority cu' bl', n', Inr ()) }
                    else Some (Priority (Some (ReadonlyU current_tasks')) bl', n', Inl ()) }))"

end
