(* ===== verification/Scheduler.thy ===== *)
theory Scheduler
  imports Usage_Queue
begin

text \<open>
  \<open>SchedulingStateMachine\<close> of \<open>crates/scheduler/unified-scheduler-logic/src/lib.rs\<close>: its
  state and every operation. The two zero-sized tokens of the struct own all counter cells
  and all queue cells, so the fields \<open>count_token\<close> and \<open>usage_queue_token\<close> are those
  stores.
\<close>

record scheduling_state_machine =
  unblocked_task_queue :: "task list"
  active_task_count :: short_counter
  peak_active_task_count :: short_counter
  dropped_task_count :: short_counter
  max_unique_active_task_count :: "nat option"
  unique_active_task_hashes :: "hash set"
  running_task_count :: short_counter
  max_running_task_count :: nat
  handled_task_count :: short_counter
  unblocked_task_count :: short_counter
  total_task_count :: short_counter
  count_token :: count_store
  usage_queue_token :: "queue_ref \<Rightarrow> usage_queue_inner"

type_synonym ssm = scheduling_state_machine


section \<open>Queries\<close>

definition has_no_running_task :: "ssm \<Rightarrow> bool" where
  "has_no_running_task s = (running_task_count s = 0)"

definition has_no_active_task :: "ssm \<Rightarrow> bool" where
  "has_no_active_task s = (active_task_count s = 0)"

definition has_unblocked_task :: "ssm \<Rightarrow> bool" where
  "has_unblocked_task s = (unblocked_task_queue s \<noteq> [])"

definition is_task_runnable :: "ssm \<Rightarrow> bool" where
  "is_task_runnable s = (running_task_count s < max_running_task_count s)"

definition has_runnable_task :: "ssm \<Rightarrow> bool" where
  "has_runnable_task s = (has_unblocked_task s \<and> is_task_runnable s)"


section \<open>Locking and unlocking the usage queues of a task\<close>

type_synonym lock_state = "(queue_ref \<Rightarrow> usage_queue_inner) \<times> count_store \<times> short_counter"

text \<open>One iteration of the loop of \<open>try_lock_usage_queues\<close>.\<close>

definition lock_usage_queue :: "task \<Rightarrow> lock_context \<Rightarrow> lock_state \<Rightarrow> lock_state option" where
  "lock_usage_queue t ctx = (\<lambda>(qs, n, blocked_count).
     do { let a = usage_queue ctx;
          (q, n', prepared) \<leftarrow> prepare_lock (qs a) n t (requested_usage ctx);
          (q', lock_result) \<leftarrow>
            (case prepared of
               Inl _ \<Rightarrow> Some (q, Inl ())
             | Inr _ \<Rightarrow> try_lock q t (requested_usage ctx));
          case lock_result of
            Inr _ \<Rightarrow> Some (qs(a := q'), n', blocked_count)
          | Inl _ \<Rightarrow>
              do { blocked_count' \<leftarrow> increment blocked_count;
                   q'' \<leftarrow> push_blocked (requested_usage ctx, t) q';
                   Some (qs(a := q''), n', blocked_count') } })"

definition try_lock_usage_queues :: "ssm \<Rightarrow> task \<Rightarrow> (ssm \<times> task option) option" where
  "try_lock_usage_queues s t =
     do { (qs, n, blocked_count) \<leftarrow>
            foldM (lock_usage_queue t) (lock_contexts t) (usage_queue_token s, count_token s, 0);
          if blocked_count = 0
          then Some (s\<lparr>usage_queue_token := qs, count_token := n\<rparr>, Some t)
          else Some (s\<lparr>usage_queue_token := qs,
                       count_token := set_blocked_usage_count t blocked_count n\<rparr>, None) }"

text \<open>
  The \<open>while let Some((lockable_usage, lockable_task))\<close> loop of \<open>unlock_usage_queues\<close>.
  Every round either stops or pops one more blocked usage, so it terminates.
\<close>

fun blocked :: "usage_queue_inner \<Rightarrow> usage_from_task list" where
  "blocked (Fifo _ bl) = bl"
| "blocked (Priority _ bl) = map snd bl"

lemma blocked_try_lock: "try_lock q t u = Some (q', r) \<Longrightarrow> blocked q' = blocked q"
  by (cases q)
    (auto simp: ensure_def
      split: option.splits usage.splits requested_usage.splits if_splits Option.bind_splits)

lemma blocked_pop:
  "pop q = (q', ut) \<Longrightarrow>
   blocked q = (case ut of None \<Rightarrow> [] | Some x \<Rightarrow> [x]) @ blocked q' \<and>
   (ut = None \<longrightarrow> blocked q = [])"
proof (cases q)
  case (Fifo cu bl)
  then show "pop q = (q', ut) \<Longrightarrow> ?thesis" by (cases bl) auto
next
  case (Priority cu bl)
  then show "pop q = (q', ut) \<Longrightarrow> ?thesis" by (cases bl) auto
qed

lemma blocked_pop_lockable_readonly:
  "pop_lockable_readonly q = Some (q', ut) \<Longrightarrow>
   length (blocked q') + (if ut = None then 0 else 1) = length (blocked q)"
  by (auto simp: pop_lockable_readonly_def dest!: blocked_pop
      split: option.splits requested_usage.splits if_splits)

definition unlock_round ::
  "usage_queue_inner \<Rightarrow> count_store \<Rightarrow> task list \<Rightarrow> usage_from_task \<Rightarrow>
   (usage_queue_inner \<times> count_store \<times> task list \<times> usage_from_task option) option" where
  "unlock_round q n uq lockable =
     do { let (lockable_usage, lockable_task) = lockable;
          (q', r) \<leftarrow> try_lock q lockable_task lockable_usage;
          ensure (r = Inr ());
          (n', unblocked_task) \<leftarrow> try_unblock lockable_task n;
          let uq' = (case unblocked_task of None \<Rightarrow> uq | Some t \<Rightarrow> uq @ [t]);
          (q'', newly_lockable) \<leftarrow>
            (if lockable_usage = Readonly then pop_lockable_readonly q' else Some (q', None));
          Some (q'', n', uq', newly_lockable) }"

lemma unlock_round_decreases:
  assumes "unlock_round q n uq lockable = Some (q'', n', uq', nl)"
  shows "length (blocked q'') + (if nl = None then 0 else 1) \<le> length (blocked q)"
proof -
  from assms obtain q' r where "try_lock q (snd lockable) (fst lockable) = Some (q', r)"
    and "(if fst lockable = Readonly then pop_lockable_readonly q' else Some (q', None)) = Some (q'', nl)"
    by (auto simp: unlock_round_def Let_def split: prod.splits if_splits elim!: bind_eq_SomeE)
  then show ?thesis
    by (cases "fst lockable = Readonly")
      (auto dest!: blocked_try_lock blocked_pop_lockable_readonly)
qed

function unlock_loop ::
  "usage_queue_inner \<Rightarrow> count_store \<Rightarrow> task list \<Rightarrow> usage_from_task option \<Rightarrow>
   (usage_queue_inner \<times> count_store \<times> task list) option" where
  "unlock_loop q n uq None = Some (q, n, uq)"
| "unlock_loop q n uq (Some lockable) =
     do { (q', n', uq', newly_lockable) \<leftarrow> unlock_round q n uq lockable;
          unlock_loop q' n' uq' newly_lockable }"
  by pat_completeness auto
termination
  by (relation "measure (\<lambda>(q, n, uq, nl). length (blocked q) + (if nl = None then 0 else 1))")
    (auto dest: unlock_round_decreases)

definition unlock_usage_queue ::
  "task \<Rightarrow> lock_context \<Rightarrow> ssm \<Rightarrow> ssm option" where
  "unlock_usage_queue t ctx s =
     do { let a = usage_queue ctx;
          (q, newly_lockable) \<leftarrow> unlock (usage_queue_token s a) t (requested_usage ctx);
          (q', n, uq) \<leftarrow> unlock_loop q (count_token s) (unblocked_task_queue s) newly_lockable;
          Some (s\<lparr>usage_queue_token := (usage_queue_token s)(a := q'),
                  count_token := n, unblocked_task_queue := uq\<rparr>) }"

definition unlock_usage_queues :: "ssm \<Rightarrow> task \<Rightarrow> ssm option" where
  "unlock_usage_queues s t = foldM (unlock_usage_queue t) (lock_contexts t) s"


section \<open>The operations\<close>

definition schedule_or_buffer_task :: "ssm \<Rightarrow> task \<Rightarrow> bool \<Rightarrow> (ssm \<times> task option) option" where
  "schedule_or_buffer_task s0 t force_buffering =
     do { total \<leftarrow> increment (total_task_count s0);
          let s = s0\<lparr>total_task_count := total\<rparr>;
          let is_excess = (case max_unique_active_task_count s of None \<Rightarrow> False
                           | Some m \<Rightarrow> card (unique_active_task_hashes s) \<ge> m);
          let is_duplicate = (max_unique_active_task_count s \<noteq> None \<and>
                              task_hash t \<in> unique_active_task_hashes s);
          if is_excess \<or> is_duplicate
          then do { dropped \<leftarrow> increment (dropped_task_count s);
                    Some (s\<lparr>dropped_task_count := dropped\<rparr>, None) }
          else
            do { let s = (if max_unique_active_task_count s = None then s
                          else s\<lparr>unique_active_task_hashes :=
                                   insert (task_hash t) (unique_active_task_hashes s)\<rparr>);
                 active \<leftarrow> increment (active_task_count s);
                 let s = s\<lparr>active_task_count := active,
                           peak_active_task_count := max (peak_active_task_count s) active\<rparr>;
                 (s, locked) \<leftarrow> try_lock_usage_queues s t;
                 case locked of
                   None \<Rightarrow> Some (s, None)
                 | Some t \<Rightarrow>
                     if \<not> is_task_runnable s \<or> force_buffering
                     then do { c \<leftarrow> increment (unblocked_task_count s);
                               Some (s\<lparr>unblocked_task_count := c,
                                       unblocked_task_queue := unblocked_task_queue s @ [t]\<rparr>, None) }
                     else do { c \<leftarrow> increment (running_task_count s);
                               Some (s\<lparr>running_task_count := c\<rparr>, Some t) } } }"

definition schedule_task :: "ssm \<Rightarrow> task \<Rightarrow> (ssm \<times> task option) option" where
  "schedule_task s t = schedule_or_buffer_task s t False"

definition buffer_task :: "ssm \<Rightarrow> task \<Rightarrow> ssm option" where
  "buffer_task s t =
     do { (s', r) \<leftarrow> schedule_or_buffer_task s t True; ensure (r = None); Some s' }"

definition schedule_next_unblocked_task :: "ssm \<Rightarrow> (ssm \<times> task option) option" where
  "schedule_next_unblocked_task s =
     (if \<not> is_task_runnable s then Some (s, None)
      else case unblocked_task_queue s of
             [] \<Rightarrow> Some (s, None)
           | t # uq \<Rightarrow>
               do { r \<leftarrow> increment (running_task_count s);
                    c \<leftarrow> increment (unblocked_task_count s);
                    Some (s\<lparr>unblocked_task_queue := uq, running_task_count := r,
                            unblocked_task_count := c\<rparr>, Some t) })"

definition deschedule_task :: "ssm \<Rightarrow> task \<Rightarrow> ssm option" where
  "deschedule_task s t =
     do { r \<leftarrow> decrement (running_task_count s);
          ensure (max_unique_active_task_count s \<noteq> None \<longrightarrow>
                  task_hash t \<in> unique_active_task_hashes s);
          let hashes = (if max_unique_active_task_count s = None
                        then unique_active_task_hashes s
                        else unique_active_task_hashes s - {task_hash t});
          a \<leftarrow> decrement (active_task_count s);
          h \<leftarrow> increment (handled_task_count s);
          unlock_usage_queues
            (s\<lparr>running_task_count := r, unique_active_task_hashes := hashes,
               active_task_count := a, handled_task_count := h\<rparr>) t }"

definition reinitialize :: "ssm \<Rightarrow> ssm option" where
  "reinitialize s =
     do { ensure (has_no_active_task s);
          ensure (card (unique_active_task_hashes s) = 0);
          ensure (running_task_count s = 0);
          ensure (length (unblocked_task_queue s) = 0);
          Some (s\<lparr>active_task_count := 0, peak_active_task_count := 0, dropped_task_count := 0,
                  handled_task_count := 0, unblocked_task_count := 0, total_task_count := 0\<rparr>) }"

text \<open>
  The loop of \<open>clear_and_reinitialize\<close>. Every round takes one task off the unblocked queue and
  deschedules it, which decrements \<open>active_task_count\<close>, so it terminates.
\<close>

definition counters :: "ssm \<Rightarrow> ssm" where
  "counters s = s\<lparr>usage_queue_token := (\<lambda>_. with_fifo), count_token := (\<lambda>_. 0),
                  unblocked_task_queue := []\<rparr>"

lemma counters_fields:
  "counters s' = counters s \<Longrightarrow>
   active_task_count s' = active_task_count s \<and> running_task_count s' = running_task_count s \<and>
   unique_active_task_hashes s' = unique_active_task_hashes s \<and>
   max_running_task_count s' = max_running_task_count s \<and>
   max_unique_active_task_count s' = max_unique_active_task_count s \<and>
   total_task_count s' = total_task_count s \<and> unblocked_task_count s' = unblocked_task_count s \<and>
   handled_task_count s' = handled_task_count s \<and> dropped_task_count s' = dropped_task_count s"
  by (cases s; cases s') (auto simp: counters_def)

lemma unlock_usage_queue_counters:
  "unlock_usage_queue t ctx s = Some s' \<Longrightarrow> counters s' = counters s"
  by (auto simp: unlock_usage_queue_def counters_def Let_def split: Option.bind_splits prod.splits)

lemma unlock_usage_queues_counters:
  assumes "unlock_usage_queues s t = Some s'"
  shows "counters s' = counters s"
proof -
  have "foldM (unlock_usage_queue t) cs s = Some s' \<Longrightarrow> counters s' = counters s" for cs
    by (induction cs arbitrary: s) (auto dest: unlock_usage_queue_counters elim!: bind_eq_SomeE)
  with assms show ?thesis by (simp add: unlock_usage_queues_def)
qed

lemma deschedule_task_active:
  "deschedule_task s t = Some s' \<Longrightarrow> active_task_count s = Suc (active_task_count s')"
  by (auto simp: deschedule_task_def Let_def decrement_def dest!: unlock_usage_queues_counters counters_fields
      split: Option.bind_splits if_splits)

lemma schedule_next_unblocked_task_active:
  "schedule_next_unblocked_task s = Some (s', r) \<Longrightarrow> active_task_count s' = active_task_count s"
  by (auto simp: schedule_next_unblocked_task_def split: if_splits list.splits Option.bind_splits)

definition clear_round :: "ssm \<Rightarrow> short_counter \<Rightarrow> (ssm \<times> short_counter \<times> bool) option" where
  "clear_round s count =
     do { (s', r) \<leftarrow> schedule_next_unblocked_task s;
          case r of
            None \<Rightarrow> Some (s', count, False)
          | Some t \<Rightarrow>
              do { s'' \<leftarrow> deschedule_task s' t;
                   count' \<leftarrow> increment count;
                   Some (s'', count', True) } }"

lemma clear_round_decreases:
  assumes "clear_round s count = Some (s', count', True)"
  shows "active_task_count s' < active_task_count s"
proof -
  from assms obtain s1 t where "schedule_next_unblocked_task s = Some (s1, Some t)"
    and "deschedule_task s1 t = Some s'"
    by (auto simp: clear_round_def split: prod.splits option.splits elim!: bind_eq_SomeE)
  from schedule_next_unblocked_task_active [OF this(1)] deschedule_task_active [OF this(2)]
  show ?thesis by simp
qed

function clear_loop :: "ssm \<Rightarrow> short_counter \<Rightarrow> (ssm \<times> short_counter) option" where
  "clear_loop s count =
     do { (s', count', continue) \<leftarrow> clear_round s count;
          if continue then clear_loop s' count' else Some (s', count') }"
  by pat_completeness auto
termination
  by (relation "measure (\<lambda>(s, count). active_task_count s)")
    (auto dest: clear_round_decreases)

declare clear_loop.simps [simp del]

definition clear_and_reinitialize :: "ssm \<Rightarrow> (ssm \<times> nat) option" where
  "clear_and_reinitialize s =
     do { (s', count) \<leftarrow> clear_loop s 0; s'' \<leftarrow> reinitialize s'; Some (s'', count) }"


section \<open>Constructors\<close>

text \<open>
  \<open>cell\<close> is the counter cell the allocation of the new task returns and \<open>n\<close> the counter
  store; \<open>usage_queue_loader\<close> is the caller's look-up from an address to its queue.
\<close>

definition do_create_task ::
  "runtime_transaction \<Rightarrow> ordered_task_id \<Rightarrow> nat \<Rightarrow> epoch \<Rightarrow> slot \<Rightarrow> (pubkey \<Rightarrow> queue_ref) \<Rightarrow>
   count_ref \<Rightarrow> count_store \<Rightarrow> task \<times> count_store" where
  "do_create_task tx tid block_size ep alt usage_queue_loader cell n =
     (\<lparr>transaction = tx, task_id = tid,
       lock_contexts =
         map (\<lambda>(i, address). \<lparr>usage_queue = usage_queue_loader address,
                requested_usage = (if is_writable tx i then Writable else Readonly)\<rparr>)
           (enumerate 0 (account_keys tx)),
       blocked_usage_count = cell, consumed_block_size = block_size, sanitized_epoch = ep,
       alt_invalidation_slot = alt\<rparr>,
      n(cell := 0))"

definition create_task ::
  "runtime_transaction \<Rightarrow> ordered_task_id \<Rightarrow> (pubkey \<Rightarrow> queue_ref) \<Rightarrow>
   count_ref \<Rightarrow> count_store \<Rightarrow> task \<times> count_store" where
  "create_task tx tid = do_create_task tx tid 0 u64_max u64_max"

definition create_block_production_task ::
  "runtime_transaction \<Rightarrow> ordered_task_id \<Rightarrow> nat \<Rightarrow> epoch \<Rightarrow> slot \<Rightarrow> (pubkey \<Rightarrow> queue_ref) \<Rightarrow>
   count_ref \<Rightarrow> count_store \<Rightarrow> task \<times> count_store" where
  "create_block_production_task = do_create_task"

definition exclusively_initialize_current_thread_for_scheduling ::
  "nat option \<Rightarrow> nat option \<Rightarrow> (queue_ref \<Rightarrow> usage_queue_inner) \<Rightarrow> count_store \<Rightarrow> ssm option" where
  "exclusively_initialize_current_thread_for_scheduling max_running max_unique qs n =
     do { let m = (case max_running of None \<Rightarrow> u32_max | Some m \<Rightarrow> m);
          ensure (m \<le> u32_max);
          Some \<lparr>unblocked_task_queue = [], active_task_count = 0, peak_active_task_count = 0,
                dropped_task_count = 0, max_unique_active_task_count = max_unique,
                unique_active_task_hashes = {}, running_task_count = 0,
                max_running_task_count = m, handled_task_count = 0, unblocked_task_count = 0,
                total_task_count = 0, count_token = n, usage_queue_token = qs\<rparr> }"

end
