(* ===== verification/Usage_Queue_Laws.thy ===== *)
theory Usage_Queue_Laws
  imports Scheduler
begin

text \<open>
  The contract of one usage queue. The claims at an address map every task that has locked or
  is waiting for the address to the usage it asked for; the claimants that are not in the
  blocked queue are the holders. \<open>queue_ok\<close> relates a queue to its claims, and the two laws
  at the end say what a lock attempt and an unlock do to it. Both hold for the FIFO and for
  the priority variant; \<open>rk\<close> is the order in which the queue serves tasks (arrival order for
  FIFO, task id for priority).
\<close>

abbreviation cell :: "task \<Rightarrow> count_ref" where
  "cell \<equiv> blocked_usage_count"

type_synonym claims = "task \<Rightarrow> requested_usage option"

definition waiting :: "usage_queue_inner \<Rightarrow> task set" where
  "waiting q = snd ` set (blocked q)"

definition holders :: "claims \<Rightarrow> usage_queue_inner \<Rightarrow> task set" where
  "holders c q = dom c - waiting q"

text \<open>What the current usage says about the holders.\<close>

definition usage_ok :: "claims \<Rightarrow> usage_queue_inner \<Rightarrow> bool" where
  "usage_ok c q =
     (case current_usage q of
        None \<Rightarrow> holders c q = {}
      | Some Readonly \<Rightarrow> holders c q \<noteq> {} \<and> (\<forall>h \<in> holders c q. c h = Some Readonly)
      | Some Writable \<Rightarrow> (\<exists>h. holders c q = {h} \<and> c h = Some Writable))"

text \<open>What the two variants store of the holders and of the blocked tasks.\<close>

fun repr_ok :: "claims \<Rightarrow> usage_queue_inner \<Rightarrow> bool" where
  "repr_ok c (Fifo cu bl) =
     (\<forall>n. cu = Some (ReadonlyU n) \<longrightarrow> card (holders c (Fifo cu bl)) = n)"
| "repr_ok c (Priority cu bl) =
     (bt_wf bl \<and> (\<forall>e \<in> set bl. fst e = task_id (snd (snd e))) \<and>
      (\<forall>m. cu = Some (ReadonlyU m) \<longrightarrow>
         bt_wf m \<and> set m = (\<lambda>h. (task_id h, h)) ` holders c (Priority cu bl)) \<and>
      (\<forall>h. cu = Some (WritableU h) \<longrightarrow> holders c (Priority cu bl) = {h}))"

text \<open>
  \<open>head_ok\<close> is the liveness half of the contract: nothing is blocked on a free address, and
  while readers hold it, the first blocked usage is a writer. It fails between the steps of an
  operation, whereas \<open>queue_inv\<close> does not.
\<close>

definition head_ok :: "usage_queue_inner \<Rightarrow> bool" where
  "head_ok q =
     (case current_usage q of
        None \<Rightarrow> blocked q = []
      | Some Readonly \<Rightarrow> blocked q \<noteq> [] \<longrightarrow> fst (hd (blocked q)) = Writable
      | Some Writable \<Rightarrow> True)"

definition queue_inv :: "(task \<Rightarrow> nat) \<Rightarrow> claims \<Rightarrow> count_store \<Rightarrow> usage_queue_inner \<Rightarrow> bool" where
  "queue_inv rk c n q =
     (finite (dom c) \<and> inj_on rk (dom c) \<and> inj_on cell (dom c) \<and>
      (is_Priority q \<longrightarrow> (\<forall>t \<in> dom c. rk t = task_id t)) \<and>
      sorted_wrt (\<lambda>x y. rk (snd x) < rk (snd y)) (blocked q) \<and>
      (\<forall>x \<in> set (blocked q). c (snd x) = Some (fst x)) \<and>
      (\<forall>h \<in> holders c q. \<forall>b \<in> waiting q. rk h < rk b \<or> (is_Priority q \<and> n (cell h) = 0)) \<and>
      usage_ok c q \<and> repr_ok c q)"

definition queue_ok :: "(task \<Rightarrow> nat) \<Rightarrow> claims \<Rightarrow> count_store \<Rightarrow> usage_queue_inner \<Rightarrow> bool" where
  "queue_ok rk c n q = (queue_inv rk c n q \<and> head_ok q)"

definition raise_counts :: "task set \<Rightarrow> count_store \<Rightarrow> count_store" where
  "raise_counts R n = (\<lambda>x. if x \<in> cell ` R then n x + 1 else n x)"

definition lower_counts :: "task set \<Rightarrow> count_store \<Rightarrow> count_store" where
  "lower_counts P n = (\<lambda>x. if x \<in> cell ` P then n x - 1 else n x)"

lemma raise_counts_empty [simp]: "raise_counts {} n = n"
  by (simp add: raise_counts_def)

lemma lower_counts_empty [simp]: "lower_counts {} n = n"
  by (simp add: lower_counts_def)

lemma waiting_subset: "queue_inv rk c n q \<Longrightarrow> waiting q \<subseteq> dom c"
  by (auto simp: queue_inv_def waiting_def)

lemma holders_subset: "holders c q \<subseteq> dom c"
  by (auto simp: holders_def)

lemma queue_inv_counts:
  "queue_inv rk c n q \<Longrightarrow> (\<And>h. h \<in> holders c q \<Longrightarrow> n (cell h) = 0 \<Longrightarrow> n' (cell h) = 0) \<Longrightarrow>
   queue_inv rk c n' q"
  unfolding queue_inv_def by blast

lemma queue_ok_counts:
  "queue_ok rk c n q \<Longrightarrow> (\<And>h. h \<in> holders c q \<Longrightarrow> n (cell h) = 0 \<Longrightarrow> n' (cell h) = 0) \<Longrightarrow>
   queue_ok rk c n' q"
  by (auto simp: queue_ok_def intro: queue_inv_counts)

lemma queue_ok_new: "queue_ok rk (\<lambda>_. None) n (new_usage_queue cap)"
  by (cases cap)
    (simp_all add: queue_ok_def queue_inv_def head_ok_def with_fifo_def with_priority_def
      usage_ok_def holders_def waiting_def)

lemma holders_order:
  "queue_inv rk c n q \<Longrightarrow> h \<in> holders c q \<Longrightarrow> b \<in> waiting q \<Longrightarrow>
   rk h < rk b \<or> (is_Priority q \<and> n (cell h) = 0)"
  unfolding queue_inv_def by (elim conjE) (drule (1) bspec, drule (1) bspec)

text \<open>Two holders of an address never conflict: one of them writing excludes the other.\<close>

lemma holders_exclusive:
  assumes "queue_inv rk c n q" and "h \<in> holders c q" and "h' \<in> holders c q" and "h \<noteq> h'"
  shows "c h = Some Readonly \<and> c h' = Some Readonly"
proof -
  from assms(1) have "usage_ok c q" by (simp add: queue_inv_def)
  then show ?thesis using assms(2-4)
    by (auto simp: usage_ok_def split: option.splits requested_usage.splits)
qed

text \<open>Whoever waits, waits for a holder.\<close>

lemma waiting_has_holder:
  assumes "queue_ok rk c n q" and "b \<in> waiting q"
  obtains h where "h \<in> holders c q" and "rk h < rk b \<or> n (cell h) = 0"
proof -
  from assms(1) have "usage_ok c q" and "head_ok q" by (simp_all add: queue_inv_def queue_ok_def)
  moreover from assms(2) have "blocked q \<noteq> []" by (auto simp: waiting_def)
  ultimately obtain h where "h \<in> holders c q"
    by (auto simp: usage_ok_def head_ok_def split: option.splits requested_usage.splits)
  with assms that show thesis unfolding queue_ok_def queue_inv_def by blast
qed

text \<open>A FIFO queue serves strictly in arrival order.\<close>

lemma fifo_holders_first:
  assumes "queue_inv rk c n q" and "\<not> is_Priority q" and "h \<in> holders c q" and "b \<in> waiting q"
  shows "rk h < rk b"
  using assms unfolding queue_inv_def by blast

text \<open>The head of the blocked queue is its member of least rank.\<close>

lemma blocked_head_eqI:
  assumes "queue_inv rk c n q" and "x \<in> set (blocked q)"
    and "\<And>y. y \<in> set (blocked q) \<Longrightarrow> rk (snd x) \<le> rk (snd y)"
  shows "hd (blocked q) = x"
proof (cases "blocked q")
  case (Cons y ys)
  then have "\<forall>z \<in> set ys. rk (snd y) < rk (snd z)"
    using assms(1) by (simp add: queue_inv_def)
  moreover have "rk (snd x) \<le> rk (snd y)" using assms(3) Cons by simp
  ultimately show ?thesis using assms(2) Cons by auto
qed (use assms(2) in simp)

lemma blocked_head_least:
  assumes "queue_inv rk c n q" and "b \<in> waiting q"
  shows "rk (snd (hd (blocked q))) \<le> rk b"
  using assms by (cases "blocked q") (auto simp: queue_inv_def waiting_def)


section \<open>Locking\<close>

text \<open>One iteration of \<open>try_lock_usage_queues\<close>, on its own queue.\<close>

definition lock_queue ::
  "usage_queue_inner \<Rightarrow> count_store \<Rightarrow> task \<Rightarrow> requested_usage \<Rightarrow>
   (usage_queue_inner \<times> count_store \<times> bool) option" where
  "lock_queue q n t u =
     do { (q1, n', prepared) \<leftarrow> prepare_lock q n t u;
          (q', r) \<leftarrow> (case prepared of Inl _ \<Rightarrow> Some (q1, Inl ()) | Inr _ \<Rightarrow> try_lock q1 t u);
          case r of
            Inr _ \<Rightarrow> Some (q', n', True)
          | Inl _ \<Rightarrow> do { q'' \<leftarrow> push_blocked (u, t) q'; Some (q'', n', False) } }"

lemma lock_usage_queue_eq:
  "lock_usage_queue t ctx (qs, n, b) =
     do { (q', n', ok) \<leftarrow> lock_queue (qs (usage_queue ctx)) n t (requested_usage ctx);
          b' \<leftarrow> (if ok then Some b else increment b);
          Some (qs(usage_queue ctx := q'), n', b') }"
proof (cases "prepare_lock (qs (usage_queue ctx)) n t (requested_usage ctx)")
  case None
  then show ?thesis by (simp add: lock_usage_queue_def lock_queue_def Let_def)
next
  case (Some x)
  obtain q1 n' prepared where x: "x = (q1, n', prepared)" by (cases x)
  show ?thesis
  proof (cases "case prepared of Inl _ \<Rightarrow> Some (q1, Inl ()) | Inr _ \<Rightarrow> try_lock q1 t (requested_usage ctx)")
    case None
    with Some x show ?thesis by (simp add: lock_usage_queue_def lock_queue_def Let_def)
  next
    case (Some y)
    obtain q' r where y: "y = (q', r)" by (cases y)
    show ?thesis
      by (cases r; cases "increment b"; cases "push_blocked (requested_usage ctx, t) q'")
        (simp_all add: lock_usage_queue_def lock_queue_def Let_def x y Some
          \<open>prepare_lock (qs (usage_queue ctx)) n t (requested_usage ctx) = Some x\<close>)
  qed
qed

text \<open>A task that has no claim on the address yet and may be given one.\<close>

definition fresh :: "(task \<Rightarrow> nat) \<Rightarrow> claims \<Rightarrow> usage_queue_inner \<Rightarrow> task \<Rightarrow> bool" where
  "fresh rk c q t =
     (t \<notin> dom c \<and> inj_on rk (insert t (dom c)) \<and> inj_on cell (insert t (dom c)) \<and>
      (is_Priority q \<longrightarrow> rk t = task_id t))"

lemma fresh_cong: "fresh rk c q t \<Longrightarrow> is_Priority q' = is_Priority q \<Longrightarrow> fresh rk c q' t"
  unfolding fresh_def by blast

lemma fresh_rank: "fresh rk c q t \<Longrightarrow> x \<in> dom c \<Longrightarrow> rk x \<noteq> rk t"
  by (auto simp: fresh_def inj_on_def)

lemma fresh_cell: "fresh rk c q t \<Longrightarrow> x \<in> dom c \<Longrightarrow> cell x \<noteq> cell t"
  by (auto simp: fresh_def inj_on_def)

lemma fresh_task_id:
  "fresh rk c q t \<Longrightarrow> queue_inv rk c n q \<Longrightarrow> is_Priority q \<Longrightarrow> x \<in> dom c \<Longrightarrow> task_id x \<noteq> task_id t"
  using fresh_rank [of rk c q t x] by (metis fresh_def queue_inv_def)

lemma sorted_blocked_priority:
  assumes "bt_wf bl" and "\<forall>e \<in> set bl. fst e = task_id (snd (snd e))"
    and "\<forall>e \<in> set bl. rk (snd (snd e)) = task_id (snd (snd e))"
  shows "sorted_wrt (\<lambda>x y. rk (snd x) < rk (snd y)) (map snd bl)"
  using assms
proof (induction bl)
  case (Cons e bl)
  then show ?case by (cases e) (auto simp: ball_Un)
qed simp

lemma queue_inv_freshI:
  assumes ok: "queue_inv rk c n q" and new: "fresh rk c q t"
    and "is_Priority q' = is_Priority q"
    and "sorted_wrt (\<lambda>x y. rk (snd x) < rk (snd y)) (blocked q')"
    and "\<And>x. x \<in> set (blocked q') \<Longrightarrow> (c(t \<mapsto> u)) (snd x) = Some (fst x)"
    and "\<And>h b. h \<in> holders (c(t \<mapsto> u)) q' \<Longrightarrow> b \<in> waiting q' \<Longrightarrow>
      rk h < rk b \<or> (is_Priority q' \<and> n (cell h) = 0)"
    and "usage_ok (c(t \<mapsto> u)) q'" and "repr_ok (c(t \<mapsto> u)) q'"
  shows "queue_inv rk (c(t \<mapsto> u)) n q'"
proof -
  have "finite (dom (c(t \<mapsto> u)))" "inj_on rk (dom (c(t \<mapsto> u)))" "inj_on cell (dom (c(t \<mapsto> u)))"
    "is_Priority q' \<longrightarrow> (\<forall>x \<in> dom (c(t \<mapsto> u)). rk x = task_id x)"
    using ok new assms(3) by (auto simp: queue_inv_def fresh_def)
  with assms(4-) show ?thesis unfolding queue_inv_def by blast
qed

lemma priority_blocked:
  assumes "queue_inv rk c n (Priority cu bl)"
  shows "bt_wf bl" and "\<forall>e \<in> set bl. fst e = task_id (snd (snd e))"
    and "\<forall>e \<in> set bl. rk (snd (snd e)) = task_id (snd (snd e))"
    and "\<forall>e \<in> set bl. snd (snd e) \<in> dom c"
proof -
  show "\<forall>e \<in> set bl. snd (snd e) \<in> dom c"
    using waiting_subset [OF assms] by (force simp: waiting_def)
  then show "\<forall>e \<in> set bl. rk (snd (snd e)) = task_id (snd (snd e))"
    using assms by (auto simp: queue_inv_def)
qed (use assms in \<open>auto simp: queue_inv_def\<close>)

lemma priority_get_holder:
  assumes inv: "queue_inv rk c n (Priority cu bl)" and h: "h \<in> holders c (Priority cu bl)"
  shows "bt_get bl (task_id h) = None"
proof -
  note bl = priority_blocked [OF inv]
  have "fst e \<noteq> task_id h" if e: "e \<in> set bl" for e
  proof -
    let ?x = "snd (snd e)"
    have dom: "?x \<in> dom c" "h \<in> dom c" using bl(4) e h by (auto simp: holders_def)
    have "?x \<in> waiting (Priority cu bl)" using e by (force simp: waiting_def)
    then have "?x \<noteq> h" using h by (auto simp: holders_def)
    moreover have "inj_on rk (dom c)" "\<forall>x \<in> dom c. rk x = task_id x"
      using inv by (simp_all add: queue_inv_def)
    ultimately show ?thesis using dom bl(2) e by (metis inj_onD)
  qed
  then show ?thesis by (force simp: bt_get_None_iff)
qed

text \<open>Queueing a fresh task behind the holders.\<close>

lemma push_blocked_law:
  assumes ok: "queue_inv rk c n q" and new: "fresh rk c q t"
    and cur: "current_usage q \<noteq> None"
    and last: "\<not> is_Priority q \<Longrightarrow> (\<forall>b \<in> waiting q. rk b < rk t)"
    and ord: "\<And>h. h \<in> holders c q \<Longrightarrow> rk h < rk t \<or> (is_Priority q \<and> n (cell h) = 0)"
  obtains q' where "push_blocked (u, t) q = Some q'"
    and "set (blocked q') = insert (u, t) (set (blocked q))"
    and "is_Priority q' = is_Priority q" and "current_usage q' = current_usage q"
    and "queue_inv rk (c(t \<mapsto> u)) n q'"
proof -
  note result = that
  have t: "t \<notin> dom c" using new by (simp add: fresh_def)
  have main: thesis
    if push: "push_blocked (u, t) q = Some q'"
      and prio: "is_Priority q' = is_Priority q" and cur': "current_usage q' = current_usage q"
      and bl: "set (blocked q') = insert (u, t) (set (blocked q))"
      and sorted: "sorted_wrt (\<lambda>x y. rk (snd x) < rk (snd y)) (blocked q')"
      and repr: "holders (c(t \<mapsto> u)) q' = holders c q \<Longrightarrow> repr_ok (c(t \<mapsto> u)) q'" for q'
  proof -
    have w: "waiting q' = insert t (waiting q)" by (simp add: waiting_def bl)
    with t have h: "holders (c(t \<mapsto> u)) q' = holders c q" by (auto simp: holders_def)
    have ch: "(c(t \<mapsto> u)) x = c x" if "x \<in> holders c q" for x
      using that t by (auto simp: holders_def)
    have usage: "usage_ok (c(t \<mapsto> u)) q'"
      using ok h ch cur' t holders_subset [of c q] unfolding queue_inv_def usage_ok_def
      by (auto split: option.splits requested_usage.splits)
    have claims: "\<forall>x \<in> set (blocked q'). (c(t \<mapsto> u)) (snd x) = Some (fst x)"
      using ok t unfolding bl queue_inv_def by auto
    have order: "\<forall>h \<in> holders c q. \<forall>b \<in> insert t (waiting q).
        rk h < rk b \<or> (is_Priority q \<and> n (cell h) = 0)"
      using ok ord unfolding queue_inv_def by blast
    have "queue_inv rk (c(t \<mapsto> u)) n q'"
      using claims order h w prio
      by (intro queue_inv_freshI [OF ok new prio sorted _ _ usage repr [OF h]]) auto
    with push bl prio cur' show thesis by (rule result)
  qed
  show thesis
  proof (cases q)
    case (Fifo cu bl)
    have last: "rk (snd x) < rk t" if "x \<in> set bl" for x
      using that last by (force simp: Fifo waiting_def)
    show thesis
      by (rule main [of "Fifo cu (bl @ [(u, t)])"])
        (use ok cur last in \<open>auto simp: push_blocked_def Fifo queue_inv_def sorted_wrt_append\<close>)
  next
    case (Priority cu bl)
    note bl = priority_blocked [OF ok [unfolded Priority]]
    have rkt: "rk t = task_id t" using new by (simp add: fresh_def Priority)
    have get: "bt_get bl (task_id t) = None"
      using bl fresh_task_id [OF new ok] by (force simp: bt_get_None_iff Priority)
    have set': "set (bt_insert (task_id t) (u, t) bl) = insert (task_id t, (u, t)) (set bl)"
      by (rule bt_insert_set [OF get])
    have sorted: "sorted_wrt (\<lambda>x y. rk (snd x) < rk (snd y))
        (map snd (bt_insert (task_id t) (u, t) bl))"
      using bl rkt set' by (intro sorted_blocked_priority) auto
    show thesis
      by (rule main [of "Priority cu (bt_insert (task_id t) (u, t) bl)"])
        (use ok cur bl sorted set' get in \<open>auto simp: push_blocked_def insert_usage_from_task_def
           Priority queue_inv_def\<close>)
  qed
qed

text \<open>Granting an address to a fresh task that does not conflict with the holders.\<close>

definition compatible :: "requested_usage option \<Rightarrow> requested_usage \<Rightarrow> bool" where
  "compatible cu u = (cu = None \<or> cu = Some Readonly \<and> u = Readonly)"

lemma try_lock_refused:
  "\<not> compatible (current_usage q) u \<Longrightarrow> try_lock q t u = Some (q, Inl ())"
  by (cases q; cases u) (auto simp: compatible_def split: option.splits usage.splits)

lemma try_lock_law:
  assumes ok: "queue_inv rk c n q" and new: "fresh rk c q t"
    and comp: "compatible (current_usage q) u" and room: "card (dom c) < u32_max"
    and first: "\<And>b. b \<in> waiting q \<Longrightarrow> rk t < rk b"
  obtains q' where "try_lock q t u = Some (q', Inr ())" and "blocked q' = blocked q"
    and "is_Priority q' = is_Priority q" and "current_usage q' = Some u"
    and "queue_inv rk (c(t \<mapsto> u)) n q'"
proof -
  note result = that
  have t: "t \<notin> dom c" and fin: "finite (dom c)" and usage: "usage_ok c q"
    using new ok by (simp_all add: fresh_def queue_inv_def)
  have tw: "t \<notin> waiting q" using t waiting_subset [OF ok] by auto
  have main: thesis
    if lock: "try_lock q t u = Some (q', Inr ())" and bl: "blocked q' = blocked q"
      and prio: "is_Priority q' = is_Priority q" and cur: "current_usage q' = Some u"
      and repr: "holders (c(t \<mapsto> u)) q' = insert t (holders c q) \<Longrightarrow> repr_ok (c(t \<mapsto> u)) q'" for q'
  proof -
    have w: "waiting q' = waiting q" by (simp add: waiting_def bl)
    with t tw have h: "holders (c(t \<mapsto> u)) q' = insert t (holders c q)"
      by (auto simp: holders_def)
    have "usage_ok (c(t \<mapsto> u)) q'"
      using usage comp cur t h holders_subset [of c q] unfolding usage_ok_def compatible_def
      by (auto split: requested_usage.splits)
    moreover have "\<forall>x \<in> set (blocked q'). (c(t \<mapsto> u)) (snd x) = Some (fst x)"
      using ok t unfolding bl queue_inv_def by auto
    moreover have "\<forall>x \<in> insert t (holders c q). \<forall>b \<in> waiting q.
        rk x < rk b \<or> (is_Priority q \<and> n (cell x) = 0)"
      using ok first unfolding queue_inv_def by blast
    ultimately have "queue_inv rk (c(t \<mapsto> u)) n q'"
      using h w prio bl ok repr
      by (intro queue_inv_freshI [OF ok new prio]) (auto simp: queue_inv_def)
    with lock bl prio cur show thesis by (rule result)
  qed
  have card: "card (insert t (holders c q)) = Suc (card (holders c q))"
    "card (holders c q) < u32_max"
    using t fin room holders_subset [of c q] finite_subset [of "holders c q" "dom c"]
      card_mono [of "dom c" "holders c q"] by (auto simp: card_insert_if)
  show thesis
  proof (cases q)
    case (Fifo cu bl)
    show thesis
    proof (cases cu)
      case None
      then have "holders c q = {}" using usage by (simp add: usage_ok_def Fifo)
      with None show thesis
        by (cases u; intro main [of "Fifo (Some (fifo_usage_from u)) bl"]) (simp_all add: Fifo)
    next
      case (Some y)
      then obtain k where y: "y = ReadonlyU k" and u: "u = Readonly"
        using comp by (cases y) (auto simp: compatible_def Fifo)
      have k: "card (holders c q) = k" using ok by (simp add: queue_inv_def Fifo Some y)
      show thesis
        by (rule main [of "Fifo (Some (ReadonlyU (Suc k))) bl"])
          (use card k in \<open>auto simp: Fifo Some y u increment_def\<close>)
    qed
  next
    case (Priority cu bl)
    show thesis
    proof (cases cu)
      case None
      then have "holders c q = {}" using usage by (simp add: usage_ok_def Priority)
      with None show thesis
        by (cases u; intro main [of "Priority (Some (priority_usage_from t u)) bl"])
          (use ok in \<open>auto simp: Priority queue_inv_def\<close>)
    next
      case (Some y)
      then obtain m where y: "y = ReadonlyU m" and u: "u = Readonly"
        using comp by (cases y) (auto simp: compatible_def Priority)
      have m: "bt_wf m" "set m = (\<lambda>h. (task_id h, h)) ` holders c q"
        using ok by (simp_all add: queue_inv_def Priority Some y)
      then have get: "bt_get m (task_id t) = None"
        using fresh_task_id [OF new ok] holders_subset [of c q]
        by (force simp: bt_get_None_iff Priority)
      show thesis
        by (rule main [of "Priority (Some (ReadonlyU (bt_insert (task_id t) t m))) bl"])
          (use ok m get bt_insert_set [OF get] in \<open>auto simp: Priority Some y u queue_inv_def\<close>)
    qed
  qed
qed

text \<open>Demoting the holders a newcomer overtakes (priority queues only).\<close>

definition reblockable :: "ordered_task_id \<Rightarrow> count_store \<Rightarrow> task \<Rightarrow> bool" where
  "reblockable k n t = (k \<le> task_id t \<and> 0 < n (cell t))"

lemma try_reblock_eq:
  "n (cell t) < u32_max \<Longrightarrow>
   try_reblock t n = Some (if 0 < n (cell t) then (raise_counts {t} n, True) else (n, False))"
  by (auto simp: try_reblock_def increment_def raise_counts_def)

lemma raise_counts_insert:
  "cell t \<notin> cell ` R \<Longrightarrow> raise_counts R (raise_counts {t} n) = raise_counts (insert t R) n"
  by (auto simp: raise_counts_def fun_eq_iff)

lemma raise_counts_other: "cell x \<notin> cell ` R \<Longrightarrow> raise_counts R n (cell x) = n (cell x)"
  by (simp add: raise_counts_def)

lemma reblock_readers_law:
  assumes "\<forall>e \<in> set tasks. fst e = task_id (snd e)" and "bt_wf tasks"
    and "inj_on cell (snd ` set tasks)" and "\<forall>e \<in> set tasks. n (cell (snd e)) < u32_max"
    and "\<forall>e \<in> set tasks. bt_get bl (fst e) = None" and "bt_wf bl"
  shows "\<exists>bl'. reblock_readers k tasks n bl =
      Some (filter (\<lambda>e. \<not> reblockable k n (snd e)) tasks,
            raise_counts {t \<in> snd ` set tasks. reblockable k n t} n, bl') \<and>
    bt_wf bl' \<and>
    set bl' = set bl \<union> (\<lambda>t. (task_id t, (Readonly, t))) ` {t \<in> snd ` set tasks. reblockable k n t}"
  using assms
proof (induction tasks arbitrary: n bl)
  case (Cons e tasks)
  obtain t where e: "e = (task_id t, t)" using Cons.prems(1) by (cases e) auto
  have other: "cell x \<noteq> cell t" "task_id x \<noteq> task_id t" if "x \<in> snd ` set tasks" for x
  proof -
    show "task_id x \<noteq> task_id t" using that Cons.prems(1,2) by (fastforce simp: e)
    then show "cell x \<noteq> cell t" using that Cons.prems(3) by (auto simp: e inj_on_def)
  qed
  show ?case
  proof (cases "reblockable k n t")
    case True
    let ?n = "raise_counts {t} n" and ?bl = "bt_insert (task_id t) (Readonly, t) bl"
    have get: "bt_get bl (task_id t) = None" using Cons.prems(5) by (simp add: e)
    have same: "?n (cell x) = n (cell x)" "reblockable k ?n x = reblockable k n x"
      if "x \<in> snd ` set tasks" for x
      using other [OF that] by (simp_all add: raise_counts_other reblockable_def)
    have eq: "{x \<in> snd ` set tasks. reblockable k ?n x} = {x \<in> snd ` set tasks. reblockable k n x}"
      "filter (\<lambda>e. \<not> reblockable k ?n (snd e)) tasks = filter (\<lambda>e. \<not> reblockable k n (snd e)) tasks"
      using same by (auto intro!: filter_cong)
    have ins: "{x \<in> snd ` set (e # tasks). reblockable k n x} =
        insert t {x \<in> snd ` set tasks. reblockable k n x}"
      using True by (auto simp: e)
    have "\<forall>e \<in> set tasks. bt_get ?bl (fst e) = None"
      using Cons.prems(1,5,6) other by (fastforce simp: bt_get_insert)
    with Cons.prems same obtain bl' where bl': "reblock_readers k tasks ?n ?bl =
        Some (filter (\<lambda>e. \<not> reblockable k ?n (snd e)) tasks,
          raise_counts {x \<in> snd ` set tasks. reblockable k ?n x} ?n, bl')" "bt_wf bl'"
      "set bl' = set ?bl \<union> (\<lambda>t. (task_id t, (Readonly, t))) ` {x \<in> snd ` set tasks. reblockable k ?n x}"
      using Cons.IH [of ?n ?bl] by (force simp: e)
    have "raise_counts {x \<in> snd ` set tasks. reblockable k n x} ?n =
        raise_counts {x \<in> snd ` set (e # tasks). reblockable k n x} n"
      unfolding ins by (rule raise_counts_insert) (use other in force)
    with bl' True get Cons.prems(4) show ?thesis
      unfolding eq by (auto simp: e ins bt_insert_set reblockable_def try_reblock_eq
          insert_usage_from_task_def)
  next
    case False
    have eq: "{x \<in> snd ` set (e # tasks). reblockable k n x} = {x \<in> snd ` set tasks. reblockable k n x}"
      using False by (auto simp: e)
    from Cons.prems obtain bl' where bl': "reblock_readers k tasks n bl =
        Some (filter (\<lambda>e. \<not> reblockable k n (snd e)) tasks,
          raise_counts {x \<in> snd ` set tasks. reblockable k n x} n, bl')" "bt_wf bl'"
      "set bl' = set bl \<union> (\<lambda>t. (task_id t, (Readonly, t))) ` {x \<in> snd ` set tasks. reblockable k n x}"
      using Cons.IH [of n bl] by (force simp: e)
    with False Cons.prems(4) show ?thesis
      unfolding eq by (auto simp: e reblockable_def try_reblock_eq)
  qed
qed simp

lemma demote_law:
  assumes ok: "queue_inv rk c n (Priority cu bl)" and wf: "bt_wf bl'"
    and R: "R = {h \<in> holders c (Priority cu bl). reblockable k n h}"
    and bl': "set bl' = set bl \<union> (\<lambda>h. (task_id h, (the (c h), h))) ` R"
    and usage: "holders c (Priority cu' bl') = holders c (Priority cu bl) - R \<Longrightarrow>
      usage_ok c (Priority cu' bl') \<and>
      (\<forall>m. cu' = Some (ReadonlyU m) \<longrightarrow>
         bt_wf m \<and> set m = (\<lambda>h. (task_id h, h)) ` (holders c (Priority cu bl) - R)) \<and>
      (\<forall>h. cu' = Some (WritableU h) \<longrightarrow> holders c (Priority cu bl) - R = {h})"
  shows "queue_inv rk c (raise_counts R n) (Priority cu' bl')"
    and "waiting (Priority cu' bl') = waiting (Priority cu bl) \<union> R"
    and "holders c (Priority cu' bl') = holders c (Priority cu bl) - R"
proof -
  let ?q = "Priority cu bl" and ?q' = "Priority cu' bl'"
  note bl = priority_blocked [OF ok]
  have dom: "R \<subseteq> dom c" and rk: "\<forall>x \<in> dom c. rk x = task_id x" and inj: "inj_on cell (dom c)"
    using R ok by (auto simp: holders_def queue_inv_def)
  show w: "waiting ?q' = waiting ?q \<union> R"
    using bl' by (auto simp: waiting_def image_iff) force+
  then show h: "holders c ?q' = holders c ?q - R"
    by (auto simp: holders_def)
  have keys: "\<forall>e \<in> set bl'. fst e = task_id (snd (snd e))"
    "\<forall>e \<in> set bl'. rk (snd (snd e)) = task_id (snd (snd e))"
    "\<forall>e \<in> set bl'. c (snd (snd e)) = Some (fst (snd e))"
    using bl' bl dom rk ok by (auto simp: queue_inv_def dom_def)
  have same: "raise_counts R n (cell x) = n (cell x)" if "x \<in> holders c ?q - R" for x
    using that holders_subset [of c ?q] inj_on_image_mem_iff [OF inj _ dom, of x]
    by (intro raise_counts_other) auto
  have "rk x < rk b \<or> n (cell x) = 0" if "x \<in> holders c ?q - R" "b \<in> waiting ?q \<union> R" for x b
    using that ok R rk dom holders_subset [of c ?q]
    by (auto simp: queue_inv_def reblockable_def subset_iff domIff)
  with same have "\<forall>x \<in> holders c ?q'. \<forall>b \<in> waiting ?q'.
      rk x < rk b \<or> (is_Priority ?q' \<and> raise_counts R n (cell x) = 0)"
    unfolding h w by auto
  moreover have "sorted_wrt (\<lambda>x y. rk (snd x) < rk (snd y)) (blocked ?q')"
    using sorted_blocked_priority [OF wf keys(1,2)] by simp
  moreover have "repr_ok c ?q'" using usage [OF h] h keys wf by auto
  ultimately show "queue_inv rk c (raise_counts R n) ?q'"
    using usage [OF h] keys ok by (simp add: queue_inv_def)
qed

text \<open>The two ways a lock attempt ends.\<close>

definition overtaken :: "claims \<Rightarrow> count_store \<Rightarrow> usage_queue_inner \<Rightarrow> task set \<Rightarrow> usage_queue_inner \<Rightarrow> bool" where
  "overtaken c n q R q1 =
     (R \<subseteq> holders c q \<and> (\<forall>h \<in> R. 0 < n (cell h)) \<and> waiting q1 = waiting q \<union> R \<and>
      is_Priority q1 = is_Priority q)"

definition lock_spec ::
  "(task \<Rightarrow> nat) \<Rightarrow> claims \<Rightarrow> count_store \<Rightarrow> usage_queue_inner \<Rightarrow> task \<Rightarrow> requested_usage \<Rightarrow> bool" where
  "lock_spec rk c n q t u =
     (\<exists>R q' ok. lock_queue q n t u = Some (q', raise_counts R n, ok) \<and>
        R \<subseteq> holders c q \<and> (\<forall>h \<in> R. 0 < n (cell h)) \<and>
        waiting q' = waiting q \<union> R \<union> (if ok then {} else {t}) \<and>
        is_Priority q' = is_Priority q \<and> queue_ok rk (c(t \<mapsto> u)) (raise_counts R n) q' \<and>
        (ok \<longrightarrow> (\<forall>b \<in> waiting q'. rk t < rk b)))"

lemma lock_granted:
  assumes prep: "prepare_lock q n t u = Some (q1, n1, Inr ())"
    and n1: "n1 = raise_counts R n" and R: "overtaken c n q R q1"
    and inv: "queue_inv rk c n1 q1" and new: "fresh rk c q1 t" and room: "card (dom c) < u32_max"
    and comp: "compatible (current_usage q1) u" and first: "\<And>b. b \<in> waiting q1 \<Longrightarrow> rk t < rk b"
    and head: "u = Readonly \<Longrightarrow> blocked q1 \<noteq> [] \<Longrightarrow> fst (hd (blocked q1)) = Writable"
  shows "lock_spec rk c n q t u"
proof -
  from try_lock_law [OF inv new comp room first] obtain q' where
    q': "try_lock q1 t u = Some (q', Inr ())" "blocked q' = blocked q1"
      "is_Priority q' = is_Priority q1" "current_usage q' = Some u" "queue_inv rk (c(t \<mapsto> u)) n1 q'"
    by blast
  moreover from q' head have "head_ok q'"
    by (cases u) (simp_all add: head_ok_def)
  moreover have "waiting q' = waiting q1" by (simp add: waiting_def q')
  moreover have "lock_queue q n t u = Some (q', n1, True)" by (simp add: lock_queue_def prep q')
  ultimately show ?thesis
    using R first unfolding lock_spec_def n1 queue_ok_def overtaken_def
    by (intro exI [of _ R] exI [of _ q'] exI [of _ True]) simp
qed

lemma lock_queued:
  assumes prep: "prepare_lock q n t u = Some (q1, n1, r)"
    and n1: "n1 = raise_counts R n" and R: "overtaken c n q R q1"
    and r: "r = Inl () \<or> \<not> compatible (current_usage q1) u"
    and inv: "queue_inv rk c n1 q1" and new: "fresh rk c q1 t" and cur: "current_usage q1 \<noteq> None"
    and last: "\<not> is_Priority q1 \<Longrightarrow> (\<forall>b \<in> waiting q1. rk b < rk t)"
    and ord: "\<And>h. h \<in> holders c q1 \<Longrightarrow> rk h < rk t \<or> (is_Priority q1 \<and> n1 (cell h) = 0)"
    and head: "current_usage q1 = Some Readonly \<Longrightarrow>
      (head_ok q1 \<and> (u = Readonly \<longrightarrow> (\<exists>b \<in> waiting q1. rk b < rk t))) \<or>
      (u = Writable \<and> (\<forall>b \<in> waiting q1. rk t < rk b))"
  shows "lock_spec rk c n q t u"
proof -
  from push_blocked_law [OF inv new cur last ord, of u] obtain q' where
    q': "push_blocked (u, t) q1 = Some q'" "set (blocked q') = insert (u, t) (set (blocked q1))"
      "is_Priority q' = is_Priority q1" "current_usage q' = current_usage q1"
      "queue_inv rk (c(t \<mapsto> u)) n1 q'"
    by blast
  have lock: "lock_queue q n t u = Some (q', n1, False)"
    using r q'(1) by (cases r) (auto simp: lock_queue_def prep try_lock_refused)
  have "fst (hd (blocked q')) = Writable" if ro: "current_usage q1 = Some Readonly"
  proof (cases "u = Writable \<and> (\<forall>b \<in> waiting q1. rk t < rk b)")
    case True
    then have "hd (blocked q') = (u, t)"
      using q'(2) by (intro blocked_head_eqI [OF q'(5)]) (auto simp: waiting_def less_imp_le)
    with True show ?thesis by simp
  next
    case False
    then have hd: "head_ok q1" "u = Readonly \<longrightarrow> (\<exists>b \<in> waiting q1. rk b < rk t)"
      using head [OF ro] by blast+
    from False obtain b where b: "b \<in> waiting q1" "rk b < rk t"
      using hd(2) fresh_rank [OF new] waiting_subset [OF inv]
      by (metis linorder_neqE_nat requested_usage.exhaust subsetD)
    then have ne: "blocked q1 \<noteq> []" by (auto simp: waiting_def)
    have "hd (blocked q') = hd (blocked q1)"
      using blocked_head_least [OF inv] b ne q'(2)
      by (intro blocked_head_eqI [OF q'(5)]) (fastforce simp: waiting_def)+
    with hd(1) ne ro show ?thesis by (simp add: head_ok_def)
  qed
  with q'(4) cur have "head_ok q'"
    by (auto simp: head_ok_def split: option.splits requested_usage.splits)
  moreover have "waiting q' = insert t (waiting q1)" by (simp add: waiting_def q')
  ultimately show ?thesis
    using R lock q' unfolding lock_spec_def n1 queue_ok_def overtaken_def
    by (intro exI [of _ R] exI [of _ q'] exI [of _ False]) simp
qed

definition newcomer :: "(task \<Rightarrow> nat) \<Rightarrow> claims \<Rightarrow> usage_queue_inner \<Rightarrow> task \<Rightarrow> bool" where
  "newcomer rk c q t = (fresh rk c q t \<and> (\<not> is_Priority q \<longrightarrow> (\<forall>t' \<in> dom c. rk t' < rk t)))"

lemma overtaken_none [simp]: "overtaken c n q {} q"
  by (simp add: overtaken_def)

lemma lock_queue_fifo:
  assumes ok: "queue_ok rk c n (Fifo cu bl)" and new: "newcomer rk c (Fifo cu bl) t"
    and room: "card (dom c) < u32_max"
  shows "lock_spec rk c n (Fifo cu bl) t u"
proof -
  let ?q = "Fifo cu bl"
  have inv: "queue_inv rk c n ?q" and head: "head_ok ?q" using ok by (simp_all add: queue_ok_def)
  have fr: "fresh rk c ?q t" and last: "\<And>x. x \<in> dom c \<Longrightarrow> rk x < rk t"
    using new by (auto simp: newcomer_def)
  have lasts: "\<forall>b \<in> waiting ?q. rk b < rk t" "\<And>h. h \<in> holders c ?q \<Longrightarrow> rk h < rk t"
    using last waiting_subset [OF inv] holders_subset [of c ?q] by blast+
  show ?thesis
  proof (cases "bl = [] \<and> compatible (current_usage ?q) u")
    case True
    then show ?thesis
      by (intro lock_granted [of _ n t u ?q n "{}", OF _ _ _ inv fr room]) (auto simp: waiting_def)
  next
    case False
    have "current_usage ?q \<noteq> None"
      using False head by (cases cu) (auto simp: head_ok_def compatible_def)
    moreover have "(head_ok ?q \<and> (u = Readonly \<longrightarrow> (\<exists>b \<in> waiting ?q. rk b < rk t))) \<or>
        (u = Writable \<and> (\<forall>b \<in> waiting ?q. rk t < rk b))" if "current_usage ?q = Some Readonly"
    proof (cases bl)
      case Nil
      with False that show ?thesis by (cases u) (auto simp: compatible_def waiting_def)
    next
      case (Cons x xs)
      with lasts(1) head show ?thesis by (auto simp: waiting_def)
    qed
    ultimately show ?thesis
      using False lasts
      by (intro lock_queued [of _ n t u ?q n "if bl = [] then Inr () else Inl ()" "{}",
            OF _ _ _ _ inv fr]) auto
  qed
qed

lemma overtaken_first:
  assumes inv: "queue_inv rk c n q" and new: "fresh rk c q t" and prio: "is_Priority q"
    and R: "R = {h \<in> holders c q. reblockable (task_id t) n h}"
    and "R \<noteq> {}" and b: "b \<in> waiting q \<union> R"
  shows "rk t < rk b"
proof -
  have R_first: "rk t < rk h \<and> 0 < n (cell h)" if "h \<in> R" for h
  proof -
    from that R have h: "h \<in> dom c" "reblockable (task_id t) n h" by (auto simp: holders_def)
    moreover have "task_id h \<noteq> task_id t" by (rule fresh_task_id [OF new inv prio h(1)])
    ultimately show ?thesis
      using inv new prio by (auto simp: queue_inv_def fresh_def reblockable_def)
  qed
  from \<open>R \<noteq> {}\<close> obtain h where h: "h \<in> R" by auto
  then have "h \<in> holders c q" using R by auto
  then have "rk h < rk b \<or> n (cell h) = 0" if "b \<in> waiting q"
    using that holders_order [OF inv, of h b] by auto
  with b R_first [OF h] R_first [of b] show ?thesis by auto
qed

lemma is_higher_priority_rank:
  assumes "queue_inv rk c n q" and "fresh rk c q t" and "is_Priority q" and "x \<in> dom c"
  shows "is_higher_priority t x = Some (rk t < rk x)"
proof -
  have "rk x = task_id x" "rk t = task_id t" "task_id x \<noteq> task_id t"
    using assms fresh_task_id [OF assms(2,1,3,4)] by (auto simp: queue_inv_def fresh_def)
  then show ?thesis by (auto simp: is_higher_priority_def)
qed

lemma lock_queue_writer:
  assumes ok: "queue_ok rk c n (Priority (Some (WritableU h)) bl)"
    and fr: "fresh rk c (Priority (Some (WritableU h)) bl) t"
    and room: "card (dom c) < u32_max" and small: "\<And>x. x \<in> dom c \<Longrightarrow> n (cell x) < u32_max"
  shows "lock_spec rk c n (Priority (Some (WritableU h)) bl) t u"
proof -
  let ?q = "Priority (Some (WritableU h)) bl"
  have inv: "queue_inv rk c n ?q" and hs: "holders c ?q = {h}" and ch: "c h = Some Writable"
    using ok by (auto simp: queue_ok_def queue_inv_def usage_ok_def)
  then have h: "h \<in> dom c" "h \<notin> waiting ?q" "n (cell h) < u32_max"
    using small by (auto simp: holders_def)
  note higher = is_higher_priority_rank [OF inv fr _ h(1), simplified]
  show ?thesis
  proof (cases "rk t < rk h \<and> 0 < n (cell h)")
    case False
    then show ?thesis
      using fresh_rank [OF fr h(1)]
      by (intro lock_queued [of _ n t u ?q n "Inl ()" "{}", OF _ _ _ _ inv fr])
        (auto simp: higher hs try_reblock_eq [of n h, OF h(3)])
  next
    case True
    let ?bl = "bt_insert (task_id h) (Writable, h) bl"
    have "rk h = task_id h" "rk t = task_id t" using inv fr h by (auto simp: queue_inv_def fresh_def)
    with True have R: "{h} = {x \<in> holders c ?q. reblockable (task_id t) n x}"
      unfolding hs by (auto simp: reblockable_def)
    note bl = priority_blocked [OF inv]
    have get: "bt_get bl (task_id h) = None"
      by (rule priority_get_holder [OF inv]) (simp add: hs)
    then have set': "set ?bl = set bl \<union> (\<lambda>x. (task_id x, (the (c x), x))) ` {h}"
      by (simp add: bt_insert_set ch)
    have inv1: "queue_inv rk c (raise_counts {h} n) (Priority None ?bl)"
      by (rule demote_law(1) [OF inv _ R set']) (use bl(1) in \<open>simp_all add: usage_ok_def hs\<close>)
    have w1: "waiting (Priority None ?bl) = waiting ?q \<union> {h}"
      by (rule demote_law(2) [OF inv _ R set']) (use bl(1) in \<open>simp_all add: usage_ok_def hs\<close>)
    have first: "rk t < rk b" if "b \<in> waiting (Priority None ?bl)" for b
      using overtaken_first [OF inv fr _ R] that w1 by simp
    have "rk h \<le> rk b" if "b \<in> waiting ?q" for b
      using that inv True hs by (auto simp: queue_inv_def)
    then have head: "hd (blocked (Priority None ?bl)) = (Writable, h)"
      using set' ch by (intro blocked_head_eqI [OF inv1]) (auto simp: waiting_def)
    have prep: "prepare_lock ?q n t u = Some (Priority None ?bl, raise_counts {h} n, Inr ())"
      using True get
      by (simp add: higher try_reblock_eq [of n h, OF h(3)] insert_usage_from_task_def)
    have R1: "overtaken c n ?q {h} (Priority None ?bl)"
      using True w1 by (simp add: overtaken_def hs)
    have fr1: "fresh rk c (Priority None ?bl) t" by (rule fresh_cong [OF fr]) simp
    show ?thesis
      by (rule lock_granted [OF prep refl R1 inv1 fr1 room])
        (use first head in \<open>simp_all add: compatible_def\<close>)
  qed
qed

lemma lock_queue_reader:
  assumes ok: "queue_ok rk c n (Priority (Some (ReadonlyU m)) bl)"
    and fr: "fresh rk c (Priority (Some (ReadonlyU m)) bl) t" and room: "card (dom c) < u32_max"
  shows "lock_spec rk c n (Priority (Some (ReadonlyU m)) bl) t Readonly"
proof (cases bl)
  case Nil
  have inv: "queue_inv rk c n (Priority (Some (ReadonlyU m)) bl)"
    using ok by (simp add: queue_ok_def)
  show ?thesis
    by (rule lock_granted [OF _ _ _ inv fr room, where R = "{}"])
      (simp_all add: Nil compatible_def waiting_def)
next
  case (Cons e es)
  let ?q = "Priority (Some (ReadonlyU m)) bl"
  have inv: "queue_inv rk c n ?q" and head: "head_ok ?q" using ok by (simp_all add: queue_ok_def)
  obtain k p where e: "e = (k, (Writable, p))"
    using head by (cases e) (auto simp: head_ok_def Cons)
  have p: "p \<in> waiting ?q" by (simp add: waiting_def Cons e)
  then have dom: "p \<in> dom c" using waiting_subset [OF inv] by blast
  note higher = is_higher_priority_rank [OF inv fr _ dom, simplified]
  show ?thesis
  proof (cases "rk t < rk p")
    case True
    have "rk t < rk b" if "b \<in> waiting ?q" for b
      using True blocked_head_least [OF inv that] by (simp add: Cons e)
    with True show ?thesis
      by (intro lock_granted [OF _ _ _ inv fr room, where R = "{}"])
        (simp_all add: Cons e higher compatible_def)
  next
    case False
    then have "rk p < rk t" using fresh_rank [OF fr dom] by simp
    moreover have "rk h < rk t \<or> n (cell h) = 0" if "h \<in> holders c ?q" for h
      using holders_order [OF inv that p] \<open>rk p < rk t\<close> by auto
    ultimately show ?thesis
      using False head p
      by (intro lock_queued [OF _ _ _ _ inv fr, where R = "{}" and r = "Inl ()"])
        (auto simp: Cons e higher)
  qed
qed

lemma lock_queue_overtaking_writer:
  assumes ok: "queue_ok rk c n (Priority (Some (ReadonlyU m)) bl)"
    and fr: "fresh rk c (Priority (Some (ReadonlyU m)) bl) t"
    and room: "card (dom c) < u32_max" and small: "\<And>x. x \<in> dom c \<Longrightarrow> n (cell x) < u32_max"
  shows "lock_spec rk c n (Priority (Some (ReadonlyU m)) bl) t Writable"
proof -
  let ?q = "Priority (Some (ReadonlyU m)) bl" and ?P = "reblockable (task_id t) n"
  define H R m' where "H = holders c ?q" and "R = {h \<in> H. ?P h}"
    and "m' = filter (\<lambda>e. \<not> ?P (snd e)) m"
  have inv: "queue_inv rk c n ?q" and head: "head_ok ?q" using ok by (simp_all add: queue_ok_def)
  have m: "bt_wf m" "set m = (\<lambda>h. (task_id h, h)) ` H" and ne: "H \<noteq> {}"
    and ro: "\<forall>h \<in> H. c h = Some Readonly" and dom: "H \<subseteq> dom c" and cells: "inj_on cell H"
    using inv by (auto simp: queue_inv_def usage_ok_def H_def holders_def intro: inj_on_subset)
  have sndm: "snd ` set m = H" by (simp add: m image_image)
  note bl = priority_blocked [OF inv]
  have get: "\<forall>e \<in> set m. bt_get bl (fst e) = None"
    using priority_get_holder [OF inv] by (auto simp: m H_def)
  obtain bl' where re: "reblock_readers (task_id t) m n bl = Some (m', raise_counts R n, bl')"
    and wf: "bt_wf bl'" and set': "set bl' = set bl \<union> (\<lambda>h. (task_id h, (Readonly, h))) ` R"
    using reblock_readers_law [of m n bl "task_id t"] m(1) get bl(1) small dom cells
    unfolding sndm m'_def R_def by (auto simp: m(2) subset_iff)
  have set'': "set bl' = set bl \<union> (\<lambda>h. (task_id h, (the (c h), h))) ` R"
    unfolding set' using ro by (auto simp: R_def)
  have m': "bt_wf m'" "set m' = (\<lambda>h. (task_id h, h)) ` (H - R)"
    using m by (auto simp: m'_def R_def)
  define cu' :: "priority_usage option" where "cu' = (if m' = [] then None else Some (ReadonlyU m'))"
  have HR: "m' = [] \<longleftrightarrow> H - R = {}" using m'(2) by (metis image_is_empty set_empty)
  have usage: "usage_ok c (Priority cu' bl') \<and>
      (\<forall>m. cu' = Some (ReadonlyU m) \<longrightarrow> bt_wf m \<and> set m = (\<lambda>h. (task_id h, h)) ` (H - R)) \<and>
      (\<forall>h. cu' = Some (WritableU h) \<longrightarrow> H - R = {h})" if "holders c (Priority cu' bl') = H - R"
    using that m' HR ro by (cases "m' = []") (auto simp: cu'_def usage_ok_def)
  note demoted = demote_law [OF inv wf R_def [unfolded H_def] set'' usage [unfolded H_def]]
  have first: "rk t < rk b" if "R \<noteq> {}" "b \<in> waiting (Priority cu' bl')" for b
    using overtaken_first [OF inv fr _ R_def [unfolded H_def] that(1)] that(2) demoted(2) by simp
  have fr1: "fresh rk c (Priority cu' bl') t" by (rule fresh_cong [OF fr]) simp
  have R1: "overtaken c n ?q R (Priority cu' bl')"
    using demoted(2) by (auto simp: overtaken_def R_def H_def reblockable_def)
  show ?thesis
  proof (cases "m' = []")
    case True
    then have "R \<noteq> {}" using HR ne by auto
    with True show ?thesis
      by (intro lock_granted [OF _ refl R1 demoted(1) fr1 room])
        (auto simp: re cu'_def compatible_def first)
  next
    case False
    have ord: "rk h < rk t \<or> raise_counts R n (cell h) = 0"
      if "h \<in> holders c (Priority cu' bl')" for h
    proof -
      have h: "h \<in> H" "h \<notin> R" using that demoted(3) by (simp_all add: H_def)
      then have "cell h \<notin> cell ` R"
        using inj_on_image_mem_iff [OF cells, of h R] by (auto simp: R_def)
      moreover have "rk h = task_id h" "rk t = task_id t"
        using h(1) dom inv fr by (auto simp: queue_inv_def fresh_def)
      ultimately show ?thesis using h by (auto simp: R_def reblockable_def raise_counts_def)
    qed
    have "head_ok (Priority cu' bl')" if "R = {}"
    proof (cases "bl = []")
      case True
      with set' that show ?thesis by (simp add: head_ok_def cu'_def False)
    next
      case bl_ne: False
      have "hd (blocked (Priority cu' bl')) = hd (blocked ?q)"
        using bl_ne set' that blocked_head_least [OF inv]
        by (intro blocked_head_eqI [OF demoted(1)]) (auto simp: waiting_def hd_map)
      with head bl_ne show ?thesis by (simp add: head_ok_def cu'_def False)
    qed
    with False first ord show ?thesis
      by (intro lock_queued [OF _ refl R1 _ demoted(1) fr1, where r = "Inl ()"])
        (auto simp: re cu'_def)
  qed
qed

lemma lock_queue_priority:
  assumes ok: "queue_ok rk c n (Priority cu bl)" and fr: "fresh rk c (Priority cu bl) t"
    and room: "card (dom c) < u32_max" and small: "\<And>x. x \<in> dom c \<Longrightarrow> n (cell x) < u32_max"
  shows "lock_spec rk c n (Priority cu bl) t u"
proof (cases cu)
  case None
  have inv: "queue_inv rk c n (Priority cu bl)" and "bl = []"
    using ok None by (auto simp: queue_ok_def head_ok_def)
  with None show ?thesis
    by (intro lock_granted [OF _ _ _ inv fr room, where R = "{}"])
      (auto simp: compatible_def waiting_def)
next
  case (Some y)
  note ok' = ok [unfolded Some] and fr' = fr [unfolded Some]
  show ?thesis
  proof (cases y)
    case (ReadonlyU m)
    show ?thesis unfolding Some ReadonlyU
      using lock_queue_reader [OF ok' [unfolded ReadonlyU] fr' [unfolded ReadonlyU] room]
        lock_queue_overtaking_writer [OF ok' [unfolded ReadonlyU] fr' [unfolded ReadonlyU] room small]
      by (cases u) simp_all
  next
    case (WritableU h)
    show ?thesis unfolding Some WritableU
      by (rule lock_queue_writer [OF ok' [unfolded WritableU] fr' [unfolded WritableU] room small])
  qed
qed

text \<open>The lock law, for both variants.\<close>

lemma lock_queue_law:
  assumes "queue_ok rk c n q" and "newcomer rk c q t"
    and "card (dom c) < u32_max" and "\<And>x. x \<in> dom c \<Longrightarrow> n (cell x) < u32_max"
  shows "lock_spec rk c n q t u"
proof (cases q)
  case (Fifo cu bl)
  with assms lock_queue_fifo show ?thesis by simp
next
  case (Priority cu bl)
  show ?thesis unfolding Priority
    by (rule lock_queue_priority) (use assms in \<open>simp_all add: Priority newcomer_def\<close>)
qed


section \<open>Unlocking\<close>

lemma queue_inv_dropI:
  assumes inv: "queue_inv rk c n q" and "is_Priority q' = is_Priority q"
    and "sorted_wrt (\<lambda>x y. rk (snd x) < rk (snd y)) (blocked q')"
    and "set (blocked q') \<subseteq> set (blocked q)" and "t \<notin> waiting q'"
    and "holders (c(t := None)) q' \<subseteq> holders c q"
    and "usage_ok (c(t := None)) q'" and "repr_ok (c(t := None)) q'"
  shows "queue_inv rk (c(t := None)) n q'"
proof -
  have "finite (dom (c(t := None)))" "inj_on rk (dom (c(t := None)))"
    "inj_on cell (dom (c(t := None)))"
    "is_Priority q' \<longrightarrow> (\<forall>x \<in> dom (c(t := None)). rk x = task_id x)"
    using inv assms(2) by (auto simp: queue_inv_def intro: inj_on_subset)
  moreover have "\<forall>x \<in> set (blocked q'). (c(t := None)) (snd x) = Some (fst x)"
    using inv assms(4,5) by (auto simp: queue_inv_def waiting_def)
  moreover have "waiting q' \<subseteq> waiting q" using assms(4) by (auto simp: waiting_def)
  then have "\<forall>x \<in> holders (c(t := None)) q'. \<forall>b \<in> waiting q'.
      rk x < rk b \<or> (is_Priority q' \<and> n (cell x) = 0)"
    using holders_order [OF inv] assms(2,6) by blast
  ultimately show ?thesis using assms(3,7,8) unfolding queue_inv_def by blast
qed

lemma release_current_law:
  assumes inv: "queue_inv rk c n q" and t: "t \<in> holders c q" and u: "c t = Some u"
  obtains q' where "release_current q t u = Some (q', current_usage q' = None)"
    and "blocked q' = blocked q" and "is_Priority q' = is_Priority q"
    and "current_usage q' \<in> {None, current_usage q}" and "queue_inv rk (c(t := None)) n q'"
proof -
  note result = that
  have usage: "usage_ok c q" and fin: "finite (holders c q)"
    using inv by (auto simp: queue_inv_def holders_def)
  have main: thesis
    if rel: "release_current q t u = Some (q', current_usage q' = None)"
      and bl: "blocked q' = blocked q" and prio: "is_Priority q' = is_Priority q"
      and cur: "current_usage q' \<in> {None, current_usage q}"
      and us: "holders (c(t := None)) q' = holders c q - {t} \<Longrightarrow>
        usage_ok (c(t := None)) q' \<and> repr_ok (c(t := None)) q'" for q'
  proof -
    have w: "waiting q' = waiting q" by (simp add: waiting_def bl)
    then have h: "holders (c(t := None)) q' = holders c q - {t}" by (auto simp: holders_def)
    have "queue_inv rk (c(t := None)) n q'"
      using us [OF h] h t inv
      by (intro queue_inv_dropI [OF inv prio]) (auto simp: bl w holders_def queue_inv_def)
    with rel bl prio cur show thesis by (rule result)
  qed
  show thesis
  proof (cases u)
    case Writable
    then have cur: "current_usage q = Some Writable" and h: "holders c q = {t}"
      using usage t u by (auto simp: usage_ok_def split: option.splits requested_usage.splits)
    show thesis
    proof (cases q)
      case (Fifo cu bl)
      with cur obtain x where "cu = Some (WritableU x)"
        by (cases cu) (auto elim: usage_requested_usage.elims)
      then show thesis
        using h by (intro main [of "Fifo None bl"]) (simp_all add: Fifo Writable usage_ok_def)
    next
      case (Priority cu bl)
      with cur obtain x where "cu = Some (WritableU x)"
        by (cases cu) (auto elim: usage_requested_usage.elims)
      then show thesis
        using h inv by (intro main [of "Priority None bl"])
          (simp_all add: Priority Writable usage_ok_def queue_inv_def)
    qed
  next
    case Readonly
    then have cur: "current_usage q = Some Readonly" and ro: "\<forall>x \<in> holders c q. c x = Some Readonly"
      using usage t u by (auto simp: usage_ok_def split: option.splits requested_usage.splits)
    show thesis
    proof (cases q)
      case (Fifo cu bl)
      with cur obtain k where cu: "cu = Some (ReadonlyU k)"
        by (cases cu) (auto elim: usage_requested_usage.elims)
      have k: "card (holders c q) = k" using inv by (simp add: queue_inv_def Fifo cu)
      show thesis
      proof (cases "k = 1")
        case True
        then have "holders c q = {t}" using k t by (metis card_1_singletonE singletonD)
        with True show thesis
          by (intro main [of "Fifo None bl"]) (simp_all add: Fifo cu Readonly usage_ok_def)
      next
        case False
        have "k \<noteq> 0" using fin t k card_gt_0_iff [of "holders c q"] by auto
        with False have card: "card (holders c q - {t}) = k - 1" "k - 1 \<noteq> 0"
          using fin t k by auto
        then have ne: "holders c q - {t} \<noteq> {}" by (metis card.empty)
        show thesis
          by (rule main [of "Fifo (Some (ReadonlyU (k - 1))) bl"])
            (use False card ne ro in \<open>auto simp: Fifo cu Readonly usage_ok_def decrement_def\<close>)
      qed
    next
      case (Priority cu bl)
      with cur obtain m where cu: "cu = Some (ReadonlyU m)"
        by (cases cu) (auto elim: usage_requested_usage.elims)
      let ?m = "bt_remove (task_id t) m" and ?H = "holders c q"
      have m: "bt_wf m" "set m = (\<lambda>h. (task_id h, h)) ` ?H"
        using inv by (simp_all add: queue_inv_def Priority cu)
      have inj: "inj_on rk (dom c)" and tid: "\<forall>x \<in> dom c. rk x = task_id x"
        using inv by (simp_all add: queue_inv_def Priority)
      have id: "task_id x = task_id t \<longleftrightarrow> x = t" if "x \<in> ?H" for x
        using that t tid inj_onD [OF inj, of x t] by (auto simp: holders_def)
      have get: "bt_get m (task_id t) = Some t" by (rule bt_get_in_set) (use m t in auto)
      have m': "bt_wf ?m" "set ?m = (\<lambda>h. (task_id h, h)) ` (?H - {t})"
        using m id by (auto simp: bt_remove_def)
      have nil: "?m = [] \<longleftrightarrow> ?H - {t} = {}" by (simp add: m'(2) flip: set_empty)
      show thesis
      proof (cases "?m = []")
        case True
        with nil show thesis
          using inv by (intro main [of "Priority None bl"])
            (simp_all add: Priority cu Readonly get usage_ok_def queue_inv_def)
      next
        case False
        with nil have ne: "?H - {t} \<noteq> {}" by simp
        show thesis
          by (rule main [of "Priority (Some (ReadonlyU ?m)) bl"])
            (use inv False get ne m' ro in
              \<open>auto simp: Priority cu Readonly usage_ok_def queue_inv_def\<close>)
      qed
    qed
  qed
qed

lemma pop_law:
  assumes inv: "queue_inv rk c n q" and bl: "blocked q = (u, b) # rest"
  obtains q' where "pop q = (q', Some (u, b))" and "blocked q' = rest"
    and "is_Priority q' = is_Priority q" and "current_usage q' = current_usage q"
    and "queue_inv rk (c(b := None)) n q'" and "fresh rk (c(b := None)) q' b"
    and "c b = Some u" and "\<And>x. x \<in> waiting q' \<Longrightarrow> rk b < rk x"
proof -
  note result = that
  have order: "\<forall>x \<in> set rest. rk b < rk (snd x)" and cb: "c b = Some u"
    and sorted: "sorted_wrt (\<lambda>x y. rk (snd x) < rk (snd y)) rest"
    using inv bl by (auto simp: queue_inv_def)
  have main: thesis
    if pop: "pop q = (q', Some (u, b))" and rest: "blocked q' = rest"
      and prio: "is_Priority q' = is_Priority q" and cur: "current_usage q' = current_usage q"
      and repr: "holders (c(b := None)) q' = holders c q \<Longrightarrow> repr_ok (c(b := None)) q'" for q'
  proof -
    have first: "rk b < rk x" if "x \<in> waiting q'" for x
      using that order by (auto simp: waiting_def rest)
    then have nb: "b \<notin> waiting q'" by blast
    have w: "waiting q = insert b (waiting q')" by (simp add: waiting_def bl rest)
    then have h: "holders (c(b := None)) q' = holders c q" by (auto simp: holders_def)
    have hb: "b \<notin> holders c q" by (simp add: holders_def w)
    have "usage_ok (c(b := None)) q'"
      using inv cur h hb unfolding queue_inv_def usage_ok_def
      by (auto split: option.splits requested_usage.splits)
    then have "queue_inv rk (c(b := None)) n q'"
      using sorted nb h repr by (intro queue_inv_dropI [OF inv prio]) (auto simp: rest bl)
    moreover have "fresh rk (c(b := None)) q' b"
    proof -
      have "insert b (dom (c(b := None))) = dom c" using cb by auto
      then show ?thesis using inv prio cb unfolding fresh_def queue_inv_def by auto
    qed
    ultimately show thesis using pop rest prio cur cb first by (intro result) auto
  qed
  show thesis
  proof (cases q)
    case (Fifo cu bs)
    with bl show thesis
      by (intro main [of "Fifo cu rest"]) (use inv in \<open>auto simp: queue_inv_def\<close>)
  next
    case (Priority cu bs)
    with bl obtain k bs' where bs: "bs = (k, (u, b)) # bs'" and rest: "rest = map snd bs'"
      by (cases bs) auto
    show thesis
      by (rule main [of "Priority cu bs'"])
        (use inv in \<open>auto simp: Priority bs rest queue_inv_def\<close>)
  qed
qed

lemma lower_counts_insert:
  "cell b \<notin> cell ` P \<Longrightarrow> lower_counts P (lower_counts {b} n) = lower_counts (insert b P) n"
  by (auto simp: lower_counts_def fun_eq_iff)

lemma lower_counts_other: "cell x \<notin> cell ` P \<Longrightarrow> lower_counts P n (cell x) = n (cell x)"
  by (simp add: lower_counts_def)

lemma queue_inv_lower: "queue_inv rk c n q \<Longrightarrow> queue_inv rk c (lower_counts P n) q"
  by (erule queue_inv_counts) (simp add: lower_counts_def)

lemma try_unblock_eq:
  "0 < n (cell b) \<Longrightarrow>
   try_unblock b n = Some (lower_counts {b} n, if n (cell b) = 1 then Some b else None)"
  by (auto simp: try_unblock_def decrement_def lower_counts_def fun_eq_iff)

text \<open>
  The unlock loop serves a prefix \<open>P\<close> of the blocked queue: the counter of every task of \<open>P\<close>
  goes down by one, and those that reach zero are appended to the unblocked queue in order.
\<close>

definition served :: "usage_from_task list \<Rightarrow> count_store \<Rightarrow> task list \<Rightarrow> count_store \<times> task list" where
  "served P n uq =
     (lower_counts (snd ` set P) n, uq @ filter (\<lambda>x. n (cell x) = 1) (map snd P))"

lemma served_Cons:
  assumes "cell b \<notin> cell ` snd ` set P"
  shows "served P (lower_counts {b} n) (if n (cell b) = 1 then uq @ [b] else uq) =
    served ((u, b) # P) n uq"
proof -
  have "lower_counts {b} n (cell (snd x)) = n (cell (snd x))" if "x \<in> set P" for x
    using assms that by (intro lower_counts_other) (force simp: image_iff)
  then have "filter (\<lambda>x. lower_counts {b} n (cell x) = 1) (map snd P) =
      filter (\<lambda>x. n (cell x) = 1) (map snd P)"
    by (auto intro!: filter_cong)
  then show ?thesis using lower_counts_insert [OF assms] by (simp add: served_def)
qed

lemma unlock_round_eq:
  assumes "try_lock q b u = Some (q1, Inr ())" and "0 < n (cell b)"
  shows "unlock_round q n uq (u, b) =
    do { (q2, nl) \<leftarrow> (if u = Readonly then pop_lockable_readonly q1 else Some (q1, None));
         Some (q2, lower_counts {b} n, if n (cell b) = 1 then uq @ [b] else uq, nl) }"
  using assms(1) try_unblock_eq [of n b, OF assms(2)] by (simp add: unlock_round_def)

lemma unlock_loop_stop:
  assumes "try_lock q b u = Some (q1, Inr ())" and "0 < n (cell b)"
    and "(if u = Readonly then pop_lockable_readonly q1 else Some (q1, None)) = Some (q1, None)"
  shows "unlock_loop q n uq (Some (u, b)) = Some (q1, served [(u, b)] n uq)"
  by (simp add: unlock_round_eq [of q b u q1 n, OF assms(1,2)] assms(3) served_def)

lemma pop_lockable_readonly_eq:
  assumes "current_usage q = Some Readonly"
  shows "pop_lockable_readonly q =
    Some (if blocked q \<noteq> [] \<and> fst (hd (blocked q)) = Readonly then pop q else (q, None))"
proof -
  have "peek_blocked q = (if blocked q = [] then None else Some (hd (blocked q)))"
    by (cases q; cases "blocked q") auto
  then show ?thesis
    using assms by (cases "hd (blocked q)")
      (auto simp: pop_lockable_readonly_def split: requested_usage.splits)
qed

lemma unlock_loop_law:
  assumes "queue_inv rk c n q" and "fresh rk c q b" and "compatible (current_usage q) u"
    and "\<And>x. x \<in> waiting q \<Longrightarrow> rk b < rk x" and "card (dom c) < u32_max"
    and "\<And>x. x \<in> insert b (waiting q) \<Longrightarrow> 0 < n (cell x)"
  shows "\<exists>P q'. unlock_loop q n uq (Some (u, b)) = Some (q', served P n uq) \<and>
    (u, b) # blocked q = P @ blocked q' \<and> is_Priority q' = is_Priority q \<and>
    queue_ok rk (c(b \<mapsto> u)) (lower_counts (snd ` set P) n) q'"
  using assms
proof (induction "length (blocked q)" arbitrary: q c n uq b u rule: less_induct)
  case less
  note inv = less.prems(1) and fr = less.prems(2) and pos = less.prems(6)
  from try_lock_law [OF inv fr less.prems(3,5,4)] obtain q1 where
    q1: "try_lock q b u = Some (q1, Inr ())" "blocked q1 = blocked q"
      "is_Priority q1 = is_Priority q" "current_usage q1 = Some u" "queue_inv rk (c(b \<mapsto> u)) n q1"
    by blast
  have nb: "0 < n (cell b)" using pos by blast
  show ?case
  proof (cases "u = Readonly \<and> blocked q1 \<noteq> [] \<and> fst (hd (blocked q1)) = Readonly")
    case False
    then have "(if u = Readonly then pop_lockable_readonly q1 else Some (q1, None)) = Some (q1, None)"
      using q1(4) by (auto simp: pop_lockable_readonly_eq)
    moreover have "head_ok q1"
      using False q1(4) by (cases u; cases "fst (hd (blocked q1))") (auto simp: head_ok_def)
    ultimately show ?thesis
      using unlock_loop_stop [of q b u q1 n, OF q1(1) nb] q1 queue_inv_lower [OF q1(5)]
      by (intro exI [of _ "[(u, b)]"] exI [of _ q1]) (simp add: queue_ok_def)
  next
    case True
    then obtain x rest where bl: "blocked q1 = (Readonly, x) # rest"
      by (cases "blocked q1") auto
    let ?c = "(c(b \<mapsto> u))(x := None)" and ?n = "lower_counts {b} n"
      and ?uq = "if n (cell b) = 1 then uq @ [b] else uq"
    from pop_law [OF q1(5) bl] obtain q2 where
      q2: "pop q1 = (q2, Some (Readonly, x))" "blocked q2 = rest" "is_Priority q2 = is_Priority q1"
        "current_usage q2 = current_usage q1" "queue_inv rk ?c n q2" "fresh rk ?c q2 x"
        "(c(b \<mapsto> u)) x = Some Readonly" and first: "\<And>y. y \<in> waiting q2 \<Longrightarrow> rk x < rk y"
      by blast
    have step: "unlock_round q n uq (u, b) = Some (q2, ?n, ?uq, Some (Readonly, x))"
      unfolding unlock_round_eq [of q b u q1 n, OF q1(1) nb]
      using True q1(4) bl by (simp add: pop_lockable_readonly_eq q2(1))
    have x: "x \<in> waiting q" "x \<noteq> b"
      using bl q1(2) fr waiting_subset [OF inv] by (auto simp: waiting_def fresh_def)
    have w2: "waiting q2 \<subseteq> waiting q" using bl q1(2) q2(2) by (auto simp: waiting_def)
    have xc: "c x = Some Readonly" using q2(7) x(2) by simp
    then have c: "?c(x \<mapsto> Readonly) = c(b \<mapsto> u)" using x(2) by (auto simp: fun_eq_iff)
    have other: "cell y \<noteq> cell b" if "y \<in> insert x (waiting q2)" for y
      using that fresh_cell [OF fr] x(1) w2 waiting_subset [OF inv] by blast
    have dom: "dom ?c = insert b (dom c - {x})" using x(2) by auto
    have "card (dom ?c) \<le> Suc (card (dom c - {x}))"
      unfolding dom by (rule card_insert_le_m1) simp_all
    also have "\<dots> = card (dom c)"
      using xc inv by (intro card.remove [symmetric]) (auto simp: queue_inv_def)
    finally have room: "card (dom ?c) < u32_max" using less.prems(5) by simp
    have "0 < ?n (cell y)" if "y \<in> insert x (waiting q2)" for y
      using pos [of y] that other [OF that] x(1) w2 by (auto simp: lower_counts_def)
    moreover have "compatible (current_usage q2) Readonly"
      using True q1(4) q2(4) by (simp add: compatible_def)
    moreover have "length (blocked q2) < length (blocked q)"
      unfolding q1(2) [symmetric] bl q2(2) by simp
    ultimately obtain P q' where P: "unlock_loop q2 ?n ?uq (Some (Readonly, x)) = Some (q', served P ?n ?uq)"
      "(Readonly, x) # blocked q2 = P @ blocked q'" "is_Priority q' = is_Priority q2"
      "queue_ok rk (c(b \<mapsto> u)) (lower_counts (snd ` set P) ?n) q'"
      using less.hyps [OF _ queue_inv_lower [OF q2(5)] q2(6) _ first room, of Readonly "{b}" ?uq] c by auto
    have "set P \<subseteq> insert (Readonly, x) (set (blocked q2))"
      using arg_cong [OF P(2), of set] by auto
    then have "snd ` set P \<subseteq> insert x (waiting q2)" by (auto simp: waiting_def)
    with other have "cell y \<noteq> cell b" if "y \<in> snd ` set P" for y using that by auto
    then have nP: "cell b \<notin> cell ` snd ` set P" by (metis imageE)
    have "unlock_loop q n uq (Some (u, b)) = Some (q', served ((u, b) # P) n uq)"
      using P(1) served_Cons [OF nP] by (simp add: step)
    moreover have "(u, b) # blocked q = ((u, b) # P) @ blocked q'"
      using P(2) bl q1(2) q2(2) by simp
    ultimately show ?thesis
      using P(3,4) q1(3) q2(3) lower_counts_insert [OF nP]
      by (intro exI [of _ "(u, b) # P"] exI [of _ q']) simp
  qed
qed

text \<open>The unlock law, for both variants.\<close>

definition unlock_queue ::
  "usage_queue_inner \<Rightarrow> count_store \<Rightarrow> task list \<Rightarrow> task \<Rightarrow> requested_usage \<Rightarrow>
   (usage_queue_inner \<times> count_store \<times> task list) option" where
  "unlock_queue q n uq t u =
     do { (q', newly_lockable) \<leftarrow> unlock q t u; unlock_loop q' n uq newly_lockable }"

lemma unlock_usage_queue_eq:
  "unlock_usage_queue t ctx s =
     do { (q', n, uq) \<leftarrow> unlock_queue (usage_queue_token s (usage_queue ctx)) (count_token s)
            (unblocked_task_queue s) t (requested_usage ctx);
          Some (s\<lparr>usage_queue_token := (usage_queue_token s)(usage_queue ctx := q'),
                  count_token := n, unblocked_task_queue := uq\<rparr>) }"
  by (cases "unlock (usage_queue_token s (usage_queue ctx)) t (requested_usage ctx)")
    (auto simp: unlock_usage_queue_def unlock_queue_def)

lemma pop_empty: "blocked q = [] \<Longrightarrow> pop q = (q, None)"
  by (cases q) auto

lemma unlock_queue_law:
  assumes ok: "queue_ok rk c n q" and t: "t \<in> holders c q" and u: "c t = Some u"
    and room: "card (dom c) < u32_max" and pos: "\<And>b. b \<in> waiting q \<Longrightarrow> 0 < n (cell b)"
  shows "\<exists>P q'. unlock_queue q n uq t u = Some (q', served P n uq) \<and>
    blocked q = P @ blocked q' \<and> is_Priority q' = is_Priority q \<and>
    queue_ok rk (c(t := None)) (lower_counts (snd ` set P) n) q'"
proof -
  have inv: "queue_inv rk c n q" and head: "head_ok q" using ok by (simp_all add: queue_ok_def)
  from release_current_law [OF inv t u] obtain q1 where
    q1: "release_current q t u = Some (q1, current_usage q1 = None)" "blocked q1 = blocked q"
      "is_Priority q1 = is_Priority q" "current_usage q1 \<in> {None, current_usage q}"
      "queue_inv rk (c(t := None)) n q1"
    by blast
  show ?thesis
  proof (cases "current_usage q1 = None \<and> blocked q1 \<noteq> []")
    case False
    have "unlock_queue q n uq t u = Some (q1, served [] n uq)"
      using False by (auto simp: unlock_queue_def unlock_def q1(1) pop_empty served_def)
    moreover have "head_ok q1"
      using False head q1(2,4) by (auto simp: head_ok_def split: option.splits requested_usage.splits)
    ultimately show ?thesis
      using q1 by (intro exI [of _ "[]"] exI [of _ q1]) (simp add: queue_ok_def)
  next
    case True
    then obtain v b rest where bl: "blocked q1 = (v, b) # rest" by (cases "blocked q1") auto
    let ?c = "c(t := None)"
    from pop_law [OF q1(5) bl] obtain q2 where
      q2: "pop q1 = (q2, Some (v, b))" "blocked q2 = rest" "is_Priority q2 = is_Priority q1"
        "current_usage q2 = current_usage q1" "queue_inv rk (?c(b := None)) n q2"
        "fresh rk (?c(b := None)) q2 b" "?c b = Some v"
      and first: "\<And>y. y \<in> waiting q2 \<Longrightarrow> rk b < rk y"
      by blast
    have "card (dom (?c(b := None))) \<le> card (dom c)"
      using inv by (intro card_mono) (auto simp: queue_inv_def)
    with room have room2: "card (dom (?c(b := None))) < u32_max" by simp
    have "0 < n (cell y)" if "y \<in> insert b (waiting q2)" for y
      using that pos [of y] bl q1(2) q2(2) by (auto simp: waiting_def)
    moreover have "compatible (current_usage q2) v" using True q2(4) by (simp add: compatible_def)
    ultimately obtain P q' where P: "unlock_loop q2 n uq (Some (v, b)) = Some (q', served P n uq)"
      "(v, b) # blocked q2 = P @ blocked q'" "is_Priority q' = is_Priority q2"
      "queue_ok rk (?c(b := None, b \<mapsto> v)) (lower_counts (snd ` set P) n) q'"
      using unlock_loop_law [OF q2(5,6) _ first room2, of v uq] by auto
    have "unlock_queue q n uq t u = Some (q', served P n uq)"
      using P(1) True by (simp add: unlock_queue_def unlock_def q1(1) q2(1))
    moreover have "?c(b := None, b \<mapsto> v) = ?c" using q2(7) by (simp add: fun_upd_idem)
    ultimately show ?thesis
      using P(2-4) bl q1(2,3) q2(2,3) by (intro exI [of _ P] exI [of _ q']) auto
  qed
qed

end
