(* ===== verification/Scheduler_Inv.thy ===== *)
theory Scheduler_Inv
  imports Usage_Queue_Laws
begin

text \<open>
  The invariant of the whole \<open>SchedulingStateMachine\<close>. \<open>locks_ok\<close> lifts the contract of one
  usage queue to all of them: \<open>L\<close> gives, for every task known to the machine, the lock
  contexts it currently has a claim on. The lock loop grows the contexts of one task, the
  unlock loop shrinks them, and the invariant is kept by every iteration of both.
\<close>

section \<open>Claims of all tasks on all queues\<close>

type_synonym claim_table = "task \<rightharpoonup> lock_context list"

definition addr_claims :: "lock_context list \<Rightarrow> queue_ref \<Rightarrow> requested_usage option" where
  "addr_claims ctxs = map_of (map (\<lambda>ctx. (usage_queue ctx, requested_usage ctx)) ctxs)"

definition claims_at :: "claim_table \<Rightarrow> queue_ref \<Rightarrow> claims" where
  "claims_at L a t = (case L t of None \<Rightarrow> None | Some ctxs \<Rightarrow> addr_claims ctxs a)"

definition active_map :: "task set \<Rightarrow> claim_table" where
  "active_map A t = (if t \<in> A then Some (lock_contexts t) else None)"

definition wf_ctxs :: "lock_context list \<Rightarrow> bool" where
  "wf_ctxs ctxs = (distinct (map usage_queue ctxs) \<and> length ctxs < u32_max)"

definition wait_at :: "(queue_ref \<Rightarrow> usage_queue_inner) \<Rightarrow> task \<Rightarrow> queue_ref set" where
  "wait_at Q t = {a. t \<in> waiting (Q a)}"

definition locks_ok ::
  "bool \<Rightarrow> (task \<Rightarrow> nat) \<Rightarrow> claim_table \<Rightarrow> (queue_ref \<Rightarrow> usage_queue_inner) \<Rightarrow> count_store \<Rightarrow> bool" where
  "locks_ok prio rk L Q n =
     (finite (dom L) \<and> inj_on rk (dom L) \<and> inj_on cell (dom L) \<and>
      (prio \<longrightarrow> (\<forall>t \<in> dom L. rk t = task_id t)) \<and> (\<forall>t \<in> dom L. wf_ctxs (the (L t))) \<and>
      (\<forall>a. is_Priority (Q a) = prio \<and> queue_ok rk (claims_at L a) n (Q a)))"

lemma dom_active_map [simp]: "dom (active_map A) = A"
  by (auto simp: active_map_def dom_def)

lemma addr_claims_dom: "addr_claims ctxs a \<noteq> None \<longleftrightarrow> a \<in> usage_queue ` set ctxs"
  by (force simp: addr_claims_def map_of_eq_None_iff)

lemma dom_claims_at: "dom (claims_at L a) \<subseteq> dom L"
  by (auto simp: claims_at_def split: option.splits)

lemma claims_at_snoc:
  assumes "usage_queue ctx \<notin> usage_queue ` set cs"
  shows "claims_at (L(t \<mapsto> cs @ [ctx])) a =
    (if a = usage_queue ctx then (claims_at (L(t \<mapsto> cs)) a)(t \<mapsto> requested_usage ctx)
     else claims_at (L(t \<mapsto> cs)) a)"
  using assms addr_claims_dom [of cs "usage_queue ctx"]
  by (auto simp: fun_eq_iff claims_at_def addr_claims_def map_add_def split: option.splits)

lemma claims_at_Cons:
  assumes "usage_queue ctx \<notin> usage_queue ` set cs"
  shows "claims_at (L(t \<mapsto> cs)) a =
    (if a = usage_queue ctx then (claims_at (L(t \<mapsto> ctx # cs)) a)(t := None)
     else claims_at (L(t \<mapsto> ctx # cs)) a)"
  using assms addr_claims_dom [of cs "usage_queue ctx"]
  by (auto simp: fun_eq_iff claims_at_def addr_claims_def split: option.splits)

lemma claims_at_Cons_hd: "claims_at (L(t \<mapsto> ctx # cs)) (usage_queue ctx) t = Some (requested_usage ctx)"
  by (simp add: claims_at_def addr_claims_def)

lemma claims_at_Nil: "claims_at (L(t \<mapsto> [])) = claims_at (L(t := None))"
  by (auto simp: fun_eq_iff claims_at_def addr_claims_def)

lemma wait_at_upd:
  "wait_at (Q(a := q)) x = (if x \<in> waiting q then insert a (wait_at Q x) else wait_at Q x - {a})"
  by (auto simp: wait_at_def)

lemma locks_queue_ok: "locks_ok prio rk L Q n \<Longrightarrow> queue_ok rk (claims_at L a) n (Q a)"
  by (simp add: locks_ok_def)

lemma locks_queue_inv: "locks_ok prio rk L Q n \<Longrightarrow> queue_inv rk (claims_at L a) n (Q a)"
  by (simp add: locks_ok_def queue_ok_def)

lemma wait_at_subset:
  assumes "locks_ok prio rk L Q n"
  shows "wait_at Q x \<subseteq> (case L x of None \<Rightarrow> {} | Some ctxs \<Rightarrow> usage_queue ` set ctxs)"
proof
  fix a assume "a \<in> wait_at Q x"
  then have "claims_at L a x \<noteq> None"
    using waiting_subset [OF locks_queue_inv [OF assms, of a]] by (auto simp: wait_at_def)
  then show "a \<in> (case L x of None \<Rightarrow> {} | Some ctxs \<Rightarrow> usage_queue ` set ctxs)"
    using addr_claims_dom by (auto simp: claims_at_def split: option.splits)
qed

lemma wait_at_finite: "locks_ok prio rk L Q n \<Longrightarrow> finite (wait_at Q x)"
  by (rule finite_subset [OF wait_at_subset]) (auto split: option.splits)

lemma wait_at_card:
  assumes "locks_ok prio rk L Q n" and "x \<in> dom L"
  shows "card (wait_at Q x) < u32_max"
proof -
  from assms(2) obtain ctxs where L: "L x = Some ctxs" by auto
  have "card (wait_at Q x) \<le> card (usage_queue ` set ctxs)"
    using wait_at_subset [OF assms(1), of x] by (intro card_mono) (auto simp: L)
  also have "\<dots> \<le> length ctxs" by (meson card_image_le card_length finite_set le_trans)
  also have "wf_ctxs (the (L x))" using assms by (simp add: locks_ok_def)
  then have "length ctxs < u32_max" by (simp add: wf_ctxs_def L)
  finally show ?thesis .
qed

lemma wait_at_empty: "locks_ok prio rk L Q n \<Longrightarrow> x \<notin> dom L \<Longrightarrow> wait_at Q x = {}"
  using wait_at_subset [of prio rk L Q n x] by (auto simp: domIff)

lemma card_dom_claims_at:
  "locks_ok prio rk L Q n \<Longrightarrow> card (dom (claims_at L a)) \<le> card (dom L)"
  by (rule card_mono) (auto simp: locks_ok_def dom_claims_at)


section \<open>The lock loop\<close>

text \<open>
  While \<open>t\<close> is being locked, \<open>cs\<close> are the contexts already processed and \<open>b\<close> is the
  local \<open>blocked_usage_count\<close>; the counter cell of \<open>t\<close> itself is not touched. The addresses
  \<open>t\<close> was granted are held ahead of everything queued there.
\<close>

definition counts_ok :: "task set \<Rightarrow> (queue_ref \<Rightarrow> usage_queue_inner) \<Rightarrow> count_store \<Rightarrow> bool" where
  "counts_ok A Q n = (\<forall>x \<in> A. n (cell x) = card (wait_at Q x))"

definition same_zeros :: "task set \<Rightarrow> count_store \<Rightarrow> count_store \<Rightarrow> bool" where
  "same_zeros A n0 n = (\<forall>x \<in> A. n (cell x) = 0 \<longleftrightarrow> n0 (cell x) = 0)"

definition lock_inv ::
  "bool \<Rightarrow> (task \<Rightarrow> nat) \<Rightarrow> task set \<Rightarrow> task \<Rightarrow> count_store \<Rightarrow> lock_context list \<Rightarrow> lock_state \<Rightarrow> bool" where
  "lock_inv prio rk A t n0 cs = (\<lambda>(Q, n, b).
     locks_ok prio rk ((active_map A)(t \<mapsto> cs)) Q n \<and> counts_ok A Q n \<and>
     same_zeros A n0 n \<and> n (cell t) = n0 (cell t) \<and> b = card (wait_at Q t) \<and>
     (\<forall>a. t \<in> holders (claims_at ((active_map A)(t \<mapsto> cs)) a) (Q a) \<longrightarrow>
        (\<forall>w \<in> waiting (Q a). rk t < rk w)))"

lemma lock_inv_counts:
  assumes counts: "counts_ok A Q n" and fin: "\<And>x. finite (wait_at Q x)"
    and inj: "inj_on cell (insert t A)" and t: "t \<notin> A" and R: "R \<subseteq> A" "R \<inter> waiting (Q a) = {}"
    and w: "waiting q' = waiting (Q a) \<union> R \<union> T" "T \<subseteq> {t}" and tw: "t \<notin> waiting (Q a)"
  shows "counts_ok A (Q(a := q')) (raise_counts R n)"
    and "card (wait_at (Q(a := q')) t) = card (wait_at Q t) + card T"
    and "raise_counts R n (cell t) = n (cell t)"
proof -
  have mem: "cell x \<in> cell ` R \<longleftrightarrow> x \<in> R" if "x \<in> insert t A" for x
    using inj_on_image_mem_iff [OF inj that, of R] R by blast
  show "counts_ok A (Q(a := q')) (raise_counts R n)"
    unfolding counts_ok_def
  proof
    fix x assume x: "x \<in> A"
    then have xt: "x \<notin> T" using t w(2) by auto
    have "wait_at (Q(a := q')) x = (if x \<in> R then insert a (wait_at Q x) else wait_at Q x)"
      using xt by (auto simp: wait_at_def w(1))
    moreover have "a \<notin> wait_at Q x" if "x \<in> R" using that R(2) by (auto simp: wait_at_def)
    ultimately show "raise_counts R n (cell x) = card (wait_at (Q(a := q')) x)"
      using counts x mem [of x] fin by (simp add: counts_ok_def raise_counts_def)
  qed
  have tR: "t \<notin> R" using t R(1) by auto
  have "wait_at (Q(a := q')) t = (if T = {} then wait_at Q t else insert a (wait_at Q t))"
    using tR tw w(2) by (auto simp: wait_at_def w(1))
  moreover have "a \<notin> wait_at Q t" using tw by (simp add: wait_at_def)
  moreover have "T = {} \<or> T = {t}" using w(2) by auto
  ultimately show "card (wait_at (Q(a := q')) t) = card (wait_at Q t) + card T"
    using fin by auto
  show "raise_counts R n (cell t) = n (cell t)"
    using mem [of t] tR by (simp add: raise_counts_def)
qed

lemma raise_counts_zero:
  "(\<And>h. h \<in> R \<Longrightarrow> 0 < n (cell h)) \<Longrightarrow> raise_counts R n (cell x) = 0 \<longleftrightarrow> n (cell x) = 0"
  by (auto simp: raise_counts_def image_iff)

lemma locks_ok_upd:
  assumes ok: "locks_ok prio rk L Q n" and dom: "dom L' = dom L"
    and wf: "\<And>x. x \<in> dom L' \<Longrightarrow> wf_ctxs (the (L' x))"
    and other: "\<And>a'. a' \<noteq> a \<Longrightarrow> claims_at L' a' = claims_at L a'"
    and zeros: "\<And>x. x \<in> dom L \<Longrightarrow> n (cell x) = 0 \<Longrightarrow> n' (cell x) = 0"
    and q': "is_Priority q' = is_Priority (Q a)" "queue_ok rk (claims_at L' a) n' q'"
  shows "locks_ok prio rk L' (Q(a := q')) n'"
proof -
  have "queue_ok rk (claims_at L' a') n' (Q a')" if "a' \<noteq> a" for a'
    unfolding other [OF that]
    by (rule queue_ok_counts [OF locks_queue_ok [OF ok]])
      (use zeros dom_claims_at [of L a'] holders_subset [of "claims_at L a'" "Q a'"] in blast)
  with assms show ?thesis by (auto simp: locks_ok_def)
qed

lemma lock_step:
  assumes inv: "lock_inv prio rk A t n0 cs (Q, n, b)" and wf: "wf_ctxs (cs @ [ctx])"
    and t: "t \<notin> A" and room: "card A < u32_max" and last: "\<not> prio \<Longrightarrow> (\<forall>x \<in> A. rk x < rk t)"
  shows "\<exists>st. lock_usage_queue t ctx (Q, n, b) = Some st \<and> lock_inv prio rk A t n0 (cs @ [ctx]) st"
proof -
  let ?L = "(active_map A)(t \<mapsto> cs)" and ?L' = "(active_map A)(t \<mapsto> cs @ [ctx])"
    and ?a = "usage_queue ctx"
  have locks: "locks_ok prio rk ?L Q n" and counts: "counts_ok A Q n" and zeros: "same_zeros A n0 n"
    and nt: "n (cell t) = n0 (cell t)" and b: "b = card (wait_at Q t)"
    and first: "\<And>a w. t \<in> holders (claims_at ?L a) (Q a) \<Longrightarrow> w \<in> waiting (Q a) \<Longrightarrow> rk t < rk w"
    using inv by (auto simp: lock_inv_def)
  have domL: "dom ?L = insert t A" "dom ?L' = insert t A" by auto
  have new: "?a \<notin> usage_queue ` set cs" using wf by (auto simp: wf_ctxs_def)
  let ?c = "claims_at ?L ?a"
  have tc: "?c t = None" using new addr_claims_dom [of cs ?a] by (auto simp: claims_at_def)
  have domc: "dom ?c \<subseteq> A" using dom_claims_at [of ?L ?a] tc domL by fastforce
  have finA: "finite A" and inj: "inj_on rk (insert t A)" "inj_on cell (insert t A)"
    and rk: "prio \<Longrightarrow> rk t = task_id t"
    using locks domL by (auto simp: locks_ok_def)
  have prioa: "is_Priority (Q ?a) = prio" using locks by (simp add: locks_ok_def)
  have "inj_on rk (insert t (dom ?c))" "inj_on cell (insert t (dom ?c))"
    using inj domc by (meson inj_on_subset insert_mono)+
  then have newc: "newcomer rk ?c (Q ?a) t"
    using rk last tc domc prioa by (auto simp: newcomer_def fresh_def)
  have "card (dom ?c) < u32_max" using card_mono [OF finA domc] room by simp
  moreover have small: "n (cell x) < u32_max" if "x \<in> A" for x
    using that counts wait_at_card [OF locks, of x] domL by (auto simp: counts_ok_def)
  ultimately have "lock_spec rk ?c n (Q ?a) t (requested_usage ctx)"
    using domc by (intro lock_queue_law [OF locks_queue_ok [OF locks] newc]) auto
  then obtain R q' ok where
    lock: "lock_queue (Q ?a) n t (requested_usage ctx) = Some (q', raise_counts R n, ok)"
    and R: "R \<subseteq> holders ?c (Q ?a)" and pos: "\<And>h. h \<in> R \<Longrightarrow> 0 < n (cell h)"
    and w: "waiting q' = waiting (Q ?a) \<union> R \<union> (if ok then {} else {t})"
    and prio': "is_Priority q' = is_Priority (Q ?a)"
    and qok: "queue_ok rk (?c(t \<mapsto> requested_usage ctx)) (raise_counts R n) q'"
    and granted: "ok \<Longrightarrow> (\<forall>b \<in> waiting q'. rk t < rk b)"
    unfolding lock_spec_def by blast
  have RA: "R \<subseteq> A" "R \<inter> waiting (Q ?a) = {}" using R domc by (auto simp: holders_def)
  have tw: "t \<notin> waiting (Q ?a)"
    using waiting_subset [OF locks_queue_inv [OF locks], of ?a] tc by auto
  note counts' = lock_inv_counts [OF counts wait_at_finite [OF locks] inj(2) t RA w _ tw]
  have bt: "b < u32_max" using wait_at_card [OF locks, of t] by (simp add: b)
  have claims: "claims_at ?L' a = (if a = ?a then ?c(t \<mapsto> requested_usage ctx) else claims_at ?L a)" for a
    by (simp add: claims_at_snoc [OF new])
  have locks': "locks_ok prio rk ?L' (Q(?a := q')) (raise_counts R n)"
  proof (rule locks_ok_upd [OF locks _ _ _ _ prio'])
    show "wf_ctxs (the (?L' x))" if "x \<in> dom ?L'" for x
      using that locks wf by (cases "x = t") (auto simp: locks_ok_def)
  qed (use raise_counts_zero [of R n, OF pos] claims qok domL in auto)
  have first': "rk t < rk x" if "t \<in> holders (claims_at ?L' a) ((Q(?a := q')) a)"
      "x \<in> waiting ((Q(?a := q')) a)" for a x
  proof (cases "a = ?a")
    case True
    with that(1) w have ok by (auto simp: holders_def split: if_splits)
    with granted that(2) True show ?thesis by simp
  next
    case False
    with that first [of a x] show ?thesis by (simp add: claims)
  qed
  have "lock_usage_queue t ctx (Q, n, b) =
      Some (Q(?a := q'), raise_counts R n, card (wait_at (Q(?a := q')) t))"
    using bt counts'(2) by (auto simp: lock_usage_queue_eq lock increment_def b)
  moreover have "same_zeros A n0 (raise_counts R n)"
    using zeros raise_counts_zero [of R n, OF pos] by (simp add: same_zeros_def)
  ultimately show ?thesis
    using counts'(1,3) locks' first' nt by (simp add: lock_inv_def)
qed

lemma active_map_insert [simp]: "(active_map A)(t \<mapsto> lock_contexts t) = active_map (insert t A)"
  by (auto simp: active_map_def fun_eq_iff)

lemma locks_ok_claims_cong:
  assumes "locks_ok prio rk L Q n" and "claims_at L' = claims_at L" and "finite (dom L')"
    and "inj_on rk (dom L')" and "inj_on cell (dom L')" and "prio \<longrightarrow> (\<forall>t \<in> dom L'. rk t = task_id t)"
    and "\<forall>t \<in> dom L'. wf_ctxs (the (L' t))"
  shows "locks_ok prio rk L' Q n"
  using assms by (simp add: locks_ok_def)

text \<open>What a task must satisfy to enter the machine.\<close>

definition admissible :: "bool \<Rightarrow> (task \<Rightarrow> nat) \<Rightarrow> task set \<Rightarrow> task \<Rightarrow> bool" where
  "admissible prio rk A t =
     (t \<notin> A \<and> wf_ctxs (lock_contexts t) \<and> cell t \<notin> cell ` A \<and> rk t \<notin> rk ` A \<and>
      (if prio then rk t = task_id t else \<forall>x \<in> A. rk x < rk t))"

lemma wf_ctxs_prefix: "wf_ctxs (xs @ ys) \<Longrightarrow> wf_ctxs xs"
  by (simp add: wf_ctxs_def)

lemma lock_inv_start:
  assumes locks: "locks_ok prio rk (active_map A) Q n" and counts: "counts_ok A Q n"
    and new: "admissible prio rk A t"
  shows "lock_inv prio rk A t n [] (Q, n, 0)"
proof -
  have t: "t \<notin> A" using new by (simp add: admissible_def)
  let ?L = "(active_map A)(t \<mapsto> [])"
  have claims: "claims_at ?L = claims_at (active_map A)"
    using t by (simp add: claims_at_Nil fun_upd_idem active_map_def)
  have "locks_ok prio rk ?L Q n"
    using new wf_ctxs_prefix [of "[]" "lock_contexts t"] locks
    by (intro locks_ok_claims_cong [OF locks claims]) (auto simp: locks_ok_def admissible_def)
  moreover have "wait_at Q t = {}" by (rule wait_at_empty [OF locks]) (simp add: t)
  moreover have "t \<notin> holders (claims_at ?L a) (Q a)" for a
    using t by (simp add: claims holders_def claims_at_def active_map_def domIff)
  ultimately show ?thesis using counts by (simp add: lock_inv_def same_zeros_def)
qed

lemma lock_loop:
  assumes locks: "locks_ok prio rk (active_map A) Q n" and counts: "counts_ok A Q n"
    and new: "admissible prio rk A t" and room: "card A < u32_max"
  shows "\<exists>st. foldM (lock_usage_queue t) (lock_contexts t) (Q, n, 0) = Some st \<and>
    lock_inv prio rk A t n (lock_contexts t) st"
proof (rule foldM_rule [where I = "\<lambda>cs _ st. lock_inv prio rk A t n cs st"])
  show "lock_inv prio rk A t n [] (Q, n, 0)" by (rule lock_inv_start [OF locks counts new])
next
  fix cs ctx rest st
  assume cs: "lock_contexts t = cs @ ctx # rest" and inv: "lock_inv prio rk A t n cs st"
  have "wf_ctxs (cs @ [ctx])"
    using new wf_ctxs_prefix [of "cs @ [ctx]" rest] by (simp add: admissible_def cs)
  with lock_step [of prio rk A t n cs "fst st" "fst (snd st)" "snd (snd st)" ctx] inv new room
  show "\<exists>st'. lock_usage_queue t ctx st = Some st' \<and> lock_inv prio rk A t n (cs @ [ctx]) st'"
    by (auto simp: admissible_def)
qed

lemma queue_ok_set_count:
  assumes ok: "queue_ok rk c n q" and other: "\<And>x. x \<in> dom c \<Longrightarrow> x \<noteq> t \<Longrightarrow> cell x \<noteq> cell t"
    and first: "\<And>w. t \<in> holders c q \<Longrightarrow> w \<in> waiting q \<Longrightarrow> rk t < rk w"
  shows "queue_ok rk c (n(cell t := k)) q"
proof -
  have "rk h < rk w \<or> (is_Priority q \<and> (n(cell t := k)) (cell h) = 0)"
    if "h \<in> holders c q" "w \<in> waiting q" for h w
    using that ok other [of h] first [of w] holders_subset [of c q]
    by (cases "h = t") (auto simp: queue_ok_def dest: holders_order)
  with ok show ?thesis by (simp add: queue_ok_def queue_inv_def)
qed

lemma lock_inv_finish:
  assumes inv: "lock_inv prio rk A t n0 (lock_contexts t) (Q, n, b)" and n0: "n0 (cell t) = 0"
    and new: "admissible prio rk A t"
  defines "n' \<equiv> if b = 0 then n else set_blocked_usage_count t b n"
  shows "locks_ok prio rk (active_map (insert t A)) Q n'" and "counts_ok (insert t A) Q n'"
    and "same_zeros A n0 n'" and "n' (cell t) = b"
proof -
  let ?L = "active_map (insert t A)"
  have locks: "locks_ok prio rk ?L Q n" and counts: "counts_ok A Q n" and zeros: "same_zeros A n0 n"
    and nt: "n (cell t) = 0" and b: "b = card (wait_at Q t)"
    and first: "\<And>a w. t \<in> holders (claims_at ?L a) (Q a) \<Longrightarrow> w \<in> waiting (Q a) \<Longrightarrow> rk t < rk w"
    using inv n0 by (auto simp: lock_inv_def)
  have n': "n' = n(cell t := b)" by (simp add: n'_def set_blocked_usage_count_def nt fun_upd_idem)
  have other: "cell x \<noteq> cell t" if "x \<in> A" for x using that new by (metis admissible_def imageI)
  have "queue_ok rk (claims_at ?L a) n' (Q a)" for a
    unfolding n'
    by (rule queue_ok_set_count [OF locks_queue_ok [OF locks]])
      (use other first dom_claims_at [of ?L a] in auto)
  then show "locks_ok prio rk ?L Q n'" using locks by (simp add: locks_ok_def)
  show "counts_ok (insert t A) Q n'" "same_zeros A n0 n'"
    using counts zeros other b unfolding n' by (auto simp: counts_ok_def same_zeros_def)
  show "n' (cell t) = b" by (simp add: n')
qed

lemma try_lock_usage_queues_law:
  assumes "locks_ok prio rk (active_map A) (usage_queue_token s) (count_token s)"
    and "counts_ok A (usage_queue_token s) (count_token s)"
    and new: "admissible prio rk A t" and "card A < u32_max" and n0: "count_token s (cell t) = 0"
  obtains Q n where
    "try_lock_usage_queues s t = Some (s\<lparr>usage_queue_token := Q, count_token := n\<rparr>,
       if n (cell t) = 0 then Some t else None)"
    and "locks_ok prio rk (active_map (insert t A)) Q n" and "counts_ok (insert t A) Q n"
    and "same_zeros A (count_token s) n"
proof -
  from lock_loop [OF assms(1-4)] obtain Q n b where
    loop: "foldM (lock_usage_queue t) (lock_contexts t) (usage_queue_token s, count_token s, 0) =
      Some (Q, n, b)" and inv: "lock_inv prio rk A t (count_token s) (lock_contexts t) (Q, n, b)"
    by auto
  note fin = lock_inv_finish [OF inv n0 new]
  show thesis
    by (rule that [OF _ fin(1-3)]) (use fin(4) in \<open>simp add: try_lock_usage_queues_def loop\<close>)
qed


section \<open>The unlock loop\<close>

text \<open>The tasks that wait nowhere are those in the unblocked queue and those that run.\<close>

definition ready_ok :: "task set \<Rightarrow> task set \<Rightarrow> task list \<Rightarrow> count_store \<Rightarrow> bool" where
  "ready_ok A run uq n =
     (distinct uq \<and> set uq \<inter> run = {} \<and> {x \<in> A. n (cell x) = 0} = set uq \<union> run)"

definition unlock_inv ::
  "bool \<Rightarrow> (task \<Rightarrow> nat) \<Rightarrow> task set \<Rightarrow> task set \<Rightarrow> task \<Rightarrow> lock_context list \<Rightarrow> ssm \<Rightarrow> bool" where
  "unlock_inv prio rk A run t cs s =
     (locks_ok prio rk ((active_map A)(t \<mapsto> cs)) (usage_queue_token s) (count_token s) \<and>
      counts_ok A (usage_queue_token s) (count_token s) \<and> wait_at (usage_queue_token s) t = {} \<and>
      ready_ok A run (unblocked_task_queue s) (count_token s))"

lemma sorted_rank_distinct:
  "sorted_wrt (\<lambda>x y. rk (snd x) < (rk (snd y) :: nat)) xs \<Longrightarrow> distinct (map snd xs)"
  by (induction xs) auto

lemma blocked_distinct: "queue_inv rk c n q \<Longrightarrow> distinct (map snd (blocked q))"
  by (rule sorted_rank_distinct [of rk]) (simp add: queue_inv_def)

lemma served_counts:
  assumes counts: "counts_ok A Q n" and fin: "\<And>x. finite (wait_at Q x)"
    and inj: "inj_on cell A" and P: "snd ` set P \<subseteq> A" "snd ` set P \<inter> waiting q' = {}"
    and w: "waiting (Q a) = snd ` set P \<union> waiting q'"
    and dist: "distinct (map snd P)" and ready: "ready_ok A run uq n"
    and "served P n uq = (n', uq')"
  shows "counts_ok A (Q(a := q')) n'" and "ready_ok A run uq' n'"
proof -
  have n': "n' = lower_counts (snd ` set P) n" and uq': "uq' = uq @ filter (\<lambda>x. n (cell x) = 1) (map snd P)"
    using assms(9) by (auto simp: served_def)
  have mem: "cell x \<in> cell ` snd ` set P \<longleftrightarrow> x \<in> snd ` set P" if "x \<in> A" for x
    using inj_on_image_mem_iff [OF inj that P(1)] .
  have lower: "n' (cell x) = (if x \<in> snd ` set P then n (cell x) - 1 else n (cell x))" if "x \<in> A" for x
    using mem [OF that] by (simp add: n' lower_counts_def)
  have pos: "0 < n (cell x)" if "x \<in> snd ` set P" for x
  proof -
    have "a \<in> wait_at Q x" using that w by (simp add: wait_at_def)
    moreover have "x \<in> A" using that P(1) by blast
    ultimately show ?thesis
      using counts fin [of x] card_gt_0_iff [of "wait_at Q x"] by (auto simp: counts_ok_def)
  qed
  show "counts_ok A (Q(a := q')) n'"
    unfolding counts_ok_def
  proof
    fix x assume x: "x \<in> A"
    have "wait_at (Q(a := q')) x = (if x \<in> snd ` set P then wait_at Q x - {a} else wait_at Q x)"
      using P(2) w by (auto simp: wait_at_def)
    moreover have "a \<in> wait_at Q x" if "x \<in> snd ` set P" using that w by (simp add: wait_at_def)
    ultimately show "n' (cell x) = card (wait_at (Q(a := q')) x)"
      using counts x by (simp add: lower counts_ok_def)
  qed
  have zero: "n' (cell x) = 0 \<longleftrightarrow> n (cell x) = 0 \<or> (x \<in> snd ` set P \<and> n (cell x) = 1)"
    if "x \<in> A" for x
    using lower [OF that] pos [of x] by (cases "x \<in> snd ` set P") (simp_all, linarith)
  let ?new = "filter (\<lambda>x. n (cell x) = 1) (map snd P)"
  have new: "set ?new = {x \<in> snd ` set P. n (cell x) = 1}" by auto
  have old: "distinct uq" "set uq \<inter> run = {}" "{x \<in> A. n (cell x) = 0} = set uq \<union> run"
    using ready by (auto simp: ready_ok_def)
  have "set ?new \<inter> (set uq \<union> run) = {}" unfolding new old(3) [symmetric] by auto
  moreover have "distinct ?new" using dist by (rule distinct_filter)
  moreover have "{x \<in> A. n' (cell x) = 0} = (set uq \<union> run) \<union> set ?new"
  proof (rule set_eqI)
    fix x
    have "x \<in> snd ` set P \<Longrightarrow> x \<in> A" using P(1) by blast
    then show "x \<in> {x \<in> A. n' (cell x) = 0} \<longleftrightarrow> x \<in> (set uq \<union> run) \<union> set ?new"
      unfolding new old(3) [symmetric] using zero [of x] by fastforce
  qed
  ultimately show "ready_ok A run uq' n'"
    using old(1,2) unfolding ready_ok_def uq' distinct_append set_append by blast
qed

lemma unlock_step:
  assumes inv: "unlock_inv prio rk A run t (ctx # cs) s" and t: "t \<notin> A" and room: "card A < u32_max - 1"
    and wf: "wf_ctxs (ctx # cs)"
  shows "\<exists>s'. unlock_usage_queue t ctx s = Some s' \<and> unlock_inv prio rk A run t cs s'"
proof -
  let ?L = "(active_map A)(t \<mapsto> ctx # cs)" and ?L' = "(active_map A)(t \<mapsto> cs)"
    and ?a = "usage_queue ctx" and ?Q = "usage_queue_token s" and ?n = "count_token s"
    and ?uq = "unblocked_task_queue s"
  let ?c = "claims_at ?L ?a"
  have locks: "locks_ok prio rk ?L ?Q ?n" and counts: "counts_ok A ?Q ?n" and wt: "wait_at ?Q t = {}"
    and ready: "ready_ok A run ?uq ?n"
    using inv by (auto simp: unlock_inv_def)
  have domL: "dom ?L = insert t A" "dom ?L' = insert t A" by auto
  have inj: "inj_on cell A" and finA: "finite A"
    using locks domL by (auto simp: locks_ok_def)
  have tw: "t \<notin> waiting (?Q ?a)" using wt by (auto simp: wait_at_def)
  then have th: "t \<in> holders ?c (?Q ?a)" by (simp add: holders_def domIff claims_at_Cons_hd)
  have wA: "waiting (?Q ?a) \<subseteq> A"
    using waiting_subset [OF locks_queue_inv [OF locks], of ?a] dom_claims_at [of ?L ?a] tw domL by auto
  have "0 < ?n (cell b)" if "b \<in> waiting (?Q ?a)" for b
  proof -
    have "b \<in> A" "?a \<in> wait_at ?Q b" using that wA by (auto simp: wait_at_def)
    then show ?thesis
      using counts wait_at_finite [OF locks, of b] card_gt_0_iff [of "wait_at ?Q b"]
      by (auto simp: counts_ok_def)
  qed
  moreover have "card (dom ?c) < u32_max"
    using card_dom_claims_at [OF locks, of ?a] room t finA unfolding domL by simp
  ultimately obtain P q' where
    un: "unlock_queue (?Q ?a) ?n ?uq t (requested_usage ctx) = Some (q', served P ?n ?uq)"
    and bl: "blocked (?Q ?a) = P @ blocked q'" and prio': "is_Priority q' = is_Priority (?Q ?a)"
    and qok: "queue_ok rk (?c(t := None)) (lower_counts (snd ` set P) ?n) q'"
    using unlock_queue_law [OF locks_queue_ok [OF locks] th claims_at_Cons_hd, of ?uq] by blast
  obtain n' uq' where srv: "served P ?n ?uq = (n', uq')" by fastforce
  then have n': "n' = lower_counts (snd ` set P) ?n" by (auto simp: served_def)
  have dist: "distinct (map snd (P @ blocked q'))"
    using blocked_distinct [OF locks_queue_inv [OF locks], of ?a] by (simp add: bl)
  have w: "waiting (?Q ?a) = snd ` set P \<union> waiting q'" by (auto simp: waiting_def bl)
  have PA: "snd ` set P \<subseteq> A" "snd ` set P \<inter> waiting q' = {}" "distinct (map snd P)"
    using wA w dist by (auto simp: waiting_def)
  note after = served_counts [OF counts wait_at_finite [OF locks] inj PA(1,2) w PA(3) ready srv]
  have new: "?a \<notin> usage_queue ` set cs" using wf by (auto simp: wf_ctxs_def)
  have "locks_ok prio rk ?L' (?Q(?a := q')) n'"
  proof (rule locks_ok_upd [OF locks _ _ _ _ prio'])
    show "wf_ctxs (the (?L' x))" if "x \<in> dom ?L'" for x
      using that locks wf by (cases "x = t") (auto simp: locks_ok_def wf_ctxs_def)
  qed (use claims_at_Cons [OF new] qok domL in \<open>auto simp: n' lower_counts_def\<close>)
  moreover have "wait_at (?Q(?a := q')) t = {}" using wt w by (auto simp: wait_at_def)
  ultimately show ?thesis
    using after by (simp add: unlock_usage_queue_eq un srv unlock_inv_def)
qed

lemma unlock_loop_all:
  assumes inv: "unlock_inv prio rk A run t (lock_contexts t) s" and t: "t \<notin> A"
    and room: "card A < u32_max - 1" and wf: "wf_ctxs (lock_contexts t)"
  shows "\<exists>s'. unlock_usage_queues s t = Some s' \<and> unlock_inv prio rk A run t [] s'"
  unfolding unlock_usage_queues_def
proof (rule foldM_rule [where I = "\<lambda>_ cs st. unlock_inv prio rk A run t cs st"])
  fix pre ctx cs st
  assume "lock_contexts t = pre @ ctx # cs" and inv: "unlock_inv prio rk A run t (ctx # cs) st"
  then have "wf_ctxs (ctx # cs)" using wf by (simp add: wf_ctxs_def)
  from unlock_step [OF inv t room this]
  show "\<exists>st'. unlock_usage_queue t ctx st = Some st' \<and> unlock_inv prio rk A run t cs st'" .
qed (rule inv)

lemma unlock_inv_finish:
  assumes "unlock_inv prio rk A run t [] s" and "t \<notin> A"
  shows "locks_ok prio rk (active_map A) (usage_queue_token s) (count_token s)"
    and "counts_ok A (usage_queue_token s) (count_token s)"
    and "ready_ok A run (unblocked_task_queue s) (count_token s)"
proof -
  have locks: "locks_ok prio rk ((active_map A)(t \<mapsto> [])) (usage_queue_token s) (count_token s)"
    using assms(1) by (simp add: unlock_inv_def)
  have claims: "claims_at (active_map A) = claims_at ((active_map A)(t \<mapsto> []))"
    using assms(2) by (simp add: claims_at_Nil fun_upd_idem active_map_def)
  show "locks_ok prio rk (active_map A) (usage_queue_token s) (count_token s)"
  proof (rule locks_ok_claims_cong [OF locks claims])
    have "wf_ctxs (the (((active_map A)(t \<mapsto> [])) x))" if "x \<in> A" for x
      using that locks by (simp add: locks_ok_def)
    with assms(2) show "\<forall>x \<in> dom (active_map A). wf_ctxs (the (active_map A x))"
      by (metis dom_active_map fun_upd_other)
  qed (use locks in \<open>auto simp: locks_ok_def\<close>)
qed (use assms in \<open>auto simp: unlock_inv_def\<close>)

end
