(* ===== verification/Scheduler_System.thy ===== *)
theory Scheduler_System
  imports Scheduler_Inv
begin

text \<open>
  The scheduler as a transition system: the state machine together with the tasks its caller
  has handed in (\<open>active_tasks\<close>) and is currently executing (\<open>running_tasks\<close>). Every step
  is one call of the public interface made by a caller that keeps the documented protocol:
  tasks come from \<open>create_task\<close> on a fresh counter cell, and only a running task is
  descheduled, once. \<open>config_inv\<close> is kept by every step, and no call panics.
\<close>

record config =
  machine :: ssm
  capability_of :: capability
  active_tasks :: "task set"
  running_tasks :: "task set"
  arrival :: "task \<Rightarrow> nat"
  arrivals :: nat

text \<open>
  \<open>max_session_tasks\<close>: the machine counts in \<open>u32\<close>, and a task may be counted twice in
  \<open>unblocked_task_count\<close> (when it is buffered and when it is taken off the queue).
\<close>

definition max_session_tasks :: nat where
  "max_session_tasks = 2 ^ 31"

definition is_prio :: "config \<Rightarrow> bool" where
  "is_prio cfg = (capability_of cfg = PriorityQueueing)"

definition rank :: "config \<Rightarrow> task \<Rightarrow> nat" where
  "rank cfg t = (if is_prio cfg then task_id t else arrival cfg t)"

definition drops :: "ssm \<Rightarrow> task \<Rightarrow> bool" where
  "drops s t =
     (case max_unique_active_task_count s of None \<Rightarrow> False
      | Some m \<Rightarrow> card (unique_active_task_hashes s) \<ge> m \<or> task_hash t \<in> unique_active_task_hashes s)"

definition hashes_ok :: "task set \<Rightarrow> nat option \<Rightarrow> hash set \<Rightarrow> bool" where
  "hashes_ok A max_unique hashes =
     (case max_unique of None \<Rightarrow> hashes = {}
      | Some m \<Rightarrow> inj_on task_hash A \<and> hashes = task_hash ` A \<and> card A \<le> m)"

definition counters_ok :: "task set \<Rightarrow> task set \<Rightarrow> ssm \<Rightarrow> bool" where
  "counters_ok A run s =
     (active_task_count s = card A \<and> running_task_count s = card run \<and>
      card run \<le> max_running_task_count s \<and> max_running_task_count s \<le> u32_max \<and>
      total_task_count s = dropped_task_count s + handled_task_count s + card A \<and>
      total_task_count s < max_session_tasks \<and>
      unblocked_task_count s \<le> 2 * handled_task_count s + card run + card A)"

definition ssm_inv :: "bool \<Rightarrow> (task \<Rightarrow> nat) \<Rightarrow> task set \<Rightarrow> task set \<Rightarrow> ssm \<Rightarrow> bool" where
  "ssm_inv prio rk A run s =
     (locks_ok prio rk (active_map A) (usage_queue_token s) (count_token s) \<and>
      counts_ok A (usage_queue_token s) (count_token s) \<and>
      ready_ok A run (unblocked_task_queue s) (count_token s) \<and>
      hashes_ok A (max_unique_active_task_count s) (unique_active_task_hashes s) \<and>
      counters_ok A run s)"

lemma ssm_inv_ready:
  assumes "ssm_inv prio rk A run s"
  shows "finite A" and "run \<subseteq> A" and "set (unblocked_task_queue s) \<subseteq> A"
    and "length (unblocked_task_queue s) + card run \<le> card A"
proof -
  have r: "ready_ok A run (unblocked_task_queue s) (count_token s)" using assms by (simp add: ssm_inv_def)
  have "finite (dom (active_map A))"
    using assms unfolding ssm_inv_def locks_ok_def by blast
  then show fin: "finite A" by simp
  have eq: "set (unblocked_task_queue s) \<union> run \<subseteq> A" using r by (auto simp: ready_ok_def)
  then show sub: "run \<subseteq> A" "set (unblocked_task_queue s) \<subseteq> A" by auto
  have "card (set (unblocked_task_queue s) \<union> run) = length (unblocked_task_queue s) + card run"
    using r sub(1) fin by (subst card_Un_disjoint) (auto simp: ready_ok_def distinct_card finite_subset)
  then show "length (unblocked_task_queue s) + card run \<le> card A"
    using card_mono [OF fin eq] by simp
qed

lemma locks_ok_rank_cong:
  assumes ok: "locks_ok prio rk L Q n" and eq: "\<And>x. x \<in> dom L \<Longrightarrow> rk' x = rk x"
  shows "locks_ok prio rk' L Q n"
proof -
  have "queue_ok rk' (claims_at L a) n (Q a)" for a
  proof -
    have inv: "queue_inv rk (claims_at L a) n (Q a)" by (rule locks_queue_inv [OF ok])
    have eqc: "rk' x = rk x" if "x \<in> dom (claims_at L a)" for x
      using that eq dom_claims_at [of L a] by blast
    have eqw: "rk' x = rk x" if "x \<in> waiting (Q a)" for x
      using that eqc waiting_subset [OF inv] by blast
    then have eqb: "rk' (snd x) = rk (snd x)" if "x \<in> set (blocked (Q a))" for x
      using that by (simp add: waiting_def)
    have "sorted_wrt (\<lambda>x y. rk (snd x) < rk (snd y)) (blocked (Q a))"
      using inv by (simp add: queue_inv_def)
    then have "sorted_wrt (\<lambda>x y. rk' (snd x) < rk' (snd y)) (blocked (Q a))"
      by (rule sorted_wrt_mono_rel [rotated]) (simp add: eqb)
    moreover have "inj_on rk' (dom (claims_at L a))"
      using inv eqc by (simp add: queue_inv_def cong: inj_on_cong)
    moreover have "rk' h < rk' b \<or> (is_Priority (Q a) \<and> n (cell h) = 0)"
      if "h \<in> holders (claims_at L a) (Q a)" "b \<in> waiting (Q a)" for h b
      using holders_order [OF inv that] eqc [of h] eqw [OF that(2)] that(1) by (auto simp: holders_def)
    ultimately show ?thesis
      using locks_queue_ok [OF ok, of a] eqc by (simp add: queue_ok_def queue_inv_def)
  qed
  moreover have "inj_on rk' (dom L)" "prio \<longrightarrow> (\<forall>t \<in> dom L. rk' t = task_id t)"
    using ok eq by (simp_all add: locks_ok_def cong: inj_on_cong)
  ultimately show ?thesis using ok by (simp add: locks_ok_def)
qed


section \<open>Every operation returns and keeps the invariant\<close>

lemma ssm_inv_bounds:
  assumes inv: "ssm_inv prio rk A run s"
  shows "total_task_count s < u32_max" and "dropped_task_count s < u32_max"
    and "handled_task_count s < u32_max" and "card A < u32_max - 1"
    and "active_task_count s < u32_max" and "unblocked_task_count s < u32_max"
proof -
  have c: "counters_ok A run s" using inv by (simp add: ssm_inv_def)
  have big: "2 * max_session_tasks = u32_max + 1" "1 < max_session_tasks"
    by (simp_all add: max_session_tasks_def u32_max_def)
  then show "total_task_count s < u32_max" "dropped_task_count s < u32_max"
    "handled_task_count s < u32_max" "card A < u32_max - 1" "active_task_count s < u32_max"
    using c by (auto simp: counters_ok_def)
  show "unblocked_task_count s < u32_max"
    using c big ssm_inv_ready(4) [OF inv] by (auto simp: counters_ok_def)
qed

definition admitted_hashes :: "ssm \<Rightarrow> task \<Rightarrow> hash set" where
  "admitted_hashes s t =
     (if max_unique_active_task_count s = None then unique_active_task_hashes s
      else insert (task_hash t) (unique_active_task_hashes s))"

lemma hashes_ok_admit:
  assumes ok: "hashes_ok A (max_unique_active_task_count s) (unique_active_task_hashes s)"
    and "\<not> drops s t" and fin: "finite A"
  shows "hashes_ok (insert t A) (max_unique_active_task_count s) (admitted_hashes s t)"
proof (cases "max_unique_active_task_count s")
  case (Some m)
  with assms have inj: "inj_on task_hash A" and eq: "unique_active_task_hashes s = task_hash ` A"
    and new: "card (task_hash ` A) < m" "task_hash t \<notin> task_hash ` A"
    by (auto simp: hashes_ok_def drops_def)
  then have "card (insert t A) \<le> m"
    using fin card_image [OF inj] by (simp add: card_insert_if)
  with inj eq new Some show ?thesis by (auto simp: hashes_ok_def admitted_hashes_def)
qed (use assms in \<open>simp add: hashes_ok_def admitted_hashes_def\<close>)

lemma ready_ok_insert:
  assumes "same_zeros A n0 n" and "ready_ok A run uq n0" and "t \<notin> A"
  shows "n (cell t) \<noteq> 0 \<Longrightarrow> ready_ok (insert t A) run uq n"
    and "n (cell t) = 0 \<Longrightarrow> ready_ok (insert t A) run (uq @ [t]) n"
    and "n (cell t) = 0 \<Longrightarrow> ready_ok (insert t A) (insert t run) uq n"
proof -
  have "{x \<in> insert t A. n (cell x) = 0} =
      {x \<in> A. n0 (cell x) = 0} \<union> (if n (cell t) = 0 then {t} else {})"
    using assms(1) by (auto simp: same_zeros_def)
  moreover have "{x \<in> A. n0 (cell x) = 0} = set uq \<union> run" "distinct uq" "set uq \<inter> run = {}"
    using assms(2) by (auto simp: ready_ok_def)
  moreover from this have "t \<notin> set uq" "t \<notin> run" using assms(3) by blast+
  ultimately show "n (cell t) \<noteq> 0 \<Longrightarrow> ready_ok (insert t A) run uq n"
    "n (cell t) = 0 \<Longrightarrow> ready_ok (insert t A) run (uq @ [t]) n"
    "n (cell t) = 0 \<Longrightarrow> ready_ok (insert t A) (insert t run) uq n"
    by (auto simp: ready_ok_def)
qed

text \<open>The state in which a task that is not dropped takes its locks.\<close>

definition admitted :: "ssm \<Rightarrow> task \<Rightarrow> ssm" where
  "admitted s t =
     s\<lparr>total_task_count := Suc (total_task_count s), unique_active_task_hashes := admitted_hashes s t,
       active_task_count := Suc (active_task_count s),
       peak_active_task_count := max (peak_active_task_count s) (Suc (active_task_count s))\<rparr>"

lemma schedule_admitted:
  assumes "\<not> drops s t" and "total_task_count s < u32_max" and "active_task_count s < u32_max"
  shows "schedule_or_buffer_task s t fb =
    do { (s, locked) \<leftarrow> try_lock_usage_queues (admitted s t) t;
         case locked of
           None \<Rightarrow> Some (s, None)
         | Some t \<Rightarrow>
             if \<not> is_task_runnable s \<or> fb
             then do { c \<leftarrow> increment (unblocked_task_count s);
                       Some (s\<lparr>unblocked_task_count := c,
                               unblocked_task_queue := unblocked_task_queue s @ [t]\<rparr>, None) }
             else do { c \<leftarrow> increment (running_task_count s);
                       Some (s\<lparr>running_task_count := c\<rparr>, Some t) } }"
proof -
  have "(if max_unique_active_task_count s = None then s1
        else s1\<lparr>unique_active_task_hashes := insert (task_hash t) (unique_active_task_hashes s1)\<rparr>) =
      s1\<lparr>unique_active_task_hashes := admitted_hashes s t\<rparr>"
    if "unique_active_task_hashes s1 = unique_active_task_hashes s" for s1 :: ssm
    using that by (cases s1) (simp add: admitted_hashes_def)
  then show ?thesis
    using assms
    by (simp add: schedule_or_buffer_task_def drops_def increment_def Let_def admitted_def
        split: option.splits)
qed

lemma schedule_law:
  assumes inv: "ssm_inv prio rk A run s" and new: "admissible prio rk A t"
    and zero: "count_token s (cell t) = 0" and room: "Suc (total_task_count s) < max_session_tasks"
  shows "\<exists>s' r. schedule_or_buffer_task s t fb = Some (s', r) \<and>
    (if drops s t then r = None \<and> ssm_inv prio rk A run s'
     else set_option r \<subseteq> (if fb then {} else {t}) \<and>
       ssm_inv prio rk (insert t A) (run \<union> set_option r) s')"
proof (cases "drops s t")
  case True
  let ?s' = "s\<lparr>total_task_count := Suc (total_task_count s),
    dropped_task_count := Suc (dropped_task_count s)\<rparr>"
  have "schedule_or_buffer_task s t fb = Some (?s', None)"
    using True ssm_inv_bounds [OF inv]
    by (auto simp: schedule_or_buffer_task_def drops_def increment_def Let_def split: option.splits)
  moreover have "ssm_inv prio rk A run ?s'"
    using inv room by (auto simp: ssm_inv_def counters_ok_def)
  ultimately show ?thesis using True by simp
next
  case False
  note ready = ssm_inv_ready [OF inv] and bounds = ssm_inv_bounds [OF inv]
  have t: "t \<notin> A" "t \<notin> run" using new ready(2) by (auto simp: admissible_def)
  have fin: "finite run" using ready(1,2) by (rule finite_subset [rotated])
  have c: "counters_ok A run s"
    and rdy: "ready_ok A run (unblocked_task_queue s) (count_token s)"
    and h: "hashes_ok (insert t A) (max_unique_active_task_count s) (admitted_hashes s t)"
    using inv hashes_ok_admit [OF _ False ready(1)] by (simp_all add: ssm_inv_def)
  have pre: "locks_ok prio rk (active_map A) (usage_queue_token (admitted s t)) (count_token (admitted s t))"
    "counts_ok A (usage_queue_token (admitted s t)) (count_token (admitted s t))"
    "card A < u32_max" "count_token (admitted s t) (cell t) = 0"
    using zero inv bounds(4) by (simp_all add: admitted_def ssm_inv_def)
  have tok: "count_token (admitted s t) = count_token s" by (simp add: admitted_def)
  obtain Q n where
    lock: "try_lock_usage_queues (admitted s t) t =
      Some ((admitted s t)\<lparr>usage_queue_token := Q, count_token := n\<rparr>,
        if n (cell t) = 0 then Some t else None)"
    and locks: "locks_ok prio rk (active_map (insert t A)) Q n" "counts_ok (insert t A) Q n"
    and zeros: "same_zeros A (count_token s) n"
    using try_lock_usage_queues_law [OF pre(1,2) new pre(3,4)] unfolding tok by blast
  note rdy' = ready_ok_insert [OF zeros rdy t(1)]
  let ?s = "(admitted s t)\<lparr>usage_queue_token := Q, count_token := n\<rparr>"
  note sched = schedule_admitted [OF False bounds(1,5), of fb, unfolded lock]
  consider (blocked) "n (cell t) \<noteq> 0"
    | (buffered) "n (cell t) = 0" "\<not> is_task_runnable ?s \<or> fb"
    | (runs) "n (cell t) = 0" "is_task_runnable ?s" "\<not> fb" by blast
  then show ?thesis
  proof cases
    case blocked
    have "ssm_inv prio rk (insert t A) run ?s"
      using locks h c rdy'(1) [OF blocked] room ready(1) t
      by (auto simp: ssm_inv_def admitted_def counters_ok_def)
    with blocked False sched show ?thesis by simp
  next
    case buffered
    let ?s' = "?s\<lparr>unblocked_task_count := Suc (unblocked_task_count s),
      unblocked_task_queue := unblocked_task_queue s @ [t]\<rparr>"
    have "ssm_inv prio rk (insert t A) run ?s'"
      using locks h c rdy'(2) [OF buffered(1)] room ready(1) t
      by (auto simp: ssm_inv_def admitted_def counters_ok_def)
    moreover have "schedule_or_buffer_task s t fb = Some (?s', None)"
      using buffered sched bounds(6) by (simp add: increment_def admitted_def)
    ultimately show ?thesis using False by simp
  next
    case runs
    have lt: "card run < max_running_task_count s" "card run < u32_max"
      "running_task_count s = card run"
      using runs(2) c by (auto simp: is_task_runnable_def admitted_def counters_ok_def)
    let ?s' = "?s\<lparr>running_task_count := Suc (card run)\<rparr>"
    have "ssm_inv prio rk (insert t A) (insert t run) ?s'"
      using locks h c rdy'(3) [OF runs(1)] room ready(1) t fin lt
      by (auto simp: ssm_inv_def admitted_def counters_ok_def)
    moreover have "schedule_or_buffer_task s t fb = Some (?s', Some t)"
      using runs sched lt by (simp add: increment_def admitted_def)
    ultimately show ?thesis using False runs(3) by simp
  qed
qed

lemma schedule_next_law:
  assumes inv: "ssm_inv prio rk A run s"
  shows "\<exists>s' r. schedule_next_unblocked_task s = Some (s', r) \<and>
    ssm_inv prio rk A (run \<union> set_option r) s' \<and>
    (case r of None \<Rightarrow> s' = s \<and> \<not> has_runnable_task s
     | Some t \<Rightarrow> unblocked_task_queue s = t # unblocked_task_queue s')"
proof (cases "has_runnable_task s")
  case False
  then have "schedule_next_unblocked_task s = Some (s, None)"
    by (auto simp: schedule_next_unblocked_task_def has_runnable_task_def has_unblocked_task_def
        split: list.splits)
  with False inv show ?thesis by simp
next
  case True
  then obtain t uq where uq: "unblocked_task_queue s = t # uq"
    by (auto simp: has_runnable_task_def has_unblocked_task_def neq_Nil_conv)
  have c: "counters_ok A run s" and rdy: "ready_ok A run (unblocked_task_queue s) (count_token s)"
    using inv by (simp_all add: ssm_inv_def)
  have lt: "running_task_count s < u32_max" "card run < max_running_task_count s"
    "running_task_count s = card run" and run: "running_task_count s < max_running_task_count s"
    using True c by (auto simp: has_runnable_task_def is_task_runnable_def counters_ok_def)
  let ?s' = "s\<lparr>unblocked_task_queue := uq, running_task_count := Suc (card run),
    unblocked_task_count := Suc (unblocked_task_count s)\<rparr>"
  have "t \<notin> run" "t \<notin> set uq" using rdy by (auto simp: ready_ok_def uq)
  moreover have "finite run" using ssm_inv_ready(1,2) [OF inv] by (rule finite_subset [rotated])
  ultimately have "ssm_inv prio rk A (insert t run) ?s'"
    using inv lt(2) by (auto simp: ssm_inv_def ready_ok_def counters_ok_def uq)
  moreover have "schedule_next_unblocked_task s = Some (?s', Some t)"
    using lt run ssm_inv_bounds(6) [OF inv]
    by (simp add: schedule_next_unblocked_task_def is_task_runnable_def increment_def uq)
  ultimately show ?thesis using uq by auto
qed

lemma hashes_ok_remove:
  assumes "hashes_ok A m hs" and "t \<in> A" and "finite A"
  shows "hashes_ok (A - {t}) m (if m = None then hs else hs - {task_hash t})"
  using assms by (auto simp: hashes_ok_def inj_on_def split: option.splits)

lemma deschedule_law:
  assumes inv: "ssm_inv prio rk A run s" and t: "t \<in> run"
  shows "\<exists>s'. deschedule_task s t = Some s' \<and> ssm_inv prio rk (A - {t}) (run - {t}) s'"
proof -
  note ready = ssm_inv_ready [OF inv] and bounds = ssm_inv_bounds [OF inv]
  have tA: "t \<in> A" using t ready(2) by blast
  have fin: "finite run" using ready(1,2) by (rule finite_subset [rotated])
  have c: "counters_ok A run s" and rdy: "ready_ok A run (unblocked_task_queue s) (count_token s)"
    and h: "hashes_ok A (max_unique_active_task_count s) (unique_active_task_hashes s)"
    and locks: "locks_ok prio rk (active_map A) (usage_queue_token s) (count_token s)"
    and counts: "counts_ok A (usage_queue_token s) (count_token s)"
    using inv by (simp_all add: ssm_inv_def)
  let ?hs = "if max_unique_active_task_count s = None then unique_active_task_hashes s
    else unique_active_task_hashes s - {task_hash t}"
  define s1 where "s1 = s\<lparr>running_task_count := card run - 1, unique_active_task_hashes := ?hs,
    active_task_count := card A - 1, handled_task_count := Suc (handled_task_count s)\<rparr>"
  have pos: "0 < card run" "0 < card A" using t tA fin ready(1) card_gt_0_iff by blast+
  have start: "deschedule_task s t = unlock_usage_queues s1 t"
    using c h pos tA bounds(3) by (auto simp: deschedule_task_def decrement_def increment_def s1_def
        Let_def counters_ok_def hashes_ok_def)
  have "count_token s (cell t) = 0" using t rdy by (auto simp: ready_ok_def)
  then have wt: "wait_at (usage_queue_token s) t = {}"
    using counts tA wait_at_finite [OF locks, of t] by (simp add: counts_ok_def)
  have "ready_ok (A - {t}) (run - {t}) (unblocked_task_queue s) (count_token s)"
    using rdy t by (auto simp: ready_ok_def)
  then have "unlock_inv prio rk (A - {t}) (run - {t}) t (lock_contexts t) s1"
    using locks counts wt by (simp add: unlock_inv_def s1_def insert_absorb [OF tA] counts_ok_def)
  moreover have "wf_ctxs (lock_contexts t)"
    using locks tA by (auto simp: locks_ok_def active_map_def split: if_splits)
  moreover have "card (A - {t}) < u32_max - 1" using bounds(4) tA ready(1) by simp
  ultimately obtain s' where un: "unlock_usage_queues s1 t = Some s'"
    and inv': "unlock_inv prio rk (A - {t}) (run - {t}) t [] s'"
    using unlock_loop_all [of prio rk "A - {t}" "run - {t}" t s1] by auto
  note fields = counters_fields [OF unlock_usage_queues_counters [OF un]]
  have "counters_ok (A - {t}) (run - {t}) s'"
    using c fields pos t tA fin ready(1) by (auto simp: counters_ok_def s1_def)
  moreover have "hashes_ok (A - {t}) (max_unique_active_task_count s') (unique_active_task_hashes s')"
    using hashes_ok_remove [OF h tA ready(1)] fields by (simp add: s1_def)
  ultimately have "ssm_inv prio rk (A - {t}) (run - {t}) s'"
    using unlock_inv_finish [OF inv'] by (simp add: ssm_inv_def)
  with start un show ?thesis by simp
qed

lemma progress:
  assumes inv: "ssm_inv prio rk A run s" and "A \<noteq> {}"
  shows "run \<noteq> {} \<or> unblocked_task_queue s \<noteq> []"
proof (rule ccontr)
  assume "\<not> ?thesis"
  then have pos: "0 < count_token s (cell x)" if "x \<in> A" for x
    using inv that by (auto simp: ssm_inv_def ready_ok_def)
  have locks: "locks_ok prio rk (active_map A) (usage_queue_token s) (count_token s)"
    and counts: "counts_ok A (usage_queue_token s) (count_token s)"
    using inv by (simp_all add: ssm_inv_def)
  define x where "x = arg_min_on rk A"
  have x: "x \<in> A" and least: "\<And>y. y \<in> A \<Longrightarrow> rk x \<le> rk y"
    unfolding x_def using ssm_inv_ready(1) [OF inv] \<open>A \<noteq> {}\<close>
    by (auto intro: arg_min_if_finite arg_min_least)
  from pos [OF x] counts x have "wait_at (usage_queue_token s) x \<noteq> {}"
    by (auto simp: counts_ok_def)
  then obtain a where "x \<in> waiting (usage_queue_token s a)" by (auto simp: wait_at_def)
  then obtain h where h: "h \<in> holders (claims_at (active_map A) a) (usage_queue_token s a)"
    and "rk h < rk x \<or> count_token s (cell h) = 0"
    by (rule waiting_has_holder [OF locks_queue_ok [OF locks]])
  moreover have "h \<in> A" using h dom_claims_at [of "active_map A" a] by (auto simp: holders_def)
  ultimately show False using least [of h] pos [of h] by auto
qed

lemma queue_ok_unclaimed:
  assumes "queue_ok rk c n q" and "dom c = {}"
  shows "q = new_usage_queue (if is_Priority q then PriorityQueueing else FifoQueueing)"
proof -
  have "waiting q = {}" using assms waiting_subset [of rk c n q] by (simp add: queue_ok_def)
  then have "blocked q = []" by (simp add: waiting_def)
  moreover have "usage_ok c q" using assms by (simp add: queue_ok_def queue_inv_def)
  then have "current_usage q = None"
    using assms(2) by (auto simp: usage_ok_def holders_def split: option.splits requested_usage.splits)
  ultimately show ?thesis
    by (cases q) (simp_all add: with_fifo_def with_priority_def)
qed

lemma reinitialize_law:
  assumes inv: "ssm_inv prio rk A {} s"
  shows "reinitialize s \<noteq> None \<longleftrightarrow> A = {}"
    and "reinitialize s = Some s' \<Longrightarrow> ssm_inv prio rk {} {} s'"
proof -
  have fin: "finite A" by (rule ssm_inv_ready(1) [OF inv])
  have c: "active_task_count s = card A" "running_task_count s = 0"
    using inv by (auto simp: ssm_inv_def counters_ok_def)
  have "unblocked_task_queue s = []" "card (unique_active_task_hashes s) = 0" if "A = {}"
    using that inv by (auto simp: ssm_inv_def ready_ok_def hashes_ok_def split: option.splits)
  then show iff: "reinitialize s \<noteq> None \<longleftrightarrow> A = {}"
    using c fin by (auto simp: reinitialize_def has_no_active_task_def)
  assume "reinitialize s = Some s'"
  moreover from this iff have "A = {}" by auto
  ultimately show "ssm_inv prio rk {} {} s'"
    using inv by (auto simp: reinitialize_def ssm_inv_def counters_ok_def max_session_tasks_def
        split: if_splits)
qed

lemma deschedule_max_running:
  "deschedule_task s t = Some s' \<Longrightarrow> max_running_task_count s' = max_running_task_count s"
  by (auto simp: deschedule_task_def Let_def dest!: unlock_usage_queues_counters counters_fields
      elim!: bind_eq_SomeE split: if_splits)

lemma schedule_next_max_running:
  "schedule_next_unblocked_task s = Some (s', r) \<Longrightarrow>
   max_running_task_count s' = max_running_task_count s"
  by (auto simp: schedule_next_unblocked_task_def split: if_splits list.splits Option.bind_splits)

lemma clear_loop_law:
  assumes "ssm_inv prio rk A {} s" and "0 < max_running_task_count s" and "k + card A \<le> u32_max"
  shows "\<exists>s'. clear_loop s k = Some (s', k + card A) \<and> ssm_inv prio rk {} {} s'"
  using assms
proof (induction "card A" arbitrary: A s k)
  case 0
  then have A: "A = {}" using ssm_inv_ready(1) [OF 0(2)] by simp
  then have "unblocked_task_queue s = []" using ssm_inv_ready(3) [OF 0(2)] by simp
  then have "clear_round s k = Some (s, k, False)"
    by (simp add: clear_round_def schedule_next_unblocked_task_def)
  then have "clear_loop s k = Some (s, k)" by (subst clear_loop.simps) simp
  with A 0(2) show ?case by simp
next
  case (Suc m)
  have "A \<noteq> {}" using Suc(2) by auto
  then have "unblocked_task_queue s \<noteq> []" using progress [OF Suc(3)] by auto
  moreover have "running_task_count s = 0" using Suc(3) by (simp add: ssm_inv_def counters_ok_def)
  ultimately have "has_runnable_task s"
    using Suc(4) by (simp add: has_runnable_task_def has_unblocked_task_def is_task_runnable_def)
  with schedule_next_law [OF Suc(3)] obtain s1 t where
    next': "schedule_next_unblocked_task s = Some (s1, Some t)" and inv1: "ssm_inv prio rk A {t} s1"
    by (auto split: option.splits)
  from deschedule_law [OF inv1, of t] obtain s2 where
    des: "deschedule_task s1 t = Some s2" and inv2: "ssm_inv prio rk (A - {t}) {} s2" by auto
  have "t \<in> A" "finite A" using ssm_inv_ready(1,2) [OF inv1] by auto
  then have card: "m = card (A - {t})" using Suc(2) by simp
  have "0 < max_running_task_count s2"
    using deschedule_max_running [OF des] schedule_next_max_running [OF next'] Suc(4) by simp
  with Suc(1) [OF card inv2, of "Suc k"] Suc(2,5) card obtain s' where
    loop: "clear_loop s2 (Suc k) = Some (s', Suc k + m)" and inv': "ssm_inv prio rk {} {} s'" by auto
  have "clear_round s k = Some (s2, Suc k, True)"
    using Suc(2,5) by (simp add: clear_round_def next' des increment_def)
  then have "clear_loop s k = Some (s', k + card A)"
    using loop Suc(2) by (subst clear_loop.simps) simp
  with inv' show ?case by blast
qed

lemma clear_and_reinitialize_law:
  assumes inv: "ssm_inv prio rk A {} s" and "0 < max_running_task_count s"
  shows "\<exists>s'. clear_and_reinitialize s = Some (s', card A) \<and> ssm_inv prio rk {} {} s'"
proof -
  have "card A \<le> u32_max" using ssm_inv_bounds(4) [OF inv] by simp
  with clear_loop_law [OF assms, of 0] obtain s1 where
    loop: "clear_loop s 0 = Some (s1, card A)" and inv1: "ssm_inv prio rk {} {} s1" by auto
  from reinitialize_law(1) [OF inv1] obtain s' where re: "reinitialize s1 = Some s'" by auto
  with loop reinitialize_law(2) [OF inv1 re] show ?thesis
    by (simp add: clear_and_reinitialize_def)
qed


section \<open>The transition system\<close>

text \<open>
  The obligations the documentation of \<open>create_task\<close> and of the state machine puts on the
  caller: no duplicate account keys, one queue per address, a counter cell of its own, and
  (for priority queues) an id no other active task has.
\<close>

definition arrival_ok ::
  "config \<Rightarrow> runtime_transaction \<Rightarrow> ordered_task_id \<Rightarrow> (pubkey \<Rightarrow> queue_ref) \<Rightarrow> count_ref \<Rightarrow> bool" where
  "arrival_ok cfg tx tid loader c =
     (distinct (account_keys tx) \<and> inj_on loader (set (account_keys tx)) \<and>
      length (account_keys tx) < u32_max \<and> c \<notin> cell ` active_tasks cfg \<and>
      (is_prio cfg \<longrightarrow> tid \<notin> task_id ` active_tasks cfg) \<and>
      Suc (total_task_count (machine cfg)) < max_session_tasks)"

definition after_arrival :: "config \<Rightarrow> task \<Rightarrow> ssm \<Rightarrow> task option \<Rightarrow> config" where
  "after_arrival cfg t s' r =
     (if drops (machine cfg) t then cfg\<lparr>machine := s'\<rparr>
      else cfg\<lparr>machine := s', active_tasks := insert t (active_tasks cfg),
               running_tasks := running_tasks cfg \<union> set_option r,
               arrival := (arrival cfg)(t := arrivals cfg), arrivals := Suc (arrivals cfg)\<rparr>)"

inductive sched_step :: "config \<Rightarrow> config \<Rightarrow> bool" where
  arrive: "sched_step cfg (after_arrival cfg t s' r)"
  if "arrival_ok cfg tx tid loader c"
    and "do_create_task tx tid bs ep alt loader c (count_token (machine cfg)) = (t, n)"
    and "schedule_or_buffer_task ((machine cfg)\<lparr>count_token := n\<rparr>) t fb = Some (s', r)"
| next_unblocked: "sched_step cfg
    (cfg\<lparr>machine := s', running_tasks := running_tasks cfg \<union> set_option r\<rparr>)"
  if "schedule_next_unblocked_task (machine cfg) = Some (s', r)"
| finish: "sched_step cfg
    (cfg\<lparr>machine := s', active_tasks := active_tasks cfg - {t},
         running_tasks := running_tasks cfg - {t}\<rparr>)"
  if "t \<in> running_tasks cfg" and "deschedule_task (machine cfg) t = Some s'"
| reset: "sched_step cfg (cfg\<lparr>machine := s'\<rparr>)"
  if "running_tasks cfg = {}" and "reinitialize (machine cfg) = Some s'"
| clear: "sched_step cfg (cfg\<lparr>machine := s', active_tasks := {}\<rparr>)"
  if "running_tasks cfg = {}" and "0 < max_running_task_count (machine cfg)"
    and "clear_and_reinitialize (machine cfg) = Some (s', k)"

definition sched_init :: "config \<Rightarrow> bool" where
  "sched_init cfg =
     ((\<exists>max_running max_unique n.
         exclusively_initialize_current_thread_for_scheduling max_running max_unique
           (\<lambda>_. new_usage_queue (capability_of cfg)) n = Some (machine cfg)) \<and>
      active_tasks cfg = {} \<and> running_tasks cfg = {} \<and> arrivals cfg = 0)"

definition config_inv :: "config \<Rightarrow> bool" where
  "config_inv cfg =
     (ssm_inv (is_prio cfg) (rank cfg) (active_tasks cfg) (running_tasks cfg) (machine cfg) \<and>
      (\<forall>x \<in> active_tasks cfg. arrival cfg x < arrivals cfg))"

lemma create_task_fields:
  assumes "do_create_task tx tid bs ep alt loader c n0 = (t, n)"
  shows "cell t = c" and "task_id t = tid" and "n = n0(c := 0)"
    and "map usage_queue (lock_contexts t) = map loader (account_keys tx)"
  using assms
  by (auto simp: do_create_task_def split_def list_eq_iff_nth_eq nth_enumerate_eq)

lemma create_task_wf:
  assumes "do_create_task tx tid bs ep alt loader c n0 = (t, n)" and "distinct (account_keys tx)"
    and "inj_on loader (set (account_keys tx))" and "length (account_keys tx) < u32_max"
  shows "wf_ctxs (lock_contexts t)"
proof -
  note ctx = create_task_fields(4) [OF assms(1)]
  then have "length (lock_contexts t) = length (account_keys tx)" by (metis length_map)
  with ctx assms(2-4) show ?thesis by (simp add: wf_ctxs_def distinct_map)
qed

lemma ssm_inv_rank_cong:
  assumes "ssm_inv prio rk A run s" and "\<And>x. x \<in> A \<Longrightarrow> rk' x = rk x"
  shows "ssm_inv prio rk' A run s"
  using assms locks_ok_rank_cong [of prio rk "active_map A"] by (auto simp: ssm_inv_def)

lemma ssm_inv_new_cell:
  assumes "ssm_inv prio rk A run s" and "c \<notin> cell ` A"
  shows "ssm_inv prio rk A run (s\<lparr>count_token := (count_token s)(c := 0)\<rparr>)"
proof -
  have same: "((count_token s)(c := 0)) (cell x) = count_token s (cell x)" if "x \<in> A" for x
    using that assms(2) by auto
  have "locks_ok prio rk (active_map A) (usage_queue_token s) ((count_token s)(c := 0))"
    using assms(1) by (auto simp: ssm_inv_def locks_ok_def intro: queue_ok_counts)
  with assms(1) same show ?thesis
    by (auto simp: ssm_inv_def counts_ok_def ready_ok_def counters_ok_def cong: conj_cong)
qed

lemma config_inv_init: "sched_init cfg \<Longrightarrow> config_inv cfg"
proof -
  assume init: "sched_init cfg"
  then obtain max_running max_unique n where
    s: "exclusively_initialize_current_thread_for_scheduling max_running max_unique
      (\<lambda>_. new_usage_queue (capability_of cfg)) n = Some (machine cfg)"
    by (auto simp: sched_init_def)
  have "claims_at (active_map {}) a = (\<lambda>_. None)" for a
    by (auto simp: claims_at_def active_map_def)
  moreover have "is_Priority (new_usage_queue (capability_of cfg)) = is_prio cfg"
    by (cases "capability_of cfg") (simp_all add: is_prio_def with_fifo_def with_priority_def)
  ultimately have "locks_ok (is_prio cfg) (rank cfg) (active_map {}) (\<lambda>_. new_usage_queue (capability_of cfg)) n"
    by (simp add: locks_ok_def queue_ok_new)
  moreover obtain m where "m \<le> u32_max" and
    "machine cfg = \<lparr>unblocked_task_queue = [], active_task_count = 0, peak_active_task_count = 0,
       dropped_task_count = 0, max_unique_active_task_count = max_unique,
       unique_active_task_hashes = {}, running_task_count = 0, max_running_task_count = m,
       handled_task_count = 0, unblocked_task_count = 0, total_task_count = 0, count_token = n,
       usage_queue_token = \<lambda>_. new_usage_queue (capability_of cfg)\<rparr>"
    using s by (auto simp: exclusively_initialize_current_thread_for_scheduling_def Let_def
        split: if_splits)
  moreover have "hashes_ok {} max_unique {}" by (simp add: hashes_ok_def split: option.splits)
  ultimately show ?thesis
    using init by (simp add: config_inv_def ssm_inv_def sched_init_def counts_ok_def ready_ok_def
        counters_ok_def max_session_tasks_def)
qed

lemma drops_count_token [simp]: "drops (s\<lparr>count_token := n\<rparr>) t = drops s t"
  by (cases "max_unique_active_task_count s") (simp_all add: drops_def)

lemma is_prio_simps [simp]:
  "is_prio (cfg\<lparr>machine := s\<rparr>) = is_prio cfg" "is_prio (cfg\<lparr>active_tasks := A\<rparr>) = is_prio cfg"
  "is_prio (cfg\<lparr>running_tasks := R\<rparr>) = is_prio cfg" "is_prio (cfg\<lparr>arrival := ar\<rparr>) = is_prio cfg"
  "is_prio (cfg\<lparr>arrivals := k\<rparr>) = is_prio cfg"
  by (simp_all add: is_prio_def)

lemma rank_simps [simp]:
  "rank (cfg\<lparr>machine := s\<rparr>) = rank cfg" "rank (cfg\<lparr>active_tasks := A\<rparr>) = rank cfg"
  "rank (cfg\<lparr>running_tasks := R\<rparr>) = rank cfg" "rank (cfg\<lparr>arrivals := k\<rparr>) = rank cfg"
  "rank (cfg\<lparr>machine := s, active_tasks := A, running_tasks := R, arrival := ar\<rparr>) =
     rank (cfg\<lparr>arrival := ar\<rparr>)"
  by (simp_all add: rank_def fun_eq_iff)

text \<open>An arrival that keeps the protocol is served, and the invariant holds afterwards.\<close>

lemma arrival_law:
  assumes inv: "config_inv cfg" and ok: "arrival_ok cfg tx tid loader c"
    and create: "do_create_task tx tid bs ep alt loader c (count_token (machine cfg)) = (t, n)"
  shows "\<exists>s' r. schedule_or_buffer_task ((machine cfg)\<lparr>count_token := n\<rparr>) t fb = Some (s', r) \<and>
    config_inv (after_arrival cfg t s' r)"
proof -
  let ?A = "active_tasks cfg" and ?s = "(machine cfg)\<lparr>count_token := n\<rparr>"
  note t = create_task_fields [OF create]
  have c: "c \<notin> cell ` ?A" using ok by (simp add: arrival_ok_def)
  have tA: "t \<notin> ?A" using c t(1) by auto
  let ?cfg = "cfg\<lparr>arrival := (arrival cfg)(t := arrivals cfg)\<rparr>"
  have rank: "rank ?cfg x = rank cfg x" if "x \<in> ?A" for x
    using that tA by (auto simp: rank_def is_prio_def)
  have old: "ssm_inv (is_prio cfg) (rank cfg) ?A (running_tasks cfg) ?s"
    using inv ssm_inv_new_cell [OF _ c] by (simp add: config_inv_def t(3))
  have inv0: "ssm_inv (is_prio cfg) (rank ?cfg) ?A (running_tasks cfg) ?s"
    by (rule ssm_inv_rank_cong [OF old rank])
  have lt: "\<forall>x \<in> ?A. arrival cfg x < arrivals cfg" using inv by (simp add: config_inv_def)
  have wf: "wf_ctxs (lock_contexts t)"
    using ok by (intro create_task_wf [OF create]) (simp_all add: arrival_ok_def)
  have "rank ?cfg t \<notin> rank ?cfg ` ?A"
    using ok lt tA t(2) by (auto simp: rank_def is_prio_def arrival_ok_def image_iff)
  then have adm: "admissible (is_prio cfg) (rank ?cfg) ?A t"
    using tA wf c lt t(1) unfolding admissible_def by (auto simp: rank_def is_prio_def)
  have zero: "count_token ?s (cell t) = 0" by (simp add: t)
  have room: "Suc (total_task_count ?s) < max_session_tasks" using ok by (simp add: arrival_ok_def)
  from schedule_law [OF inv0 adm zero room, of fb] obtain s' r where
    call: "schedule_or_buffer_task ?s t fb = Some (s', r)"
    and res: "if drops (machine cfg) t then ssm_inv (is_prio cfg) (rank ?cfg) ?A (running_tasks cfg) s'
      else ssm_inv (is_prio cfg) (rank ?cfg) (insert t ?A) (running_tasks cfg \<union> set_option r) s'"
    by (auto split: if_splits)
  have "config_inv (after_arrival cfg t s' r)"
  proof (cases "drops (machine cfg) t")
    case True
    then have "ssm_inv (is_prio cfg) (rank cfg) ?A (running_tasks cfg) s'"
      using res ssm_inv_rank_cong [of _ "rank ?cfg" ?A _ s' "rank cfg"] rank by simp
    with True lt show ?thesis by (simp add: config_inv_def after_arrival_def)
  next
    case False
    with res lt show ?thesis by (auto simp: config_inv_def after_arrival_def less_SucI)
  qed
  with call show ?thesis by blast
qed

lemma config_inv_step: "config_inv cfg \<Longrightarrow> sched_step cfg cfg' \<Longrightarrow> config_inv cfg'"
proof -
  assume inv: "config_inv cfg" and "sched_step cfg cfg'"
  have ssm: "ssm_inv (is_prio cfg) (rank cfg) (active_tasks cfg) (running_tasks cfg) (machine cfg)"
    and lt: "\<forall>x \<in> active_tasks cfg. arrival cfg x < arrivals cfg"
    using inv by (simp_all add: config_inv_def)
  from \<open>sched_step cfg cfg'\<close> show ?thesis
  proof cases
    case (arrive tx tid loader c bs ep alt t n fb s' r)
    with arrival_law [OF inv arrive(2,3), of fb] show ?thesis by auto
  next
    case (next_unblocked s' r)
    with schedule_next_law [OF ssm] lt show ?thesis by (auto simp: config_inv_def)
  next
    case (finish t s')
    with deschedule_law [OF ssm finish(2)] lt show ?thesis by (auto simp: config_inv_def)
  next
    case (reset s')
    note empty = ssm [unfolded reset(2)]
    have "active_tasks cfg = {}" using reinitialize_law(1) [OF empty] reset(3) by auto
    with reset reinitialize_law(2) [OF empty reset(3)] show ?thesis by (simp add: config_inv_def)
  next
    case (clear s' k)
    note empty = ssm [unfolded clear(2)]
    from clear_and_reinitialize_law [OF empty clear(3)] clear show ?thesis
      by (auto simp: config_inv_def)
  qed
qed

interpretation scheduler: invariant_system sched_init sched_step config_inv
  by unfold_locales (auto intro: config_inv_init config_inv_step)

end
