(* ===== verification/Scheduler_Props.thy ===== *)
theory Scheduler_Props
  imports Scheduler_System
begin

text \<open>
  The properties of the unified scheduler's state machine, for every configuration its
  protocol-abiding callers can reach, and a concrete run on which they are exercised.
\<close>

section \<open>Consequences of the invariant\<close>

lemma claims_at_context:
  assumes "locks_ok prio rk (active_map A) Q n" and "t \<in> A" and "ctx \<in> set (lock_contexts t)"
  shows "claims_at (active_map A) (usage_queue ctx) t = Some (requested_usage ctx)"
proof -
  have "wf_ctxs (lock_contexts t)"
    using assms(1,2) by (auto simp: locks_ok_def active_map_def split: if_splits)
  with assms(2,3) show ?thesis
    by (auto simp: claims_at_def active_map_def addr_claims_def wf_ctxs_def comp_def
        intro!: map_of_is_SomeI)
qed

text \<open>A task that waits nowhere holds every address it has a context for.\<close>

lemma ready_holds:
  assumes inv: "ssm_inv prio rk A run s" and t: "t \<in> run \<union> set (unblocked_task_queue s)"
    and ctx: "ctx \<in> set (lock_contexts t)"
  shows "t \<in> holders (claims_at (active_map A) (usage_queue ctx)) (usage_queue_token s (usage_queue ctx))"
proof -
  have locks: "locks_ok prio rk (active_map A) (usage_queue_token s) (count_token s)"
    and counts: "counts_ok A (usage_queue_token s) (count_token s)"
    and rdy: "ready_ok A run (unblocked_task_queue s) (count_token s)"
    using inv by (simp_all add: ssm_inv_def)
  have "t \<in> {x \<in> A. count_token s (cell x) = 0}" using t rdy by (auto simp: ready_ok_def)
  then have tA: "t \<in> A" and zero: "count_token s (cell t) = 0" by auto
  then have "wait_at (usage_queue_token s) t = {}"
    using counts wait_at_finite [OF locks, of t] by (simp add: counts_ok_def)
  with claims_at_context [OF locks tA ctx] show ?thesis
    by (auto simp: holders_def wait_at_def)
qed

lemma ready_exclusive:
  assumes inv: "ssm_inv prio rk A run s"
    and "t \<in> run \<union> set (unblocked_task_queue s)" "t' \<in> run \<union> set (unblocked_task_queue s)" "t \<noteq> t'"
    and "ctx \<in> set (lock_contexts t)" "ctx' \<in> set (lock_contexts t')"
    and eq: "usage_queue ctx = usage_queue ctx'"
  shows "requested_usage ctx = Readonly \<and> requested_usage ctx' = Readonly"
proof -
  have locks: "locks_ok prio rk (active_map A) (usage_queue_token s) (count_token s)"
    using inv by (simp add: ssm_inv_def)
  have "t \<in> A" "t' \<in> A" using assms(2,3) ssm_inv_ready(2,3) [OF inv] by auto
  then have "claims_at (active_map A) (usage_queue ctx) t = Some (requested_usage ctx)"
    "claims_at (active_map A) (usage_queue ctx) t' = Some (requested_usage ctx')"
    using claims_at_context [OF locks] assms(5,6) eq by metis+
  with holders_exclusive [OF locks_queue_inv [OF locks], of t "usage_queue ctx" t']
    ready_holds [OF inv assms(2,5)] ready_holds [OF inv assms(3,6)] eq \<open>t \<noteq> t'\<close>
  show ?thesis by simp
qed

lemma fifo_ready_order:
  assumes inv: "ssm_inv False rk A run s" and t: "t \<in> A" "t' \<in> A" "rk t < rk t'"
    and ctx: "ctx \<in> set (lock_contexts t)" "ctx' \<in> set (lock_contexts t')"
    and eq: "usage_queue ctx = usage_queue ctx'"
    and conflict: "requested_usage ctx = Writable \<or> requested_usage ctx' = Writable"
  shows "t' \<notin> run \<union> set (unblocked_task_queue s)"
proof
  assume t': "t' \<in> run \<union> set (unblocked_task_queue s)"
  let ?a = "usage_queue ctx"
  have locks: "locks_ok False rk (active_map A) (usage_queue_token s) (count_token s)"
    using inv by (simp add: ssm_inv_def)
  note qinv = locks_queue_inv [OF locks, of ?a]
  have claims: "claims_at (active_map A) ?a t = Some (requested_usage ctx)"
    "claims_at (active_map A) ?a t' = Some (requested_usage ctx')"
    using claims_at_context [OF locks] t ctx eq by metis+
  have h': "t' \<in> holders (claims_at (active_map A) ?a) (usage_queue_token s ?a)"
    using ready_holds [OF inv t' ctx(2)] eq by simp
  have "\<not> is_Priority (usage_queue_token s ?a)" using locks by (simp add: locks_ok_def)
  then have "t \<notin> waiting (usage_queue_token s ?a)"
    using fifo_holders_first [OF qinv _ h', of t] t(3) by auto
  then have "t \<in> holders (claims_at (active_map A) ?a) (usage_queue_token s ?a)"
    using claims(1) by (simp add: holders_def domIff)
  moreover have "t \<noteq> t'" using t(3) by auto
  ultimately show False using holders_exclusive [OF qinv _ h', of t] claims conflict by auto
qed

lemma idle_queues_new:
  assumes "ssm_inv prio rk {} {} s"
  shows "usage_queue_token s a = new_usage_queue (if prio then PriorityQueueing else FifoQueueing)"
proof -
  have locks: "locks_ok prio rk (active_map {}) (usage_queue_token s) (count_token s)"
    using assms by (simp add: ssm_inv_def)
  have "dom (claims_at (active_map {}) a) = {}" using dom_claims_at [of "active_map {}" a] by simp
  from queue_ok_unclaimed [OF locks_queue_ok [OF locks] this] locks show ?thesis
    by (simp add: locks_ok_def)
qed


section \<open>A concrete run\<close>

text \<open>
  Tasks over one account: two readers are running and a writer queues behind them; the
  same machine with one task buffered but not running.
\<close>

definition demo_tx :: "nat \<Rightarrow> bool \<Rightarrow> runtime_transaction" where
  "demo_tx h w = \<lparr>message_hash = h, account_keys = [7], writable_flags = [w]\<rparr>"

definition demo_task :: "nat \<Rightarrow> bool \<Rightarrow> task" where
  "demo_task i w = fst (do_create_task (demo_tx i w) i 0 0 0 id i (\<lambda>_. 0))"

definition demo_init :: "capability \<Rightarrow> nat option \<Rightarrow> config" where
  "demo_init cap max_unique =
     \<lparr>machine = the (exclusively_initialize_current_thread_for_scheduling None max_unique
                      (\<lambda>_. new_usage_queue cap) (\<lambda>_. 0)),
      capability_of = cap, active_tasks = {}, running_tasks = {}, arrival = (\<lambda>_. 0), arrivals = 0\<rparr>"

definition demo_arrive :: "nat \<Rightarrow> bool \<Rightarrow> bool \<Rightarrow> config \<Rightarrow> config" where
  "demo_arrive i w fb cfg =
     (let (t, n) = do_create_task (demo_tx i w) i 0 0 0 id i (count_token (machine cfg));
          (s', r) = the (schedule_or_buffer_task ((machine cfg)\<lparr>count_token := n\<rparr>) t fb)
      in after_arrival cfg t s' r)"

definition demo_busy :: config where
  "demo_busy = demo_arrive 2 True False (demo_arrive 1 False False
     (demo_arrive 0 False False (demo_init FifoQueueing None)))"

definition demo_buffered :: config where
  "demo_buffered = demo_arrive 0 True True (demo_init PriorityQueueing (Some 5))"

lemma demo_init_ok: "sched_init (demo_init cap max_unique)"
proof -
  have "exclusively_initialize_current_thread_for_scheduling None max_unique
      (\<lambda>_. new_usage_queue cap) (\<lambda>_. 0) = Some (machine (demo_init cap max_unique))"
    by (simp add: demo_init_def exclusively_initialize_current_thread_for_scheduling_def)
  then show ?thesis by (auto simp: sched_init_def demo_init_def)
qed

lemma demo_arrive_step:
  assumes "config_inv cfg" and "arrival_ok cfg (demo_tx i w) i id i"
  shows "sched_step cfg (demo_arrive i w fb cfg)"
proof -
  obtain t n where create: "do_create_task (demo_tx i w) i 0 0 0 id i (count_token (machine cfg)) = (t, n)"
    by fastforce
  from arrival_law [OF assms create, of fb] obtain s' r where
    call: "schedule_or_buffer_task ((machine cfg)\<lparr>count_token := n\<rparr>) t fb = Some (s', r)" by blast
  then show ?thesis
    using sched_step.arrive [OF assms(2) create call] by (simp add: demo_arrive_def create)
qed

lemmas demo_eval = demo_arrive_def do_create_task_def demo_tx_def is_writable_def after_arrival_def
  drops_def schedule_or_buffer_task_def increment_def u32_max_def is_task_runnable_def
  try_lock_usage_queues_def lock_usage_queue_def set_blocked_usage_count_def push_blocked_def
  enumerate_eq_zip Let_def demo_task_def with_fifo_def with_priority_def

lemma demo_init_eval:
  "demo_init cap mu =
     \<lparr>machine = \<lparr>unblocked_task_queue = [], active_task_count = 0, peak_active_task_count = 0,
        dropped_task_count = 0, max_unique_active_task_count = mu, unique_active_task_hashes = {},
        running_task_count = 0, max_running_task_count = 2 ^ 32 - 1, handled_task_count = 0,
        unblocked_task_count = 0, total_task_count = 0, count_token = (\<lambda>_. 0),
        usage_queue_token = (\<lambda>_. new_usage_queue cap)\<rparr>,
      capability_of = cap, active_tasks = {}, running_tasks = {}, arrival = (\<lambda>_. 0), arrivals = 0\<rparr>"
  by (simp add: demo_init_def exclusively_initialize_current_thread_for_scheduling_def u32_max_def)

lemma demo_arrive_reach:
  assumes "sched_step\<^sup>*\<^sup>* (demo_init cap mu) cfg" and "arrival_ok cfg (demo_tx i w) i id i"
  shows "sched_step\<^sup>*\<^sup>* (demo_init cap mu) (demo_arrive i w fb cfg)"
  using assms scheduler.inv_reachable [OF demo_init_ok assms(1)]
  by (blast intro: rtranclp.rtrancl_into_rtrancl demo_arrive_step)

lemma demo_arrival_ok:
  "arrival_ok (demo_init cap mu) (demo_tx i w) i id i"
  "arrival_ok (demo_arrive 0 False False (demo_init FifoQueueing None)) (demo_tx 1 w) 1 id 1"
  "arrival_ok (demo_arrive 1 False False (demo_arrive 0 False False (demo_init FifoQueueing None)))
     (demo_tx 2 w) 2 id 2"
  by (simp_all add: arrival_ok_def demo_init_eval demo_eval max_session_tasks_def is_prio_def)

lemma demo_busy_reachable: "sched_step\<^sup>*\<^sup>* (demo_init FifoQueueing None) demo_busy"
  unfolding demo_busy_def
  by (intro demo_arrive_reach demo_arrival_ok rtranclp.rtrancl_refl)

lemma demo_buffered_reachable: "sched_step\<^sup>*\<^sup>* (demo_init PriorityQueueing (Some 5)) demo_buffered"
  unfolding demo_buffered_def
  by (intro demo_arrive_reach demo_arrival_ok rtranclp.rtrancl_refl)

lemma demo_busy_eval:
  "running_tasks demo_busy = {demo_task 0 False, demo_task 1 False}"
  "active_tasks demo_busy = {demo_task 0 False, demo_task 1 False, demo_task 2 True}"
  "arrival demo_busy (demo_task 0 False) = 0" "arrival demo_busy (demo_task 2 True) = 2"
  "capability_of demo_busy = FifoQueueing" "active_task_count (machine demo_busy) = 3"
  "usage_queue_token (machine demo_busy) 7 = Fifo (Some (ReadonlyU 2)) [(Writable, demo_task 2 True)]"
  by (auto simp: demo_busy_def demo_init_eval demo_eval)

lemma demo_buffered_eval:
  "running_tasks demo_buffered = {}" "active_tasks demo_buffered = {demo_task 0 True}"
  "0 < max_running_task_count (machine demo_buffered)" "active_task_count (machine demo_buffered) = 1"
  "max_unique_active_task_count (machine demo_buffered) = Some 5"
  by (simp_all add: demo_buffered_def demo_init_eval demo_eval)

lemma demo_task_eval:
  "lock_contexts (demo_task i w) =
     [\<lparr>usage_queue = 7, requested_usage = (if w then Writable else Readonly)\<rparr>]"
  "task_id (demo_task i w) = i" "demo_task i w = demo_task j w' \<longleftrightarrow> i = j \<and> w = w'"
  by (auto simp: demo_eval)


lemma conflicting_ready_demo:
  "demo_task 2 True \<notin> running_tasks demo_busy \<union> set (unblocked_task_queue (machine demo_busy))"
  by (simp add: demo_busy_def demo_init_eval demo_eval)


section \<open>Properties\<close>

text \<open>
  C1. Mutual exclusion. In every reachable configuration, two different running tasks that
  both have a lock context on the same address only read it.
\<close>

theorem running_tasks_never_conflict:
  assumes "sched_init cfg0" and "sched_step\<^sup>*\<^sup>* cfg0 cfg"
    and "t \<in> running_tasks cfg" and "t' \<in> running_tasks cfg" and "t \<noteq> t'"
    and "ctx \<in> set (lock_contexts t)" and "ctx' \<in> set (lock_contexts t')"
    and "usage_queue ctx = usage_queue ctx'"
  shows "requested_usage ctx = Readonly \<and> requested_usage ctx' = Readonly"
proof -
  have "ssm_inv (is_prio cfg) (rank cfg) (active_tasks cfg) (running_tasks cfg) (machine cfg)"
    using scheduler.inv_reachable [OF assms(1,2)] by (simp add: config_inv_def)
  from ready_exclusive [OF this _ _ assms(5-8)] assms(3,4) show ?thesis by simp
qed

theorem running_tasks_never_conflict_witness:
  "demo_task 0 False \<in> running_tasks demo_busy \<and> demo_task 1 False \<in> running_tasks demo_busy \<and>
   (\<exists>ctx ctx'. ctx \<in> set (lock_contexts (demo_task 0 False)) \<and>
      ctx' \<in> set (lock_contexts (demo_task 1 False)) \<and> usage_queue ctx = usage_queue ctx' \<and>
      requested_usage ctx = Readonly \<and> requested_usage ctx' = Readonly)"
  using running_tasks_never_conflict [OF demo_init_ok demo_busy_reachable,
      of "demo_task 0 False" "demo_task 1 False"]
  by (simp add: demo_busy_eval demo_task_eval)

text \<open>
  C2. Replay determinism. With FIFO queueing, a task is neither running nor runnable while
  an active task that arrived earlier has a conflicting lock context, so conflicting
  transactions execute in arrival order.
\<close>

theorem conflicting_tasks_run_in_arrival_order:
  assumes "sched_init cfg0" and "sched_step\<^sup>*\<^sup>* cfg0 cfg" and "capability_of cfg = FifoQueueing"
    and "t \<in> active_tasks cfg" and "t' \<in> active_tasks cfg" and "arrival cfg t < arrival cfg t'"
    and "ctx \<in> set (lock_contexts t)" and "ctx' \<in> set (lock_contexts t')"
    and "usage_queue ctx = usage_queue ctx'"
    and "requested_usage ctx = Writable \<or> requested_usage ctx' = Writable"
  shows "t' \<notin> running_tasks cfg \<and> t' \<notin> set (unblocked_task_queue (machine cfg))"
proof -
  have "\<not> is_prio cfg" using assms(3) by (simp add: is_prio_def)
  then have "ssm_inv False (rank cfg) (active_tasks cfg) (running_tasks cfg) (machine cfg)"
    using scheduler.inv_reachable [OF assms(1,2)] by (simp add: config_inv_def)
  moreover have "rank cfg t < rank cfg t'" using assms(6) \<open>\<not> is_prio cfg\<close> by (simp add: rank_def)
  ultimately show ?thesis using fifo_ready_order assms(4,5,7-10) by (metis UnI1 UnI2)
qed

theorem conflicting_tasks_run_in_arrival_order_witness:
  "arrival demo_busy (demo_task 0 False) < arrival demo_busy (demo_task 2 True) \<and>
   demo_task 2 True \<in> active_tasks demo_busy \<and> demo_task 2 True \<notin> running_tasks demo_busy \<and>
   demo_task 2 True \<notin> set (unblocked_task_queue (machine demo_busy))"
  using conflicting_tasks_run_in_arrival_order [OF demo_init_ok demo_busy_reachable,
      of "demo_task 0 False" "demo_task 2 True"]
  by (simp add: demo_busy_eval demo_task_eval)

text \<open>
  C3. Deadlock freedom. In every reachable configuration with an active task, some task is
  running or ready to be taken by \<open>schedule_next_unblocked_task\<close>; this holds for both
  queueing disciplines, however the tasks block and reblock each other.
\<close>

theorem scheduler_never_deadlocks:
  assumes "sched_init cfg0" and "sched_step\<^sup>*\<^sup>* cfg0 cfg" and "\<not> has_no_active_task (machine cfg)"
  shows "\<not> has_no_running_task (machine cfg) \<or> has_unblocked_task (machine cfg)"
proof -
  have inv: "ssm_inv (is_prio cfg) (rank cfg) (active_tasks cfg) (running_tasks cfg) (machine cfg)"
    using scheduler.inv_reachable [OF assms(1,2)] by (simp add: config_inv_def)
  then have c: "active_task_count (machine cfg) = card (active_tasks cfg)"
    "running_task_count (machine cfg) = card (running_tasks cfg)"
    by (simp_all add: ssm_inv_def counters_ok_def)
  have "active_tasks cfg \<noteq> {}" using assms(3) c by (auto simp: has_no_active_task_def)
  moreover have "finite (running_tasks cfg)"
    using ssm_inv_ready(1,2) [OF inv] by (rule finite_subset [rotated])
  ultimately show ?thesis
    using progress [OF inv] c by (auto simp: has_no_running_task_def has_unblocked_task_def)
qed

theorem scheduler_never_deadlocks_witness:
  "active_task_count (machine demo_buffered) = 1 \<and> has_no_running_task (machine demo_buffered) \<and>
   has_unblocked_task (machine demo_buffered)"
proof -
  have "has_no_running_task (machine demo_buffered)"
    by (simp add: has_no_running_task_def demo_buffered_def demo_init_eval demo_eval)
  with scheduler_never_deadlocks [OF demo_init_ok demo_buffered_reachable] show ?thesis
    by (simp add: has_no_active_task_def demo_buffered_eval)
qed

text \<open>
  C4. No panic. In every reachable configuration, each call a protocol-abiding caller can
  make returns: no counter over- or underflows and none of the assertions, \<open>unwrap\<close>s and
  \<open>unreachable!\<close>s on the paths through the usage queues fires.
\<close>

theorem scheduler_calls_never_panic:
  assumes "sched_init cfg0" and "sched_step\<^sup>*\<^sup>* cfg0 cfg"
  shows "(\<forall>tx tid bs ep alt loader c t n fb. arrival_ok cfg tx tid loader c \<longrightarrow>
      do_create_task tx tid bs ep alt loader c (count_token (machine cfg)) = (t, n) \<longrightarrow>
      schedule_or_buffer_task ((machine cfg)\<lparr>count_token := n\<rparr>) t fb \<noteq> None) \<and>
    schedule_next_unblocked_task (machine cfg) \<noteq> None \<and>
    (\<forall>t \<in> running_tasks cfg. deschedule_task (machine cfg) t \<noteq> None)"
proof (intro conjI)
  have inv: "config_inv cfg" by (rule scheduler.inv_reachable [OF assms])
  then have ssm: "ssm_inv (is_prio cfg) (rank cfg) (active_tasks cfg) (running_tasks cfg) (machine cfg)"
    by (simp add: config_inv_def)
  show "\<forall>tx tid bs ep alt loader c t n fb. arrival_ok cfg tx tid loader c \<longrightarrow>
      do_create_task tx tid bs ep alt loader c (count_token (machine cfg)) = (t, n) \<longrightarrow>
      schedule_or_buffer_task ((machine cfg)\<lparr>count_token := n\<rparr>) t fb \<noteq> None"
    using arrival_law [OF inv] by (metis option.distinct(1))
  show "schedule_next_unblocked_task (machine cfg) \<noteq> None"
    using schedule_next_law [OF ssm] by auto
  show "\<forall>t \<in> running_tasks cfg. deschedule_task (machine cfg) t \<noteq> None"
    using deschedule_law [OF ssm] by (metis option.distinct(1))
qed

theorem scheduler_calls_never_panic_witness:
  "demo_task 0 False \<in> running_tasks demo_busy \<and>
   deschedule_task (machine demo_busy) (demo_task 0 False) \<noteq> None \<and>
   schedule_next_unblocked_task (machine demo_busy) \<noteq> None"
  using scheduler_calls_never_panic [OF demo_init_ok demo_busy_reachable]
  by (simp add: demo_busy_eval)

text \<open>
  C5. The documented guarantee of \<open>create_task\<close>: whenever \<open>has_no_active_task()\<close> holds, the
  state of every usage queue is identical to a newly created one.
\<close>

theorem idle_scheduler_has_pristine_queues:
  assumes "sched_init cfg0" and "sched_step\<^sup>*\<^sup>* cfg0 cfg" and "has_no_active_task (machine cfg)"
  shows "usage_queue_token (machine cfg) a = new_usage_queue (capability_of cfg)"
proof -
  have inv: "ssm_inv (is_prio cfg) (rank cfg) (active_tasks cfg) (running_tasks cfg) (machine cfg)"
    using scheduler.inv_reachable [OF assms(1,2)] by (simp add: config_inv_def)
  have "card (active_tasks cfg) = 0"
    using inv assms(3) by (simp add: ssm_inv_def counters_ok_def has_no_active_task_def)
  then have "active_tasks cfg = {}" using ssm_inv_ready(1) [OF inv] by simp
  moreover from this have "running_tasks cfg = {}" using ssm_inv_ready(2) [OF inv] by simp
  ultimately show ?thesis
    using idle_queues_new [of "is_prio cfg" "rank cfg" "machine cfg" a] inv
    by (cases "capability_of cfg") (simp_all add: is_prio_def)
qed

theorem idle_scheduler_has_pristine_queues_witness:
  "has_no_active_task (machine (demo_init PriorityQueueing None)) \<and>
   usage_queue_token (machine (demo_init PriorityQueueing None)) 7 = new_usage_queue PriorityQueueing"
proof -
  have idle: "has_no_active_task (machine (demo_init PriorityQueueing None))"
    by (simp add: has_no_active_task_def demo_init_eval)
  have cap: "capability_of (demo_init PriorityQueueing None) = PriorityQueueing"
    by (simp add: demo_init_eval)
  from idle_scheduler_has_pristine_queues [OF demo_init_ok rtranclp.rtrancl_refl idle] idle cap
  show ?thesis by simp
qed

text \<open>
  C6. \<open>clear_and_reinitialize\<close> terminates: called when nothing runs (and the machine may run
  at least one task), it returns exactly the number of tasks that were still active, leaves no
  active task, and resets every usage queue, for both queueing disciplines.
\<close>

theorem clear_and_reinitialize_clears:
  assumes "sched_init cfg0" and "sched_step\<^sup>*\<^sup>* cfg0 cfg" and "running_tasks cfg = {}"
    and "0 < max_running_task_count (machine cfg)"
  shows "\<exists>s'. clear_and_reinitialize (machine cfg) = Some (s', active_task_count (machine cfg)) \<and>
    has_no_active_task s' \<and> (\<forall>a. usage_queue_token s' a = new_usage_queue (capability_of cfg))"
proof -
  have inv: "ssm_inv (is_prio cfg) (rank cfg) (active_tasks cfg) {} (machine cfg)"
    using scheduler.inv_reachable [OF assms(1,2)] assms(3) by (simp add: config_inv_def)
  from clear_and_reinitialize_law [OF inv assms(4)] obtain s' where
    call: "clear_and_reinitialize (machine cfg) = Some (s', card (active_tasks cfg))"
    and inv': "ssm_inv (is_prio cfg) (rank cfg) {} {} s'" by blast
  have "active_task_count (machine cfg) = card (active_tasks cfg)" "active_task_count s' = 0"
    using inv inv' by (simp_all add: ssm_inv_def counters_ok_def)
  then show ?thesis
    using call idle_queues_new [OF inv'] by (cases "capability_of cfg")
      (auto simp: has_no_active_task_def is_prio_def)
qed

theorem clear_and_reinitialize_clears_witness:
  "\<exists>s'. clear_and_reinitialize (machine demo_buffered) = Some (s', 1) \<and> has_no_active_task s'"
  using clear_and_reinitialize_clears [OF demo_init_ok demo_buffered_reachable]
  by (auto simp: demo_buffered_eval)

text \<open>
  C7. The counter cell of an active task is exactly the number of addresses at which the task
  is queued, and it is zero exactly for the tasks that are running or in the unblocked queue.
\<close>

theorem blocked_usage_count_is_exact:
  assumes "sched_init cfg0" and "sched_step\<^sup>*\<^sup>* cfg0 cfg" and "t \<in> active_tasks cfg"
  shows "count_token (machine cfg) (blocked_usage_count t) =
      card {a. t \<in> snd ` set (blocked (usage_queue_token (machine cfg) a))} \<and>
    (count_token (machine cfg) (blocked_usage_count t) = 0 \<longleftrightarrow>
      t \<in> running_tasks cfg \<union> set (unblocked_task_queue (machine cfg)))"
proof -
  have inv: "ssm_inv (is_prio cfg) (rank cfg) (active_tasks cfg) (running_tasks cfg) (machine cfg)"
    using scheduler.inv_reachable [OF assms(1,2)] by (simp add: config_inv_def)
  then have "counts_ok (active_tasks cfg) (usage_queue_token (machine cfg)) (count_token (machine cfg))"
    and rdy: "{x \<in> active_tasks cfg. count_token (machine cfg) (cell x) = 0} =
      set (unblocked_task_queue (machine cfg)) \<union> running_tasks cfg"
    by (simp_all add: ssm_inv_def ready_ok_def)
  with assms(3) have "count_token (machine cfg) (cell t) = card (wait_at (usage_queue_token (machine cfg)) t)"
    by (simp add: counts_ok_def)
  moreover have "count_token (machine cfg) (cell t) = 0 \<longleftrightarrow>
      t \<in> running_tasks cfg \<union> set (unblocked_task_queue (machine cfg))"
    using rdy assms(3) by blast
  ultimately show ?thesis by (simp add: wait_at_def waiting_def)
qed

theorem blocked_usage_count_is_exact_witness:
  "demo_task 2 True \<in> active_tasks demo_busy \<and>
   count_token (machine demo_busy) (blocked_usage_count (demo_task 2 True)) \<noteq> 0"
  using blocked_usage_count_is_exact [OF demo_init_ok demo_busy_reachable, of "demo_task 2 True"]
    conflicting_ready_demo
  by (simp add: demo_busy_eval)

end
