(* ===== verification/Account_Locks.thy ===== *)
theory Account_Locks
  imports Agave_Prelude "HOL-Library.Multiset"
begin

text \<open>
  \<open>crates/accounts/accounts-db/src/account_locks.rs\<close>: the read and write lock counts of the
  accounts in use by transaction batches, and the validation of a transaction's keys.
  \<open>locks_rep\<close> relates the two hash maps to the multiset of locks that are held; every
  operation is shown to implement the corresponding operation on that multiset.
\<close>

section \<open>Model\<close>

type_synonym keyed_access = "pubkey \<times> bool"

record account_locks =
  write_locks :: "pubkey \<rightharpoonup> u64"
  readonly_locks :: "pubkey \<rightharpoonup> u64"

definition default_account_locks :: account_locks where
  "default_account_locks = \<lparr>write_locks = Map.empty, readonly_locks = Map.empty\<rparr>"

definition is_locked_readonly :: "account_locks \<Rightarrow> pubkey \<Rightarrow> bool" where
  "is_locked_readonly l k = (case readonly_locks l k of None \<Rightarrow> False | Some c \<Rightarrow> c > 0)"

definition is_locked_write :: "account_locks \<Rightarrow> pubkey \<Rightarrow> bool" where
  "is_locked_write l k = (case write_locks l k of None \<Rightarrow> False | Some c \<Rightarrow> c > 0)"

definition can_read_lock :: "account_locks \<Rightarrow> pubkey \<Rightarrow> bool" where
  "can_read_lock l k = (\<not> is_locked_write l k)"

definition can_write_lock :: "account_locks \<Rightarrow> pubkey \<Rightarrow> bool" where
  "can_write_lock l k = (\<not> is_locked_readonly l k \<and> \<not> is_locked_write l k)"

text \<open>\<open>*entry(key).or_default() += 1\<close> on a \<open>u64\<close> count.\<close>

definition bump :: "(pubkey \<rightharpoonup> u64) \<Rightarrow> pubkey \<Rightarrow> (pubkey \<rightharpoonup> u64)" where
  "bump m k = m(k \<mapsto> (case m k of None \<Rightarrow> 0 | Some c \<Rightarrow> c) + 1)"

definition lock_readonly :: "pubkey \<Rightarrow> account_locks \<Rightarrow> account_locks" where
  "lock_readonly k l = l\<lparr>readonly_locks := bump (readonly_locks l) k\<rparr>"

definition lock_write :: "pubkey \<Rightarrow> account_locks \<Rightarrow> account_locks" where
  "lock_write k l = l\<lparr>write_locks := bump (write_locks l) k\<rparr>"

text \<open>
  The body shared by \<open>unlock_readonly\<close> and \<open>unlock_write\<close>: an occupied entry is
  decremented and removed when it reaches zero; a vacant one only fails a
  \<open>debug_assert!\<close>, which release builds do not have.
\<close>

definition drop_one :: "(pubkey \<rightharpoonup> u64) \<Rightarrow> pubkey \<Rightarrow> (pubkey \<rightharpoonup> u64)" where
  "drop_one m k =
     (case m k of None \<Rightarrow> m | Some c \<Rightarrow> (if c - 1 = 0 then m(k := None) else m(k \<mapsto> c - 1)))"

definition unlock_readonly :: "pubkey \<Rightarrow> account_locks \<Rightarrow> account_locks" where
  "unlock_readonly k l = l\<lparr>readonly_locks := drop_one (readonly_locks l) k\<rparr>"

definition unlock_write :: "pubkey \<Rightarrow> account_locks \<Rightarrow> account_locks" where
  "unlock_write k l = l\<lparr>write_locks := drop_one (write_locks l) k\<rparr>"

primrec can_lock_accounts :: "account_locks \<Rightarrow> keyed_access list \<Rightarrow> unit transaction_result" where
  "can_lock_accounts l [] = Inr ()"
| "can_lock_accounts l (kw # keys) =
     (if snd kw then
        if \<not> can_write_lock l (fst kw) then Inl AccountInUse else can_lock_accounts l keys
      else if \<not> can_read_lock l (fst kw) then Inl AccountInUse
      else can_lock_accounts l keys)"

primrec lock_accounts :: "keyed_access list \<Rightarrow> account_locks \<Rightarrow> account_locks" where
  "lock_accounts [] l = l"
| "lock_accounts (kw # keys) l =
     lock_accounts keys (if snd kw then lock_write (fst kw) l else lock_readonly (fst kw) l)"

primrec unlock_accounts :: "keyed_access list \<Rightarrow> account_locks \<Rightarrow> account_locks" where
  "unlock_accounts [] l = l"
| "unlock_accounts (kw # keys) l =
     unlock_accounts keys (if snd kw then unlock_write (fst kw) l else unlock_readonly (fst kw) l)"

text \<open>
  \<open>try_lock_transaction_batch\<close>: a first pass turns every entry that conflicts with the
  existing locks into an error, a second pass locks the entries that are left.
\<close>

definition check_batch ::
  "account_locks \<Rightarrow> keyed_access list transaction_result list \<Rightarrow>
   keyed_access list transaction_result list" where
  "check_batch l = map (\<lambda>validated.
     case validated of
       Inl e \<Rightarrow> Inl e
     | Inr keys \<Rightarrow> (case can_lock_accounts l keys of Inl e \<Rightarrow> Inl e | Inr _ \<Rightarrow> Inr keys))"

fun lock_batch ::
  "keyed_access list transaction_result list \<Rightarrow> account_locks \<Rightarrow>
   account_locks \<times> unit transaction_result list" where
  "lock_batch [] l = (l, [])"
| "lock_batch (Inl e # rest) l = (let (l', rs) = lock_batch rest l in (l', Inl e # rs))"
| "lock_batch (Inr keys # rest) l =
     (let (l', rs) = lock_batch rest (lock_accounts keys l) in (l', Inr () # rs))"

definition try_lock_transaction_batch ::
  "keyed_access list transaction_result list \<Rightarrow> account_locks \<Rightarrow>
   account_locks \<times> unit transaction_result list" where
  "try_lock_transaction_batch batch l = lock_batch (check_batch l batch) l"

text \<open>\<open>has_duplicates\<close>: a hash set from 32 keys on, all pairs of indices below.\<close>

definition use_account_lock_set_size :: nat where
  "use_account_lock_set_size = 32"

primrec insert_fails :: "pubkey list \<Rightarrow> pubkey set \<Rightarrow> bool" where
  "insert_fails [] seen = False"
| "insert_fails (k # keys) seen = (k \<in> seen \<or> insert_fails keys (insert k seen))"

definition some_pair_equal :: "pubkey list \<Rightarrow> bool" where
  "some_pair_equal keys =
     list_ex (\<lambda>i. list_ex (\<lambda>j. keys ! i = keys ! j) [i + 1..<length keys]) [0..<length keys]"

definition has_duplicates :: "pubkey list \<Rightarrow> bool" where
  "has_duplicates keys =
     (if length keys \<ge> use_account_lock_set_size then insert_fails keys {}
      else some_pair_equal keys)"

definition validate_account_locks :: "pubkey list \<Rightarrow> nat \<Rightarrow> unit transaction_result" where
  "validate_account_locks keys limit =
     (if length keys > limit then Inl TooManyAccountLocks
      else if has_duplicates keys then Inl AccountLoadedTwice
      else Inr ())"


section \<open>The lock table as a multiset of locks\<close>

definition count_of :: "(pubkey \<rightharpoonup> u64) \<Rightarrow> pubkey \<Rightarrow> nat" where
  "count_of m k = (case m k of None \<Rightarrow> 0 | Some c \<Rightarrow> unat c)"

definition no_zero :: "(pubkey \<rightharpoonup> u64) \<Rightarrow> bool" where
  "no_zero m = (\<forall>k. m k \<noteq> Some 0)"

definition locks_rep :: "account_locks \<Rightarrow> keyed_access multiset \<Rightarrow> bool" where
  "locks_rep l M =
     (no_zero (write_locks l) \<and> no_zero (readonly_locks l) \<and>
      (\<forall>k. count_of (write_locks l) k = count M (k, True)) \<and>
      (\<forall>k. count_of (readonly_locks l) k = count M (k, False)))"

definition conflicts :: "keyed_access multiset \<Rightarrow> keyed_access \<Rightarrow> bool" where
  "conflicts M kw = ((fst kw, True) \<in># M \<or> (snd kw \<and> (fst kw, False) \<in># M))"

lemma locks_rep_default: "locks_rep default_account_locks {#}"
  by (simp add: locks_rep_def default_account_locks_def no_zero_def count_of_def)

lemma locks_rep_unique:
  assumes "locks_rep l M" and "locks_rep l' M"
  shows "l = l'"
proof -
  have eq: "m = m'" if "no_zero m" "no_zero m'" "\<forall>k. count_of m k = count_of m' k"
    for m m' :: "pubkey \<rightharpoonup> u64"
  proof
    fix k
    have "m k \<noteq> Some 0" "m' k \<noteq> Some 0" "count_of m k = count_of m' k"
      using that by (simp_all add: no_zero_def)
    then show "m k = m' k"
      by (auto simp: count_of_def unat_eq_0 split: option.splits dest: unsigned_word_eqI)
  qed
  from assms have "write_locks l = write_locks l'" "readonly_locks l = readonly_locks l'"
    by (simp_all add: locks_rep_def eq)
  then show ?thesis by simp
qed

lemma count_of_bump:
  assumes "no_zero m" and "Suc (count_of m k) < 2 ^ 64"
  shows "no_zero (bump m k)" and "count_of (bump m k) k' = count_of m k' + (if k' = k then 1 else 0)"
proof -
  let ?c = "case m k of None \<Rightarrow> 0 | Some c \<Rightarrow> c"
  have "unat ?c = count_of m k" by (simp add: count_of_def split: option.splits)
  then have u: "unat (?c + 1) = Suc (count_of m k)"
    using assms(2) by (simp add: unat_word_ariths)
  then have "?c + 1 \<noteq> 0" by (metis nat.distinct(1) unat_0)
  with assms(1) show "no_zero (bump m k)" by (simp add: no_zero_def bump_def)
  show "count_of (bump m k) k' = count_of m k' + (if k' = k then 1 else 0)"
    using u by (cases "k' = k") (simp_all add: bump_def count_of_def [of _ k'] count_of_def)
qed

lemma count_of_drop_one:
  assumes "no_zero m" and "0 < count_of m k"
  shows "no_zero (drop_one m k)"
    and "count_of (drop_one m k) k' = count_of m k' - (if k' = k then 1 else 0)"
proof -
  from assms(2) obtain c where c: "m k = Some c" "0 < unat c"
    by (auto simp: count_of_def split: option.splits)
  then have u: "unat (c - 1) = unat c - 1"
    by (metis One_nat_def Suc_leI unat_1 unat_sub word_le_nat_alt)
  show "no_zero (drop_one m k)" using assms(1) c by (auto simp: no_zero_def drop_one_def)
  show "count_of (drop_one m k) k' = count_of m k' - (if k' = k then 1 else 0)"
    using c u by (auto simp: drop_one_def count_of_def simp flip: unat_eq_0)
qed

lemma locks_rep_lock:
  assumes rep: "locks_rep l M" and room: "Suc (size M) < 2 ^ 64"
  shows "locks_rep (if w then lock_write k l else lock_readonly k l) (add_mset (k, w) M)"
proof -
  have "count_of (write_locks l) k \<le> size M" "count_of (readonly_locks l) k \<le> size M"
    using rep by (simp_all add: locks_rep_def count_le_size)
  with room have "Suc (count_of (write_locks l) k) < 2 ^ 64" "Suc (count_of (readonly_locks l) k) < 2 ^ 64"
    by linarith+
  with rep show ?thesis
    by (auto simp: locks_rep_def lock_write_def lock_readonly_def count_of_bump)
qed

lemma locks_rep_unlock:
  assumes rep: "locks_rep l M" and held: "(k, w) \<in># M"
  shows "locks_rep (if w then unlock_write k l else unlock_readonly k l) (M - {#(k, w)#})"
proof -
  have "0 < count M (k, w)" using held by simp
  with rep have "w \<Longrightarrow> 0 < count_of (write_locks l) k" "\<not> w \<Longrightarrow> 0 < count_of (readonly_locks l) k"
    by (simp_all add: locks_rep_def)
  with rep show ?thesis
    by (auto simp: locks_rep_def unlock_write_def unlock_readonly_def count_of_drop_one)
qed

lemma lock_accounts_rep:
  "locks_rep l M \<Longrightarrow> size M + length keys < 2 ^ 64 \<Longrightarrow> locks_rep (lock_accounts keys l) (M + mset keys)"
proof (induction keys arbitrary: l M)
  case (Cons kw keys)
  have "locks_rep (if snd kw then lock_write (fst kw) l else lock_readonly (fst kw) l) (add_mset kw M)"
    using locks_rep_lock [of l M "snd kw" "fst kw"] Cons.prems by simp
  from Cons.IH [OF this] Cons.prems(2) show ?case by simp
qed simp

lemma unlock_accounts_rep:
  "locks_rep l M \<Longrightarrow> mset keys \<subseteq># M \<Longrightarrow> locks_rep (unlock_accounts keys l) (M - mset keys)"
proof (induction keys arbitrary: l M)
  case (Cons kw keys)
  have "kw \<in># M" using Cons.prems(2) by (auto dest: mset_subset_eqD)
  then have step: "locks_rep (if snd kw then unlock_write (fst kw) l else unlock_readonly (fst kw) l)
      (M - {#kw#})"
    using locks_rep_unlock [of l M "fst kw" "snd kw"] Cons.prems(1) by simp
  have sub: "mset keys \<subseteq># M - {#kw#}"
    using Cons.prems(2) by (simp add: insert_subset_eq_iff)
  have "M - mset (kw # keys) = M - {#kw#} - mset keys" by (rule multiset_eqI) simp
  then show ?case
    unfolding unlock_accounts.simps by (simp only: Cons.IH [OF step sub])
qed simp

lemma is_locked_rep:
  assumes "locks_rep l M"
  shows "is_locked_write l k \<longleftrightarrow> (k, True) \<in># M" and "is_locked_readonly l k \<longleftrightarrow> (k, False) \<in># M"
proof -
  have "is_locked_write l k \<longleftrightarrow> 0 < count_of (write_locks l) k"
    "is_locked_readonly l k \<longleftrightarrow> 0 < count_of (readonly_locks l) k"
    by (auto simp: is_locked_write_def is_locked_readonly_def count_of_def word_gt_0 unat_gt_0
        split: option.splits)
  with assms show "is_locked_write l k \<longleftrightarrow> (k, True) \<in># M" "is_locked_readonly l k \<longleftrightarrow> (k, False) \<in># M"
    by (simp_all add: locks_rep_def)
qed

lemma can_lock_accounts_rep:
  assumes "locks_rep l M"
  shows "can_lock_accounts l keys =
    (if \<exists>kw \<in> set keys. conflicts M kw then Inl AccountInUse else Inr ())"
  using is_locked_rep [OF assms]
  by (induction keys) (auto simp: can_write_lock_def can_read_lock_def conflicts_def)


section \<open>Batches\<close>

text \<open>What a batch is promised: the locks held before it decide every transaction.\<close>

definition batch_result ::
  "keyed_access multiset \<Rightarrow> keyed_access list transaction_result \<Rightarrow> unit transaction_result" where
  "batch_result M v =
     (case v of Inl e \<Rightarrow> Inl e
      | Inr keys \<Rightarrow> if \<exists>kw \<in> set keys. conflicts M kw then Inl AccountInUse else Inr ())"

fun granted_keys ::
  "keyed_access multiset \<Rightarrow> keyed_access list transaction_result list \<Rightarrow> keyed_access list" where
  "granted_keys M [] = []"
| "granted_keys M (Inl e # batch) = granted_keys M batch"
| "granted_keys M (Inr keys # batch) =
     (if \<exists>kw \<in> set keys. conflicts M kw then [] else keys) @ granted_keys M batch"

fun batch_size :: "keyed_access list transaction_result list \<Rightarrow> nat" where
  "batch_size [] = 0"
| "batch_size (Inl e # batch) = batch_size batch"
| "batch_size (Inr keys # batch) = length keys + batch_size batch"

lemma lock_accounts_append: "lock_accounts (ks @ ks') l = lock_accounts ks' (lock_accounts ks l)"
  by (induction ks arbitrary: l) simp_all

lemma length_granted_keys: "length (granted_keys M batch) \<le> batch_size batch"
  by (induction M batch rule: granted_keys.induct) auto

lemma try_lock_batch_eq:
  assumes "locks_rep l M"
  shows "try_lock_transaction_batch batch l =
    (lock_accounts (granted_keys M batch) l, map (batch_result M) batch)"
proof -
  have "lock_batch (check_batch l batch) l0 =
      (lock_accounts (granted_keys M batch) l0, map (batch_result M) batch)" for l0
  proof (induction batch arbitrary: l0)
    case (Cons v batch)
    have step: "check_batch l (v # batch) =
        (case v of Inl e \<Rightarrow> Inl e
         | Inr keys \<Rightarrow> (case can_lock_accounts l keys of Inl e \<Rightarrow> Inl e | Inr _ \<Rightarrow> Inr keys)) #
        check_batch l batch"
      by (simp add: check_batch_def)
    show ?case
      unfolding step using Cons
      by (cases v) (simp_all add: batch_result_def can_lock_accounts_rep [OF assms] lock_accounts_append)
  qed (simp add: check_batch_def)
  then show ?thesis by (simp add: try_lock_transaction_batch_def)
qed

lemma try_lock_batch_rep:
  assumes "locks_rep l M" and "size M + batch_size batch < 2 ^ 64"
  shows "locks_rep (fst (try_lock_transaction_batch batch l)) (M + mset (granted_keys M batch))"
  using assms length_granted_keys [of M batch]
  by (simp add: try_lock_batch_eq lock_accounts_rep)

lemma granted_keys_mem:
  "Inr keys \<in> set batch \<Longrightarrow> batch_result M (Inr keys) = Inr () \<Longrightarrow> kw \<in> set keys \<Longrightarrow>
   kw \<in> set (granted_keys M batch)"
  by (induction M batch rule: granted_keys.induct) (auto simp: batch_result_def split: if_splits)


section \<open>Duplicate keys\<close>

lemma insert_fails_iff: "insert_fails keys seen \<longleftrightarrow> \<not> (distinct keys \<and> set keys \<inter> seen = {})"
  by (induction keys arbitrary: seen) auto

lemma some_pair_equal_iff: "some_pair_equal keys \<longleftrightarrow> \<not> distinct keys"
proof -
  have "some_pair_equal keys \<longleftrightarrow> (\<exists>i j. i < j \<and> j < length keys \<and> keys ! i = keys ! j)"
  proof
    assume "\<exists>i j. i < j \<and> j < length keys \<and> keys ! i = keys ! j"
    then obtain i j where "i < j" "j < length keys" "keys ! i = keys ! j" by blast
    moreover from this have "i \<in> set [0..<length keys]" "j \<in> set [i + 1..<length keys]" by simp_all
    ultimately show "some_pair_equal keys" unfolding some_pair_equal_def list_ex_iff by blast
  next
    assume "some_pair_equal keys"
    then obtain i j where "i < j" "j < length keys" "keys ! i = keys ! j"
      by (auto simp: some_pair_equal_def list_ex_iff Suc_le_eq)
    then show "\<exists>i j. i < j \<and> j < length keys \<and> keys ! i = keys ! j" by blast
  qed
  also have "\<dots> \<longleftrightarrow> \<not> distinct keys"
  proof
    assume "\<not> distinct keys"
    then obtain i j where ij: "i < length keys" "j < length keys" "i \<noteq> j" "keys ! i = keys ! j"
      by (auto simp: distinct_conv_nth)
    show "\<exists>i j. i < j \<and> j < length keys \<and> keys ! i = keys ! j"
    proof (cases i j rule: linorder_cases)
      case less
      with ij show ?thesis by blast
    next
      case greater
      with ij show ?thesis by metis
    qed (use ij in simp)
  qed (auto simp: nth_eq_iff_index_eq)
  finally show ?thesis .
qed

lemma has_duplicates_iff: "has_duplicates keys \<longleftrightarrow> \<not> distinct keys"
  by (simp add: has_duplicates_def insert_fails_iff some_pair_equal_iff)


section \<open>Properties\<close>

text \<open>
  C16. A batch is decided by the locks held before it: an entry that was already an error
  stays that error, an entry that conflicts with a held lock is \<open>AccountInUse\<close>, and the
  rest are granted; afterwards the table holds exactly the earlier locks plus those granted.
\<close>

theorem batch_locks_exactly_what_it_reports:
  assumes "locks_rep l M" and "size M + batch_size batch < 2 ^ 64"
  shows "snd (try_lock_transaction_batch batch l) = map (batch_result M) batch \<and>
    locks_rep (fst (try_lock_transaction_batch batch l)) (M + mset (granted_keys M batch))"
  using assms try_lock_batch_rep by (simp add: try_lock_batch_eq)

definition demo_batch :: "keyed_access list transaction_result list" where
  "demo_batch = [Inr [(1, True), (2, False)], Inr [(2, False)], Inl AccountLoadedTwice, Inr [(3, True)]]"

lemma demo_locks_rep: "locks_rep (lock_accounts [(3, False)] default_account_locks) {#(3, False)#}"
  using lock_accounts_rep [OF locks_rep_default, of "[(3, False)]"] by simp

theorem batch_locks_exactly_what_it_reports_witness:
  "snd (try_lock_transaction_batch demo_batch (lock_accounts [(3, False)] default_account_locks)) =
     [Inr (), Inr (), Inl AccountLoadedTwice, Inl AccountInUse]"
  using batch_locks_exactly_what_it_reports [OF demo_locks_rep, of demo_batch]
  by (simp add: demo_batch_def batch_result_def conflicts_def)

text \<open>
  C23. Locks exclude each other across batches: when a transaction of one batch and a
  transaction of a later batch were both granted the same account and the first was not
  unlocked in between, both only read it.
\<close>

theorem outstanding_locks_exclude_later_batches:
  assumes "locks_rep l M" and "size M + batch_size batch1 < 2 ^ 64"
    and b1: "try_lock_transaction_batch batch1 l = (l1, rs1)"
    and b2: "try_lock_transaction_batch batch2 l1 = (l2, rs2)"
    and "i < length batch1" and "batch1 ! i = Inr keys1" and "rs1 ! i = Inr ()"
    and "j < length batch2" and "batch2 ! j = Inr keys2" and "rs2 ! j = Inr ()"
    and "(k, w1) \<in> set keys1" and "(k, w2) \<in> set keys2"
  shows "\<not> w1 \<and> \<not> w2"
proof -
  let ?M1 = "M + mset (granted_keys M batch1)"
  have rs1: "rs1 = map (batch_result M) batch1" and l1: "locks_rep l1 ?M1"
    using b1 try_lock_batch_eq [OF assms(1)] try_lock_batch_rep [OF assms(1,2)] by auto
  have rs2: "rs2 = map (batch_result ?M1) batch2" using b2 try_lock_batch_eq [OF l1] by simp
  have "(k, w1) \<in># ?M1"
    using assms(5-7,11) rs1 granted_keys_mem [of keys1 batch1 M "(k, w1)"] nth_mem by fastforce
  moreover have "\<not> conflicts ?M1 (k, w2)"
    using assms(8-10,12) rs2 by (auto simp: batch_result_def split: if_splits)
  ultimately show ?thesis by (cases w1) (auto simp: conflicts_def)
qed

theorem outstanding_locks_exclude_later_batches_witness:
  "snd (try_lock_transaction_batch [Inr [(1, False)]]
     (fst (try_lock_transaction_batch [Inr [(1, False)]] default_account_locks))) = [Inr ()] \<and>
   \<not> False \<and> \<not> False"
  using outstanding_locks_exclude_later_batches [OF locks_rep_default, of "[Inr [(1, False)]]" _ _
      "[Inr [(1, False)]]" _ _ 0 "[(1, False)]" 0 "[(1, False)]" 1 False False]
  by (simp add: try_lock_transaction_batch_def check_batch_def can_read_lock_def is_locked_write_def
      default_account_locks_def lock_readonly_def)

text \<open>
  C30. Unlocking what a batch locked restores the table as it was, entry for entry (counts
  that reach zero leave no entry behind).
\<close>

theorem unlock_restores_table:
  assumes "locks_rep l M" and "size M + length keys < 2 ^ 64"
  shows "unlock_accounts keys (lock_accounts keys l) = l"
proof -
  have "locks_rep (lock_accounts keys l) (M + mset keys)" by (rule lock_accounts_rep [OF assms])
  then have "locks_rep (unlock_accounts keys (lock_accounts keys l)) (M + mset keys - mset keys)"
    by (rule unlock_accounts_rep) simp
  with assms(1) show ?thesis by (intro locks_rep_unique [of _ M]) simp_all
qed

theorem unlock_restores_table_witness:
  "unlock_accounts [(3, False), (4, True)] (lock_accounts [(3, False), (4, True)]
     (lock_accounts [(3, False)] default_account_locks)) = lock_accounts [(3, False)] default_account_locks"
  using unlock_restores_table [OF demo_locks_rep, of "[(3, False), (4, True)]"] by simp

text \<open>
  C36. Both duplicate checks agree: whatever the number of keys, hence whichever of the
  hash-set and the pairwise routine runs, \<open>validate_account_locks\<close> accepts exactly the
  lists within the limit without repetition, and reports the length first.
\<close>

theorem validate_account_locks_correct:
  "validate_account_locks keys limit =
     (if limit < length keys then Inl TooManyAccountLocks
      else if distinct keys then Inr () else Inl AccountLoadedTwice) \<and>
   insert_fails keys {} = some_pair_equal keys"
  by (simp add: validate_account_locks_def has_duplicates_iff insert_fails_iff some_pair_equal_iff)

end
