(* ===== verification/Compute_Budget.thy ===== *)
theory Compute_Budget
  imports Agave_Prelude
begin

text \<open>
  How a transaction's compute budget is obtained from its instructions:
  \<open>crates/runtime/builtins-default-costs/src/lib.rs\<close> (the table of builtin programs),
  \<open>crates/runtime/compute-budget-instruction/src\<close> (the memoising program-id filters, the scan of
  the compute-budget requests, their sanitisation, the default compute-unit limit),
  \<open>crates/runtime/compute-budget/src/compute_budget_limits.rs\<close> (the priority fee) and the
  metadata of \<open>crates/runtime/runtime-transaction/src\<close> (signature counts, data length,
  \<open>TransactionConfiguration\<close>).

  Program ids, feature ids, \<open>HEAP_LENGTH\<close> and the decoder of compute-budget instructions are
  defined in other crates; they are the arguments \<open>ids\<close> and \<open>de\<close> of the definitions.
  The decoder's result type lists the variants that the source matches on. A public key is the
  little-endian value of its 32 bytes.
\<close>

section \<open>Builtin programs\<close>

record program_ids =
  vote_id :: pubkey
  bls_pubkey_management_in_vote_account_id :: pubkey
  system_program_id :: pubkey
  compute_budget_id :: pubkey
  bpf_loader_upgradeable_id :: pubkey
  bpf_loader_deprecated_id :: pubkey
  bpf_loader_id :: pubkey
  loader_v4_id :: pubkey
  secp256k1_program_id :: pubkey
  ed25519_program_id :: pubkey
  secp256r1_program_id :: pubkey
  heap_length :: u32

type_synonym feature_set = "pubkey set"

datatype builtin_cost =
    Migrating (migrating_feature: pubkey) (migrating_position: nat)
  | NotMigrating

definition core_bpf_migration_feature :: "builtin_cost \<Rightarrow> pubkey option" where
  "core_bpf_migration_feature c = (case c of Migrating f _ \<Rightarrow> Some f | NotMigrating \<Rightarrow> None)"

definition position :: "builtin_cost \<Rightarrow> nat option" where
  "position c = (case c of Migrating _ p \<Rightarrow> Some p | NotMigrating \<Rightarrow> None)"

definition migrating_builtins_costs :: "program_ids \<Rightarrow> (pubkey \<times> builtin_cost) list" where
  "migrating_builtins_costs ids =
     [(vote_id ids, Migrating (bls_pubkey_management_in_vote_account_id ids) 0)]"

definition non_migrating_builtins_costs :: "program_ids \<Rightarrow> (pubkey \<times> builtin_cost) list" where
  "non_migrating_builtins_costs ids =
     [(system_program_id ids, NotMigrating),
      (compute_budget_id ids, NotMigrating),
      (bpf_loader_upgradeable_id ids, NotMigrating),
      (bpf_loader_deprecated_id ids, NotMigrating),
      (bpf_loader_id ids, NotMigrating),
      (loader_v4_id ids, NotMigrating),
      (secp256k1_program_id ids, NotMigrating),
      (ed25519_program_id ids, NotMigrating)]"

text \<open>Collecting into a hash map: a later pair overrides an earlier one.\<close>

definition builtin_instruction_costs :: "program_ids \<Rightarrow> pubkey \<rightharpoonup> builtin_cost" where
  "builtin_instruction_costs ids =
     map_of (rev (migrating_builtins_costs ids @ non_migrating_builtins_costs ids))"

definition first_byte :: "pubkey \<Rightarrow> nat" where
  "first_byte k = k mod 256"

definition maybe_builtin_key :: "program_ids \<Rightarrow> bool list" where
  "maybe_builtin_key ids =
     fold (\<lambda>(k, _) table. table[first_byte k := True])
       (migrating_builtins_costs ids @ non_migrating_builtins_costs ids) (replicate 256 False)"

datatype builtin_migration_feature_index =
    NotBuiltinIndex
  | BuiltinNoMigrationFeature
  | BuiltinWithMigrationFeature nat

definition get_builtin_migration_feature_index ::
    "program_ids \<Rightarrow> pubkey \<Rightarrow> builtin_migration_feature_index" where
  "get_builtin_migration_feature_index ids program_id =
     (case builtin_instruction_costs ids program_id of
        None \<Rightarrow> NotBuiltinIndex
      | Some c \<Rightarrow> (case position c of
            None \<Rightarrow> BuiltinNoMigrationFeature
          | Some p \<Rightarrow> BuiltinWithMigrationFeature p))"

primrec validate_position_from :: "nat \<Rightarrow> (pubkey \<times> builtin_cost) list \<Rightarrow> bool" where
  "validate_position_from index [] = True"
| "validate_position_from index (e # es) =
     ((case snd e of Migrating _ p \<Rightarrow> p = index | NotMigrating \<Rightarrow> False) \<and>
      validate_position_from (index + 1) es)"

definition validate_position :: "(pubkey \<times> builtin_cost) list \<Rightarrow> bool" where
  "validate_position es = validate_position_from 0 es"

definition get_migration_feature_id :: "program_ids \<Rightarrow> nat \<Rightarrow> pubkey option" where
  "get_migration_feature_id ids index =
     (if index < length (migrating_builtins_costs ids)
      then core_bpf_migration_feature (snd (migrating_builtins_costs ids ! index)) else None)"


section \<open>Program-id filters\<close>

definition filter_size :: nat where
  "filter_size = 256"

text \<open>
  \<open>flags.get_mut(index).expect(..).get_or_insert_with(check)\<close>, the body of the three filters.
\<close>

definition memo_get :: "('k \<Rightarrow> 'a) \<Rightarrow> nat \<Rightarrow> 'k \<Rightarrow> 'a option list \<Rightarrow> ('a \<times> 'a option list) option" where
  "memo_get check index k flags =
     (if index < length flags then
        (case flags ! index of
           Some v \<Rightarrow> Some (v, flags)
         | None \<Rightarrow> Some (check k, flags[index := Some (check k)]))
      else None)"

definition new_filter :: "'a option list" where
  "new_filter = replicate filter_size None"

definition check_program_id :: "program_ids \<Rightarrow> pubkey \<Rightarrow> bool" where
  "check_program_id ids program_id =
     (if \<not> maybe_builtin_key ids ! first_byte program_id then False
      else program_id = compute_budget_id ids)"

definition is_compute_budget_program ::
    "program_ids \<Rightarrow> nat \<Rightarrow> pubkey \<Rightarrow> bool option list \<Rightarrow> (bool \<times> bool option list) option" where
  "is_compute_budget_program ids = memo_get (check_program_id ids)"

datatype program_kind =
    NotBuiltin
  | Builtin
  | MigratingBuiltin nat

definition check_program_kind :: "program_ids \<Rightarrow> pubkey \<Rightarrow> program_kind" where
  "check_program_kind ids program_id =
     (if \<not> maybe_builtin_key ids ! first_byte program_id then NotBuiltin
      else (case get_builtin_migration_feature_index ids program_id of
          NotBuiltinIndex \<Rightarrow> NotBuiltin
        | BuiltinNoMigrationFeature \<Rightarrow> Builtin
        | BuiltinWithMigrationFeature i \<Rightarrow> MigratingBuiltin i))"

definition get_program_kind ::
    "program_ids \<Rightarrow> nat \<Rightarrow> pubkey \<Rightarrow> program_kind option list \<Rightarrow>
     (program_kind \<times> program_kind option list) option" where
  "get_program_kind ids = memo_get (check_program_kind ids)"

datatype program_id_status = NotSignature | Secp256k1 | Ed25519 | Secp256r1

definition check_signature_program_id :: "program_ids \<Rightarrow> pubkey \<Rightarrow> program_id_status" where
  "check_signature_program_id ids program_id =
     (if program_id = secp256k1_program_id ids then Secp256k1
      else if program_id = ed25519_program_id ids then Ed25519
      else if program_id = secp256r1_program_id ids then Secp256r1
      else NotSignature)"

definition is_signature ::
    "program_ids \<Rightarrow> nat \<Rightarrow> pubkey \<Rightarrow> program_id_status option list \<Rightarrow>
     (program_id_status \<times> program_id_status option list) option" where
  "is_signature ids = memo_get (check_signature_program_id ids)"

section \<open>Compute-budget requests\<close>

record svm_instruction =
  program_id_index :: u8
  data :: "u8 list"

type_synonym program_instruction = "pubkey \<times> svm_instruction"

datatype compute_budget_instruction =
    RequestHeapFrame u32
  | SetComputeUnitLimit u32
  | SetComputeUnitPrice u64
  | SetLoadedAccountsDataSizeLimit u32
  | OtherComputeBudgetInstruction nat

type_synonym decoder = "u8 list \<Rightarrow> compute_budget_instruction option"

record compute_budget_instruction_details =
  requested_compute_unit_limit :: "(u8 \<times> u32) option"
  requested_compute_unit_price :: "(u8 \<times> u64) option"
  requested_heap_size :: "(u8 \<times> u32) option"
  requested_loaded_accounts_data_size_limit :: "(u8 \<times> u32) option"
  num_non_compute_budget_instructions :: u16
  num_non_migratable_builtin_instructions :: u16
  num_non_builtin_instructions :: u16
  migrating_builtin :: "u16 list"

definition default_details :: "program_ids \<Rightarrow> compute_budget_instruction_details" where
  "default_details ids =
     \<lparr>requested_compute_unit_limit = None, requested_compute_unit_price = None,
      requested_heap_size = None, requested_loaded_accounts_data_size_limit = None,
      num_non_compute_budget_instructions = 0, num_non_migratable_builtin_instructions = 0,
      num_non_builtin_instructions = 0,
      migrating_builtin = replicate (length (migrating_builtins_costs ids)) 0\<rparr>"

definition process_instruction ::
    "decoder \<Rightarrow> u8 \<Rightarrow> svm_instruction \<Rightarrow> compute_budget_instruction_details \<Rightarrow>
     compute_budget_instruction_details transaction_result" where
  "process_instruction de index ix d =
     (case de (data ix) of
        Some (RequestHeapFrame bytes) \<Rightarrow>
          if requested_heap_size d \<noteq> None then Inl (DuplicateInstruction index)
          else Inr (d\<lparr>requested_heap_size := Some (index, bytes)\<rparr>)
      | Some (SetComputeUnitLimit limit) \<Rightarrow>
          if requested_compute_unit_limit d \<noteq> None then Inl (DuplicateInstruction index)
          else Inr (d\<lparr>requested_compute_unit_limit := Some (index, limit)\<rparr>)
      | Some (SetComputeUnitPrice price) \<Rightarrow>
          if requested_compute_unit_price d \<noteq> None then Inl (DuplicateInstruction index)
          else Inr (d\<lparr>requested_compute_unit_price := Some (index, price)\<rparr>)
      | Some (SetLoadedAccountsDataSizeLimit bytes) \<Rightarrow>
          if requested_loaded_accounts_data_size_limit d \<noteq> None then Inl (DuplicateInstruction index)
          else Inr (d\<lparr>requested_loaded_accounts_data_size_limit := Some (index, bytes)\<rparr>)
      | _ \<Rightarrow> Inl (InstructionError index InvalidInstructionData))"

text \<open>The two loops of \<open>try_from\<close>; the filters' tables are threaded through.\<close>

primrec collect_requests ::
    "program_ids \<Rightarrow> decoder \<Rightarrow> program_instruction list \<Rightarrow> nat \<Rightarrow> bool option list \<Rightarrow>
     compute_budget_instruction_details \<Rightarrow>
     compute_budget_instruction_details transaction_result option" where
  "collect_requests ids de [] i flags d = Some (Inr d)"
| "collect_requests ids de (pi # ixs) i flags d = do {
     (is_cb, flags') \<leftarrow>
       is_compute_budget_program ids (unat (program_id_index (snd pi))) (fst pi) flags;
     if is_cb then
       (case process_instruction de (of_nat i) (snd pi) d of
          Inl e \<Rightarrow> Some (Inl e)
        | Inr d' \<Rightarrow> collect_requests ids de ixs (i + 1) flags' d')
     else collect_requests ids de ixs (i + 1) flags'
       (d\<lparr>num_non_compute_budget_instructions :=
            saturating_add (num_non_compute_budget_instructions d) 1\<rparr>)
   }"

definition count_program_kind ::
    "program_kind \<Rightarrow> compute_budget_instruction_details \<Rightarrow> compute_budget_instruction_details option" where
  "count_program_kind kind d =
     (case kind of
        Builtin \<Rightarrow> Some (d\<lparr>num_non_migratable_builtin_instructions :=
            saturating_add (num_non_migratable_builtin_instructions d) 1\<rparr>)
      | NotBuiltin \<Rightarrow> Some (d\<lparr>num_non_builtin_instructions :=
            saturating_add (num_non_builtin_instructions d) 1\<rparr>)
      | MigratingBuiltin i \<Rightarrow>
          if i < length (migrating_builtin d)
          then Some (d\<lparr>migrating_builtin :=
            (migrating_builtin d)[i := saturating_add (migrating_builtin d ! i) 1]\<rparr>)
          else None)"

primrec collect_builtins ::
    "program_ids \<Rightarrow> program_instruction list \<Rightarrow> program_kind option list \<Rightarrow>
     compute_budget_instruction_details \<Rightarrow> compute_budget_instruction_details option" where
  "collect_builtins ids [] flags d = Some d"
| "collect_builtins ids (pi # ixs) flags d = do {
     (kind, flags') \<leftarrow> get_program_kind ids (unat (program_id_index (snd pi))) (fst pi) flags;
     d' \<leftarrow> count_program_kind kind d;
     collect_builtins ids ixs flags' d'
   }"

definition details_try_from ::
    "program_ids \<Rightarrow> decoder \<Rightarrow> program_instruction list \<Rightarrow>
     compute_budget_instruction_details transaction_result option" where
  "details_try_from ids de ixs = do {
     r \<leftarrow> collect_requests ids de ixs 0 new_filter (default_details ids);
     (case r of
        Inl e \<Rightarrow> Some (Inl e)
      | Inr d \<Rightarrow>
          if requested_compute_unit_limit d = None
          then map_option Inr (collect_builtins ids ixs new_filter d)
          else Some (Inr d))
   }"


section \<open>Limits\<close>

definition max_compute_unit_limit :: u32 where
  "max_compute_unit_limit = 1400000"

definition default_instruction_compute_unit_limit :: u32 where
  "default_instruction_compute_unit_limit = 200000"

definition max_builtin_allocation_compute_unit_limit :: u32 where
  "max_builtin_allocation_compute_unit_limit = 3000"

definition max_heap_frame_bytes :: u32 where
  "max_heap_frame_bytes = 256 * 1024"

definition min_heap_frame_bytes :: "program_ids \<Rightarrow> u32" where
  "min_heap_frame_bytes ids = heap_length ids"

definition max_loaded_accounts_data_size_bytes :: u32 where
  "max_loaded_accounts_data_size_bytes = 64 * 1024 * 1024"

definition default_heap_cost :: u64 where
  "default_heap_cost = 8"

definition sanitize_requested_heap_size :: "program_ids \<Rightarrow> u32 \<Rightarrow> bool" where
  "sanitize_requested_heap_size ids bytes \<longleftrightarrow>
     min_heap_frame_bytes ids \<le> bytes \<and> bytes \<le> max_heap_frame_bytes \<and> bytes mod 1024 = 0"

primrec split_migrated ::
    "program_ids \<Rightarrow> feature_set \<Rightarrow> u16 list \<Rightarrow> nat \<Rightarrow> u16 \<times> u16 \<Rightarrow> (u16 \<times> u16) option" where
  "split_migrated ids fs [] index mn = Some mn"
| "split_migrated ids fs (count # cs) index mn =
     (if count > 0 then do {
        f \<leftarrow> get_migration_feature_id ids index;
        split_migrated ids fs cs (index + 1)
          (if f \<in> fs then (fst mn + count, snd mn) else (fst mn, snd mn + count))
      }
      else split_migrated ids fs cs (index + 1) (fst mn, snd mn + count))"

definition calculate_default_compute_unit_limit ::
    "program_ids \<Rightarrow> feature_set \<Rightarrow> compute_budget_instruction_details \<Rightarrow> u32 option" where
  "calculate_default_compute_unit_limit ids fs d = do {
     (num_migrated, num_not_migrated) \<leftarrow> split_migrated ids fs (migrating_builtin d) 0 (0, 0);
     Some (saturating_add
       (saturating_mul
          (saturating_add (ucast (num_non_migratable_builtin_instructions d)) (ucast num_not_migrated))
          max_builtin_allocation_compute_unit_limit)
       (saturating_mul
          (saturating_add (ucast (num_non_builtin_instructions d)) (ucast num_migrated))
          default_instruction_compute_unit_limit))
   }"

record compute_budget_limits =
  updated_heap_bytes :: u32
  compute_unit_limit :: u32
  compute_unit_price :: u64
  loaded_accounts_bytes :: u32

definition default_compute_budget_limits :: "program_ids \<Rightarrow> compute_budget_limits" where
  "default_compute_budget_limits ids =
     \<lparr>updated_heap_bytes = min_heap_frame_bytes ids, compute_unit_limit = max_compute_unit_limit,
      compute_unit_price = 0, loaded_accounts_bytes = max_loaded_accounts_data_size_bytes\<rparr>"

definition sanitize_and_convert_to_compute_budget_limits ::
    "program_ids \<Rightarrow> feature_set \<Rightarrow> compute_budget_instruction_details \<Rightarrow>
     compute_budget_limits transaction_result option" where
  "sanitize_and_convert_to_compute_budget_limits ids fs d =
     (case (case requested_heap_size d of
              Some (index, bytes) \<Rightarrow>
                if sanitize_requested_heap_size ids bytes then Inr bytes
                else Inl (InstructionError index InvalidInstructionData)
            | None \<Rightarrow> Inr (min_heap_frame_bytes ids)) of
        Inl e \<Rightarrow> Some (Inl e)
      | Inr heap \<Rightarrow> do {
          limit \<leftarrow> (case requested_compute_unit_limit d of
              None \<Rightarrow> calculate_default_compute_unit_limit ids fs d
            | Some (_, limit) \<Rightarrow> Some limit);
          (case requested_loaded_accounts_data_size_limit d of
             Some (_, bytes) \<Rightarrow>
               if bytes = 0 then Some (Inl InvalidLoadedAccountsDataSizeLimit)
               else Some (Inr
                 \<lparr>updated_heap_bytes = min heap max_heap_frame_bytes,
                  compute_unit_limit = min limit max_compute_unit_limit,
                  compute_unit_price = (case requested_compute_unit_price d of
                    None \<Rightarrow> 0 | Some (_, price) \<Rightarrow> price),
                  loaded_accounts_bytes = min bytes max_loaded_accounts_data_size_bytes\<rparr>)
           | None \<Rightarrow> Some (Inr
               \<lparr>updated_heap_bytes = min heap max_heap_frame_bytes,
                compute_unit_limit = min limit max_compute_unit_limit,
                compute_unit_price = (case requested_compute_unit_price d of
                  None \<Rightarrow> 0 | Some (_, price) \<Rightarrow> price),
                loaded_accounts_bytes = max_loaded_accounts_data_size_bytes\<rparr>))
        })"

definition process_compute_budget_instructions ::
    "program_ids \<Rightarrow> decoder \<Rightarrow> program_instruction list \<Rightarrow> feature_set \<Rightarrow>
     compute_budget_limits transaction_result option" where
  "process_compute_budget_instructions ids de ixs fs = do {
     r \<leftarrow> details_try_from ids de ixs;
     (case r of
        Inl e \<Rightarrow> Some (Inl e)
      | Inr d \<Rightarrow> sanitize_and_convert_to_compute_budget_limits ids fs d)
   }"

text \<open>The fee is computed in \<open>u128\<close>, where no operand can overflow.\<close>

type_synonym u128 = "128 word"

definition micro_lamports_per_lamport :: u64 where
  "micro_lamports_per_lamport = 1000000"

definition u64_try_from :: "u128 \<Rightarrow> u64 option" where
  "u64_try_from x = (if unat x < 2 ^ 64 then Some (ucast x) else None)"

definition get_prioritization_fee_of :: "u64 \<Rightarrow> u64 \<Rightarrow> u64" where
  "get_prioritization_fee_of price limit =
     (let micro_lamport_fee = saturating_mul (ucast price :: u128) (ucast limit);
          fee = saturating_add micro_lamport_fee (ucast (saturating_sub micro_lamports_per_lamport 1))
                  div ucast micro_lamports_per_lamport
      in case u64_try_from fee of Some f \<Rightarrow> f | None \<Rightarrow> - 1)"

definition get_prioritization_fee :: "compute_budget_limits \<Rightarrow> u64" where
  "get_prioritization_fee l = get_prioritization_fee_of (compute_unit_price l) (ucast (compute_unit_limit l))"


section \<open>Transaction metadata\<close>

record transaction_configuration =
  config_heap_bytes :: u32
  config_compute_unit_limit :: u32
  config_priority_fee_lamports :: u64
  config_loaded_accounts_data_size_limit :: u32

definition compute_unit_price_in_microlamports :: "transaction_configuration \<Rightarrow> u64" where
  "compute_unit_price_in_microlamports c =
     (let total = saturating_mul (ucast (config_priority_fee_lamports c) :: u128) 1000000;
          limit = ucast (config_compute_unit_limit c) :: u128
      in if limit = 0 then 0
         else (case u64_try_from (total div limit) of Some p \<Rightarrow> p | None \<Rightarrow> 0))"

datatype versioned_transaction_configuration =
    LegacyAndV0 compute_budget_instruction_details
  | V1 transaction_configuration

record v1_config =
  v1_priority_fee :: "u64 option"
  v1_compute_unit_limit :: "u32 option"
  v1_loaded_accounts_data_size_limit :: "u32 option"
  v1_heap_size :: "u32 option"

definition unwrap_or :: "'a option \<Rightarrow> 'a \<Rightarrow> 'a" where
  "unwrap_or x d = (case x of None \<Rightarrow> d | Some v \<Rightarrow> v)"

definition from_v1_config :: "program_ids \<Rightarrow> v1_config \<Rightarrow> versioned_transaction_configuration" where
  "from_v1_config ids c = V1
     \<lparr>config_heap_bytes = unwrap_or (v1_heap_size c) (heap_length ids),
      config_compute_unit_limit = unwrap_or (v1_compute_unit_limit c) 0,
      config_priority_fee_lamports = unwrap_or (v1_priority_fee c) 0,
      config_loaded_accounts_data_size_limit = unwrap_or (v1_loaded_accounts_data_size_limit c) 0\<rparr>"

datatype message = MessageV1 v1_config | MessageLegacyOrV0 "program_instruction list"

definition try_from_sanitized_message ::
    "program_ids \<Rightarrow> decoder \<Rightarrow> message \<Rightarrow> versioned_transaction_configuration transaction_result option" where
  "try_from_sanitized_message ids de m =
     (case m of
        MessageV1 c \<Rightarrow> Some (Inr (from_v1_config ids c))
      | MessageLegacyOrV0 ixs \<Rightarrow> map_option (map_sum id LegacyAndV0) (details_try_from ids de ixs))"

definition try_into_config ::
    "program_ids \<Rightarrow> feature_set \<Rightarrow> versioned_transaction_configuration \<Rightarrow>
     transaction_configuration transaction_result option" where
  "try_into_config ids fs v =
     (case v of
        LegacyAndV0 d \<Rightarrow> map_option (map_sum id (\<lambda>l.
          \<lparr>config_heap_bytes = updated_heap_bytes l,
           config_compute_unit_limit = compute_unit_limit l,
           config_priority_fee_lamports = get_prioritization_fee l,
           config_loaded_accounts_data_size_limit = loaded_accounts_bytes l\<rparr>))
          (sanitize_and_convert_to_compute_budget_limits ids fs d)
      | V1 c \<Rightarrow>
          if \<not> (min_heap_frame_bytes ids \<le> config_heap_bytes c \<and>
                config_heap_bytes c \<le> max_heap_frame_bytes) \<or> config_heap_bytes c mod 1024 \<noteq> 0
          then Some (Inl SanitizeFailure)
          else Some (Inr
            \<lparr>config_heap_bytes = config_heap_bytes c,
             config_compute_unit_limit = min (config_compute_unit_limit c) max_compute_unit_limit,
             config_priority_fee_lamports = config_priority_fee_lamports c,
             config_loaded_accounts_data_size_limit =
               min (config_loaded_accounts_data_size_limit c) max_loaded_accounts_data_size_bytes\<rparr>))"

record precompile_signature_details =
  num_secp256k1_instruction_signatures :: u64
  num_ed25519_instruction_signatures :: u64
  num_secp256r1_instruction_signatures :: u64

definition get_num_signatures_in_instruction :: "svm_instruction \<Rightarrow> u64" where
  "get_num_signatures_in_instruction ix = (case data ix of [] \<Rightarrow> 0 | b # _ \<Rightarrow> ucast b)"

definition add_signatures ::
    "program_id_status \<Rightarrow> svm_instruction \<Rightarrow> precompile_signature_details \<Rightarrow> precompile_signature_details" where
  "add_signatures status ix v =
     (case status of
        NotSignature \<Rightarrow> v
      | Secp256k1 \<Rightarrow> v\<lparr>num_secp256k1_instruction_signatures :=
          num_secp256k1_instruction_signatures v + get_num_signatures_in_instruction ix\<rparr>
      | Ed25519 \<Rightarrow> v\<lparr>num_ed25519_instruction_signatures :=
          num_ed25519_instruction_signatures v + get_num_signatures_in_instruction ix\<rparr>
      | Secp256r1 \<Rightarrow> v\<lparr>num_secp256r1_instruction_signatures :=
          num_secp256r1_instruction_signatures v + get_num_signatures_in_instruction ix\<rparr>)"

record signature_builder =
  sig_filter :: "program_id_status option list"
  sig_value :: precompile_signature_details

definition default_signature_builder :: signature_builder where
  "default_signature_builder =
     \<lparr>sig_filter = new_filter,
      sig_value = \<lparr>num_secp256k1_instruction_signatures = 0, num_ed25519_instruction_signatures = 0,
        num_secp256r1_instruction_signatures = 0\<rparr>\<rparr>"

definition sig_process_instruction ::
    "program_ids \<Rightarrow> program_instruction \<Rightarrow> signature_builder \<Rightarrow> signature_builder option" where
  "sig_process_instruction ids pi b = do {
     (status, flags) \<leftarrow> is_signature ids (unat (program_id_index (snd pi))) (fst pi) (sig_filter b);
     Some \<lparr>sig_filter = flags, sig_value = add_signatures status (snd pi) (sig_value b)\<rparr>
   }"

definition get_precompile_signature_details ::
    "program_ids \<Rightarrow> program_instruction list \<Rightarrow> precompile_signature_details option" where
  "get_precompile_signature_details ids ixs =
     map_option sig_value (foldM (sig_process_instruction ids) ixs default_signature_builder)"

definition len_process_instruction :: "program_instruction \<Rightarrow> u16 \<Rightarrow> u16" where
  "len_process_instruction pi value = saturating_add value (of_nat (length (data (snd pi))))"

record instruction_meta =
  meta_signature_details :: precompile_signature_details
  meta_instruction_data_len :: u16

definition instruction_meta_try_new ::
    "program_ids \<Rightarrow> program_instruction list \<Rightarrow> instruction_meta transaction_result option" where
  "instruction_meta_try_new ids ixs = do {
     (b, len) \<leftarrow> foldM (\<lambda>pi (b, len). do {
         b' \<leftarrow> sig_process_instruction ids pi b;
         Some (b', len_process_instruction pi len)
       }) ixs (default_signature_builder, 0);
     Some (Inr \<lparr>meta_signature_details = sig_value b, meta_instruction_data_len = len\<rparr>)
   }"

end
