(* ===== verification/Compute_Budget_Laws.thy ===== *)
theory Compute_Budget_Laws
  imports Compute_Budget
begin

text \<open>
  Correctness of the compute budget: the memoising filters answer like the checks they
  memoise, the scan of the requests finds every request exactly once, the default
  compute-unit limit is the sum of the per-instruction defaults, and the priority fee is the
  rounded-up product.
\<close>

section \<open>Memoising filters\<close>

text \<open>
  A table is faithful when every remembered answer is that of the key its index stands for.
\<close>

definition memo_ok :: "(pubkey \<Rightarrow> 'a) \<Rightarrow> (nat \<Rightarrow> pubkey) \<Rightarrow> 'a option list \<Rightarrow> bool" where
  "memo_ok check keys flags \<longleftrightarrow> length flags = filter_size \<and>
     (\<forall>i < filter_size. \<forall>v. flags ! i = Some v \<longrightarrow> v = check (keys i))"

locale memo_filter =
  fixes check :: "pubkey \<Rightarrow> 'a"
    and get :: "nat \<Rightarrow> pubkey \<Rightarrow> 'a option list \<Rightarrow> ('a \<times> 'a option list) option"
  assumes get_fresh: "i < length flags \<Longrightarrow> flags ! i = None \<Longrightarrow>
      get i k flags = Some (check k, flags[i := Some (check k)])"
    and get_memo: "i < length flags \<Longrightarrow> flags ! i = Some v \<Longrightarrow> get i k flags = Some (v, flags)"
begin

lemma new_ok: "memo_ok check keys new_filter"
  by (simp add: memo_ok_def new_filter_def)

lemma get_ok:
  assumes "memo_ok check keys flags" and "i < filter_size" and "keys i = k"
  shows "\<exists>flags'. get i k flags = Some (check k, flags') \<and> memo_ok check keys flags'"
proof (cases "flags ! i")
  case None
  with assms show ?thesis by (auto simp: get_fresh memo_ok_def nth_list_update)
next
  case (Some v)
  with assms show ?thesis by (auto simp: get_memo memo_ok_def)
qed

end

interpretation cb_filter: memo_filter "check_program_id ids" "is_compute_budget_program ids" for ids
  by unfold_locales (simp_all add: is_compute_budget_program_def memo_get_def)

interpretation kind_filter: memo_filter "check_program_kind ids" "get_program_kind ids" for ids
  by unfold_locales (simp_all add: get_program_kind_def memo_get_def)

interpretation sig_filter: memo_filter "check_signature_program_id ids" "is_signature ids" for ids
  by unfold_locales (simp_all add: is_signature_def memo_get_def)

text \<open>Every instruction names its program by an index into the message's account keys.\<close>

definition indexed :: "(nat \<Rightarrow> pubkey) \<Rightarrow> program_instruction list \<Rightarrow> bool" where
  "indexed keys ixs \<longleftrightarrow> list_all (\<lambda>pi. keys (unat (program_id_index (snd pi))) = fst pi) ixs"

lemma indexed_simps [simp]:
  "indexed keys []"
  "indexed keys (pi # ixs) \<longleftrightarrow> keys (unat (program_id_index (snd pi))) = fst pi \<and> indexed keys ixs"
  by (simp_all add: indexed_def)

lemma index_in_filter [simp]: "unat (i :: u8) < filter_size"
  using unsigned_less [of i] by (simp add: filter_size_def)


section \<open>The first-byte table has no false negatives\<close>

lemma first_byte_less [simp]: "first_byte k < 256"
  by (simp add: first_byte_def)

lemma nth_list_update_eq_iff:
  "length table = 256 \<Longrightarrow> j < 256 \<Longrightarrow> (table[j := True]) ! i \<longleftrightarrow> table ! i \<or> i = j"
  by (cases "i = j") auto

lemma fold_table:
  "(fold (\<lambda>(k, _) table. table[first_byte k := True]) es table) ! i \<longleftrightarrow>
     table ! i \<or> (\<exists>k \<in> fst ` set es. first_byte k = i)"
  if "length table = 256" "i < 256"
  using that
proof (induction es arbitrary: table)
  case (Cons e es)
  then show ?case by (cases e) (auto simp: nth_list_update_eq_iff)
qed simp

lemma maybe_builtin_key_complete:
  "k = vote_id ids \<or> k \<in> fst ` set (non_migrating_builtins_costs ids) \<Longrightarrow>
     maybe_builtin_key ids ! first_byte k"
  unfolding maybe_builtin_key_def by (subst fold_table) (auto simp: migrating_builtins_costs_def)

lemma builtin_costs_None:
  "k \<notin> fst ` set (migrating_builtins_costs ids @ non_migrating_builtins_costs ids) \<Longrightarrow>
     builtin_instruction_costs ids k = None"
  unfolding builtin_instruction_costs_def map_of_eq_None_iff set_rev .

lemma check_program_id_eq: "check_program_id ids k \<longleftrightarrow> k = compute_budget_id ids"
  using maybe_builtin_key_complete [of k ids]
  by (auto simp: check_program_id_def non_migrating_builtins_costs_def)

lemma check_program_kind_eq:
  "check_program_kind ids k =
     (if k \<in> fst ` set (non_migrating_builtins_costs ids) then Builtin
      else if k = vote_id ids then MigratingBuiltin 0 else NotBuiltin)"
proof -
  let ?all = "fst ` set (migrating_builtins_costs ids @ non_migrating_builtins_costs ids)"
  consider "k \<in> fst ` set (non_migrating_builtins_costs ids)"
    | "k \<notin> fst ` set (non_migrating_builtins_costs ids)" "k = vote_id ids"
    | "k \<notin> ?all" "k \<noteq> vote_id ids" "k \<notin> fst ` set (non_migrating_builtins_costs ids)"
    by (auto simp: migrating_builtins_costs_def)
  then show ?thesis
  proof cases
    case 1
    moreover have "builtin_instruction_costs ids k = Some NotMigrating"
      using 1 by (auto simp: builtin_instruction_costs_def non_migrating_builtins_costs_def)
    ultimately show ?thesis using maybe_builtin_key_complete [of k ids]
      by (simp add: check_program_kind_def get_builtin_migration_feature_index_def position_def)
  next
    case 2
    moreover have "builtin_instruction_costs ids k =
        Some (Migrating (bls_pubkey_management_in_vote_account_id ids) 0)"
      using 2 by (auto simp: builtin_instruction_costs_def non_migrating_builtins_costs_def
          migrating_builtins_costs_def)
    ultimately show ?thesis using maybe_builtin_key_complete [of k ids]
      by (simp add: check_program_kind_def get_builtin_migration_feature_index_def position_def
          migrating_builtins_costs_def)
  next
    case 3
    then show ?thesis using builtin_costs_None [of k ids]
      by (simp add: check_program_kind_def get_builtin_migration_feature_index_def)
  qed
qed


section \<open>The scan of the requests\<close>

text \<open>What one kind of request occurs as: its instruction index and value, in order.\<close>

definition occurrences ::
    "(compute_budget_instruction \<Rightarrow> 'v option) \<Rightarrow> program_ids \<Rightarrow> decoder \<Rightarrow> nat \<Rightarrow>
     program_instruction list \<Rightarrow> (u8 \<times> 'v) list" where
  "occurrences sel ids de start ixs =
     List.map_filter (\<lambda>(i, pi).
       if fst pi = compute_budget_id ids
       then Option.bind (de (data (snd pi))) (\<lambda>c. map_option (Pair (of_nat i)) (sel c)) else None)
     (List.enumerate start ixs)"

primrec sel_heap :: "compute_budget_instruction \<Rightarrow> u32 option" where
  "sel_heap (RequestHeapFrame v) = Some v"
| "sel_heap (SetComputeUnitLimit _) = None"
| "sel_heap (SetComputeUnitPrice _) = None"
| "sel_heap (SetLoadedAccountsDataSizeLimit _) = None"
| "sel_heap (OtherComputeBudgetInstruction _) = None"

primrec sel_limit :: "compute_budget_instruction \<Rightarrow> u32 option" where
  "sel_limit (RequestHeapFrame _) = None"
| "sel_limit (SetComputeUnitLimit v) = Some v"
| "sel_limit (SetComputeUnitPrice _) = None"
| "sel_limit (SetLoadedAccountsDataSizeLimit _) = None"
| "sel_limit (OtherComputeBudgetInstruction _) = None"

primrec sel_price :: "compute_budget_instruction \<Rightarrow> u64 option" where
  "sel_price (RequestHeapFrame _) = None"
| "sel_price (SetComputeUnitLimit _) = None"
| "sel_price (SetComputeUnitPrice v) = Some v"
| "sel_price (SetLoadedAccountsDataSizeLimit _) = None"
| "sel_price (OtherComputeBudgetInstruction _) = None"

primrec sel_loaded :: "compute_budget_instruction \<Rightarrow> u32 option" where
  "sel_loaded (RequestHeapFrame _) = None"
| "sel_loaded (SetComputeUnitLimit _) = None"
| "sel_loaded (SetComputeUnitPrice _) = None"
| "sel_loaded (SetLoadedAccountsDataSizeLimit v) = Some v"
| "sel_loaded (OtherComputeBudgetInstruction _) = None"

lemma occurrences_Nil [simp]: "occurrences sel ids de i [] = []"
  by (simp add: occurrences_def List.map_filter_simps)

lemma occurrences_Cons:
  "occurrences sel ids de i (pi # ixs) =
     (if fst pi = compute_budget_id ids then
        (case Option.bind (de (data (snd pi))) sel of
           None \<Rightarrow> [] | Some v \<Rightarrow> [(of_nat i, v)]) else []) @ occurrences sel ids de (i + 1) ixs"
  by (auto simp: occurrences_def List.map_filter_simps split: option.splits bind_splits)

text \<open>Requests are acceptable when every one decodes and no kind is requested twice.\<close>

definition decodable :: "program_ids \<Rightarrow> decoder \<Rightarrow> program_instruction list \<Rightarrow> bool" where
  "decodable ids de ixs \<longleftrightarrow> list_all (\<lambda>pi. fst pi = compute_budget_id ids \<longrightarrow>
     (case de (data (snd pi)) of
        None \<Rightarrow> False | Some (OtherComputeBudgetInstruction _) \<Rightarrow> False | Some _ \<Rightarrow> True)) ixs"

definition at_most_one :: "'a option \<Rightarrow> 'a list \<Rightarrow> bool" where
  "at_most_one found xs \<longleftrightarrow> (case found of None \<Rightarrow> length xs \<le> 1 | Some _ \<Rightarrow> xs = [])"

definition first_of :: "'a option \<Rightarrow> 'a list \<Rightarrow> 'a option" where
  "first_of found xs = (case found of None \<Rightarrow> (case xs of [] \<Rightarrow> None | x # _ \<Rightarrow> Some x) | Some x \<Rightarrow> Some x)"

definition requests_ok ::
    "program_ids \<Rightarrow> decoder \<Rightarrow> nat \<Rightarrow> program_instruction list \<Rightarrow>
     compute_budget_instruction_details \<Rightarrow> bool" where
  "requests_ok ids de i ixs d \<longleftrightarrow> decodable ids de ixs \<and>
     at_most_one (requested_heap_size d) (occurrences sel_heap ids de i ixs) \<and>
     at_most_one (requested_compute_unit_limit d) (occurrences sel_limit ids de i ixs) \<and>
     at_most_one (requested_compute_unit_price d) (occurrences sel_price ids de i ixs) \<and>
     at_most_one (requested_loaded_accounts_data_size_limit d) (occurrences sel_loaded ids de i ixs)"

definition non_budget_count :: "program_ids \<Rightarrow> program_instruction list \<Rightarrow> nat" where
  "non_budget_count ids ixs = length (filter (\<lambda>pi. fst pi \<noteq> compute_budget_id ids) ixs)"

definition with_requests ::
    "program_ids \<Rightarrow> decoder \<Rightarrow> nat \<Rightarrow> program_instruction list \<Rightarrow>
     compute_budget_instruction_details \<Rightarrow> compute_budget_instruction_details" where
  "with_requests ids de i ixs d = d
     \<lparr>requested_compute_unit_limit :=
        first_of (requested_compute_unit_limit d) (occurrences sel_limit ids de i ixs),
      requested_compute_unit_price :=
        first_of (requested_compute_unit_price d) (occurrences sel_price ids de i ixs),
      requested_heap_size := first_of (requested_heap_size d) (occurrences sel_heap ids de i ixs),
      requested_loaded_accounts_data_size_limit :=
        first_of (requested_loaded_accounts_data_size_limit d) (occurrences sel_loaded ids de i ixs),
      num_non_compute_budget_instructions :=
        saturating_bump (non_budget_count ids ixs) (num_non_compute_budget_instructions d)\<rparr>"


lemma decodable_simps [simp]:
  "decodable ids de []"
  "decodable ids de (pi # ixs) \<longleftrightarrow> (fst pi = compute_budget_id ids \<longrightarrow>
     (case de (data (snd pi)) of
        None \<Rightarrow> False | Some (OtherComputeBudgetInstruction _) \<Rightarrow> False | Some _ \<Rightarrow> True)) \<and>
     decodable ids de ixs"
  by (simp_all add: decodable_def)

lemma at_most_one_simps [simp]:
  "at_most_one found []"
  "at_most_one None (x # xs) \<longleftrightarrow> xs = []"
  "\<not> at_most_one (Some y) (x # xs)"
  "at_most_one (Some y) xs \<longleftrightarrow> xs = []"
  by (auto simp: at_most_one_def split: option.splits)

lemma first_of_simps [simp]:
  "first_of found [] = found"
  "first_of None (x # xs) = Some x"
  "first_of (Some y) xs = Some y"
  by (simp_all add: first_of_def split: option.splits)

text \<open>The scan fails with the index of one of the instructions scanned.\<close>

definition request_failure :: "nat \<Rightarrow> nat \<Rightarrow> 'a transaction_result \<Rightarrow> bool" where
  "request_failure i n r \<longleftrightarrow> (\<exists>j. i \<le> j \<and> j < i + n \<and>
     (r = Inl (DuplicateInstruction (of_nat j)) \<or>
      r = Inl (InstructionError (of_nat j) InvalidInstructionData)))"

lemma request_failure_Suc: "request_failure (Suc i) n r \<Longrightarrow> request_failure i (Suc n) r"
  by (auto simp: request_failure_def intro: Suc_leD)

lemma request_failure_intros:
  "request_failure i (Suc n) (Inl (DuplicateInstruction (of_nat i)))"
  "request_failure i (Suc n) (Inl (InstructionError (of_nat i) InvalidInstructionData))"
  by (auto simp: request_failure_def)

lemma not_NoneD: "x \<noteq> None \<Longrightarrow> \<exists>y. x = Some y"
  by simp

lemma other_instruction_step:
  assumes "fst pi \<noteq> compute_budget_id ids"
    and "d' = d\<lparr>num_non_compute_budget_instructions := saturating_add (num_non_compute_budget_instructions d) 1\<rparr>"
  shows "requests_ok ids de i (pi # ixs) d \<longleftrightarrow> requests_ok ids de (Suc i) ixs d'"
    and "with_requests ids de i (pi # ixs) d = with_requests ids de (Suc i) ixs d'"
  using assms by (simp_all add: requests_ok_def with_requests_def non_budget_count_def
      occurrences_Cons saturating_bump_Suc)

lemma process_instruction_InrE:
  assumes "process_instruction de index ix d = Inr d'"
  obtains (heap) v where "de (data ix) = Some (RequestHeapFrame v)" "requested_heap_size d = None"
      "d' = d\<lparr>requested_heap_size := Some (index, v)\<rparr>"
    | (limit) v where "de (data ix) = Some (SetComputeUnitLimit v)" "requested_compute_unit_limit d = None"
      "d' = d\<lparr>requested_compute_unit_limit := Some (index, v)\<rparr>"
    | (price) v where "de (data ix) = Some (SetComputeUnitPrice v)" "requested_compute_unit_price d = None"
      "d' = d\<lparr>requested_compute_unit_price := Some (index, v)\<rparr>"
    | (loaded) v where "de (data ix) = Some (SetLoadedAccountsDataSizeLimit v)"
      "requested_loaded_accounts_data_size_limit d = None"
      "d' = d\<lparr>requested_loaded_accounts_data_size_limit := Some (index, v)\<rparr>"
  using assms
  by (simp add: process_instruction_def del: not_None_eq
      split: option.splits compute_budget_instruction.splits if_splits)

lemma request_step_ok:
  assumes "fst pi = compute_budget_id ids" and "process_instruction de (of_nat i) (snd pi) d = Inr d'"
  shows "requests_ok ids de i (pi # ixs) d \<longleftrightarrow> requests_ok ids de (Suc i) ixs d'"
    and "with_requests ids de i (pi # ixs) d = with_requests ids de (Suc i) ixs d'"
  using assms(2)
  by (cases rule: process_instruction_InrE; simp add: assms(1) requests_ok_def with_requests_def
      non_budget_count_def occurrences_Cons)+

lemma request_step_error:
  assumes "fst pi = compute_budget_id ids" and "process_instruction de (of_nat i) (snd pi) d = Inl e"
  shows "\<not> requests_ok ids de i (pi # ixs) d \<and>
    request_failure i (Suc n) (Inl e :: compute_budget_instruction_details transaction_result)"
proof (cases "de (data (snd pi))")
  case None
  with assms show ?thesis
    by (auto simp: process_instruction_def requests_ok_def intro: request_failure_intros)
next
  case (Some c)
  with assms show ?thesis
    by (cases c) (auto simp: process_instruction_def requests_ok_def occurrences_Cons
        intro: request_failure_intros simp del: not_None_eq dest!: not_NoneD split: if_splits)
qed

lemma collect_requests_law:
  assumes "indexed keys ixs" and "memo_ok (check_program_id ids) keys flags"
  shows "\<exists>r. collect_requests ids de ixs i flags d = Some r \<and>
    (if requests_ok ids de i ixs d then r = Inr (with_requests ids de i ixs d)
     else request_failure i (length ixs) r)"
  using assms
proof (induction ixs arbitrary: i flags d)
  case Nil
  then show ?case
    by (simp add: requests_ok_def with_requests_def non_budget_count_def)
next
  case (Cons pi ixs)
  from cb_filter.get_ok [OF Cons.prems(2) index_in_filter] Cons.prems(1)
  obtain flags' where get: "is_compute_budget_program ids (unat (program_id_index (snd pi))) (fst pi) flags =
      Some (check_program_id ids (fst pi), flags')" and memo: "memo_ok (check_program_id ids) keys flags'"
    by fastforce
  from Cons.prems(1) have idx: "indexed keys ixs" by simp
  have lift: ?case
    if "collect_requests ids de (pi # ixs) i flags d = collect_requests ids de ixs (Suc i) flags' d'"
      and ok: "requests_ok ids de i (pi # ixs) d \<longleftrightarrow> requests_ok ids de (Suc i) ixs d'"
        "with_requests ids de i (pi # ixs) d = with_requests ids de (Suc i) ixs d'" for d'
    unfolding ok that(1) using Cons.IH [OF idx memo, of "Suc i" d']
    by (auto intro: request_failure_Suc split: if_splits)
  show ?case
  proof (cases "fst pi = compute_budget_id ids")
    case False
    let ?d = "d\<lparr>num_non_compute_budget_instructions := saturating_add (num_non_compute_budget_instructions d) 1\<rparr>"
    show ?thesis
      by (rule lift [of ?d, OF _ other_instruction_step [OF False refl]])
         (simp add: get False check_program_id_eq)
  next
    case True
    show ?thesis
    proof (cases "process_instruction de (of_nat i) (snd pi) d")
      case (Inl e)
      with True get request_step_error [OF True Inl, of ixs "length ixs"] show ?thesis by (simp add: check_program_id_eq)
    next
      case (Inr d')
      show ?thesis
        by (rule lift [of d', OF _ request_step_ok [OF True Inr]])
           (use get True Inr in \<open>simp add: check_program_id_eq\<close>)
    qed
  qed
qed


section \<open>The default compute-unit limit\<close>

definition kind_count :: "program_kind \<Rightarrow> program_ids \<Rightarrow> program_instruction list \<Rightarrow> nat" where
  "kind_count kind ids ixs = length (filter (\<lambda>pi. check_program_kind ids (fst pi) = kind) ixs)"

lemma kind_count_simps [simp]:
  "kind_count kind ids [] = 0"
  "kind_count kind ids (pi # ixs) =
     (if check_program_kind ids (fst pi) = kind then Suc (kind_count kind ids ixs)
      else kind_count kind ids ixs)"
  by (simp_all add: kind_count_def)

lemma collect_builtins_law:
  assumes "indexed keys ixs" and "memo_ok (check_program_kind ids) keys flags"
    and "migrating_builtin d = [c]"
  shows "collect_builtins ids ixs flags d = Some (d
    \<lparr>num_non_migratable_builtin_instructions := saturating_bump (kind_count Builtin ids ixs)
       (num_non_migratable_builtin_instructions d),
     num_non_builtin_instructions := saturating_bump (kind_count NotBuiltin ids ixs)
       (num_non_builtin_instructions d),
     migrating_builtin := [saturating_bump (kind_count (MigratingBuiltin 0) ids ixs) c]\<rparr>)"
  using assms
proof (induction ixs arbitrary: flags d c)
  case (Cons pi ixs)
  from kind_filter.get_ok [OF Cons.prems(2) index_in_filter] Cons.prems(1)
  obtain flags' where get: "get_program_kind ids (unat (program_id_index (snd pi))) (fst pi) flags =
      Some (check_program_kind ids (fst pi), flags')" and memo: "memo_ok (check_program_kind ids) keys flags'"
    by fastforce
  consider "check_program_kind ids (fst pi) = Builtin" | "check_program_kind ids (fst pi) = NotBuiltin"
    | "check_program_kind ids (fst pi) = MigratingBuiltin 0"
    by (metis check_program_kind_eq)
  then show ?case
    using Cons.IH [OF _ memo] Cons.prems get
    by cases (simp_all add: count_program_kind_def saturating_bump_Suc)
qed simp

definition default_units :: "program_ids \<Rightarrow> feature_set \<Rightarrow> pubkey \<Rightarrow> nat" where
  "default_units ids fs k =
     (if k \<in> fst ` set (non_migrating_builtins_costs ids) then 3000
      else if k = vote_id ids \<and> bls_pubkey_management_in_vote_account_id ids \<notin> fs then 3000
      else 200000)"

lemma sum_default_units:
  "(\<Sum>pi\<leftarrow>ixs. default_units ids fs (fst pi)) =
     (kind_count Builtin ids ixs +
       (if bls_pubkey_management_in_vote_account_id ids \<in> fs then 0
        else kind_count (MigratingBuiltin 0) ids ixs)) * 3000 +
     (kind_count NotBuiltin ids ixs +
       (if bls_pubkey_management_in_vote_account_id ids \<in> fs
        then kind_count (MigratingBuiltin 0) ids ixs else 0)) * 200000"
  by (induction ixs) (auto simp: default_units_def check_program_kind_eq)

lemma kind_counts_le:
  "kind_count Builtin ids ixs + kind_count NotBuiltin ids ixs +
     kind_count (MigratingBuiltin 0) ids ixs \<le> length ixs"
  by (induction ixs) (auto simp: check_program_kind_eq)

lemma split_migrated_single:
  "split_migrated ids fs [c] 0 (0, 0) =
     Some (if bls_pubkey_management_in_vote_account_id ids \<in> fs then (c, 0) else (0, c))"
  by (auto simp: get_migration_feature_id_def migrating_builtins_costs_def
      core_bpf_migration_feature_def word_gt_0)

lemma unat_weighted_sum:
  fixes a b :: u32
  shows "unat (saturating_add (saturating_mul a max_builtin_allocation_compute_unit_limit)
      (saturating_mul b default_instruction_compute_unit_limit)) =
    min (unat a * 3000 + unat b * 200000) (2 ^ 32 - 1)"
  by (simp add: unat_saturating max_builtin_allocation_compute_unit_limit_def
      default_instruction_compute_unit_limit_def min_def)

lemma unat_add_u16:
  "unat (saturating_add (ucast (a :: u16)) (ucast (b :: u16)) :: u32) = unat a + unat b"
  using unsigned_less [of a, where ?'a = nat] unsigned_less [of b, where ?'a = nat]
  by (simp add: unat_saturating_add unat_ucast_up min_def)

lemma default_limit_law:
  assumes "migrating_builtin d = [c]"
  shows "\<exists>l. calculate_default_compute_unit_limit ids fs d = Some l \<and> unat l =
    min ((unat (num_non_migratable_builtin_instructions d) +
        (if bls_pubkey_management_in_vote_account_id ids \<in> fs then 0 else unat c)) * 3000 +
      (unat (num_non_builtin_instructions d) +
        (if bls_pubkey_management_in_vote_account_id ids \<in> fs then unat c else 0)) * 200000) (2 ^ 32 - 1)"
  unfolding calculate_default_compute_unit_limit_def assms split_migrated_single
  by (cases "bls_pubkey_management_in_vote_account_id ids \<in> fs")
     (simp_all add: unat_weighted_sum unat_add_u16 [where b = 0, simplified] unat_add_u16)


section \<open>The limits\<close>

definition acceptable :: "program_ids \<Rightarrow> decoder \<Rightarrow> program_instruction list \<Rightarrow> bool" where
  "acceptable ids de ixs \<longleftrightarrow> decodable ids de ixs \<and>
     length (occurrences sel_heap ids de 0 ixs) \<le> 1 \<and>
     length (occurrences sel_limit ids de 0 ixs) \<le> 1 \<and>
     length (occurrences sel_price ids de 0 ixs) \<le> 1 \<and>
     length (occurrences sel_loaded ids de 0 ixs) \<le> 1"

definition request ::
    "(compute_budget_instruction \<Rightarrow> 'v option) \<Rightarrow> program_ids \<Rightarrow> decoder \<Rightarrow>
     program_instruction list \<Rightarrow> (u8 \<times> 'v) option" where
  "request sel ids de ixs = first_of None (occurrences sel ids de 0 ixs)"

text \<open>The compute units a transaction gets: what it requests, else the sum of the defaults.\<close>

definition unit_limit :: "program_ids \<Rightarrow> feature_set \<Rightarrow> decoder \<Rightarrow> program_instruction list \<Rightarrow> nat" where
  "unit_limit ids fs de ixs = min 1400000
     (case request sel_limit ids de ixs of
        Some (_, l) \<Rightarrow> unat l | None \<Rightarrow> (\<Sum>pi\<leftarrow>ixs. default_units ids fs (fst pi)))"

lemma requests_ok_default: "requests_ok ids de 0 ixs (default_details ids) \<longleftrightarrow> acceptable ids de ixs"
  by (simp add: requests_ok_def acceptable_def default_details_def at_most_one_def)

text \<open>
  The scan succeeds exactly on acceptable requests, and then its details carry the requests
  and, when no limit is requested, yield the default limit.
\<close>

lemma details_law:
  assumes "indexed keys ixs" and "length ixs < 2 ^ 16"
  shows "\<exists>r. details_try_from ids de ixs = Some r \<and>
    (if acceptable ids de ixs then \<exists>d l. r = Inr d \<and>
        requested_heap_size d = request sel_heap ids de ixs \<and>
        requested_compute_unit_price d = request sel_price ids de ixs \<and>
        requested_loaded_accounts_data_size_limit d = request sel_loaded ids de ixs \<and>
        (case requested_compute_unit_limit d of
           None \<Rightarrow> calculate_default_compute_unit_limit ids fs d
         | Some (_, limit) \<Rightarrow> Some limit) = Some l \<and>
        unat (min l max_compute_unit_limit) = unit_limit ids fs de ixs
     else request_failure 0 (length ixs) r)"
proof -
  from collect_requests_law [OF assms(1) cb_filter.new_ok, of ids de 0 "default_details ids"]
  obtain r where r: "collect_requests ids de ixs 0 new_filter (default_details ids) = Some r"
    and ok: "if acceptable ids de ixs then r = Inr (with_requests ids de 0 ixs (default_details ids))
      else request_failure 0 (length ixs) r"
    by (auto simp: requests_ok_default)
  show ?thesis
  proof (cases "acceptable ids de ixs")
    case False
    with ok r show ?thesis by (auto simp: details_try_from_def request_failure_def)
  next
    case True
    let ?d = "with_requests ids de 0 ixs (default_details ids)"
    have mig: "migrating_builtin ?d = [0]"
      by (simp add: with_requests_def default_details_def migrating_builtins_costs_def)
    have req: "requested_compute_unit_limit ?d = request sel_limit ids de ixs"
      by (simp add: with_requests_def default_details_def request_def)
    show ?thesis
    proof (cases "request sel_limit ids de ixs")
      case (Some il)
      with True ok r req show ?thesis
        by (cases il) (auto simp: details_try_from_def with_requests_def default_details_def
            request_def unit_limit_def unat_min max_compute_unit_limit_def)
    next
      case None
      note coll = collect_builtins_law [OF assms(1) kind_filter.new_ok mig]
      have cnt: "kind_count k ids ixs < 2 ^ 16" for k
        using assms(2) length_filter_le le_less_trans unfolding kind_count_def by blast
      obtain d' where d': "collect_builtins ids ixs new_filter ?d = Some d'"
        and "migrating_builtin d' = [saturating_bump (kind_count (MigratingBuiltin 0) ids ixs) 0]"
        and nums: "unat (num_non_migratable_builtin_instructions d') = kind_count Builtin ids ixs"
          "unat (num_non_builtin_instructions d') = kind_count NotBuiltin ids ixs"
        and same: "requested_heap_size d' = requested_heap_size ?d"
          "requested_compute_unit_price d' = requested_compute_unit_price ?d"
          "requested_compute_unit_limit d' = requested_compute_unit_limit ?d"
          "requested_loaded_accounts_data_size_limit d' = requested_loaded_accounts_data_size_limit ?d"
        using coll cnt [of Builtin] cnt [of NotBuiltin]
        by (simp add: unat_saturating_bump with_requests_def default_details_def)
      from default_limit_law [OF this(2), of ids fs]
      obtain l where l: "calculate_default_compute_unit_limit ids fs d' = Some l"
        and "unat l = min (\<Sum>pi\<leftarrow>ixs. default_units ids fs (fst pi)) (2 ^ 32 - 1)"
        using cnt [of "MigratingBuiltin 0"] unfolding sum_default_units nums
        by (auto simp: unat_saturating_bump)
      with True ok r req None d' same show ?thesis
        by (auto simp: details_try_from_def with_requests_def default_details_def
            request_def unit_limit_def unat_min max_compute_unit_limit_def)
    qed
  qed
qed

end
