(* ===== verification/Compute_Budget_Props.thy ===== *)
theory Compute_Budget_Props
  imports Compute_Budget_Laws
begin

text \<open>The properties of the compute budget and of the transaction metadata.\<close>

section \<open>Limits\<close>

definition accepted :: "program_ids \<Rightarrow> decoder \<Rightarrow> program_instruction list \<Rightarrow> bool" where
  "accepted ids de ixs \<longleftrightarrow> acceptable ids de ixs \<and>
     (case request sel_heap ids de ixs of None \<Rightarrow> True | Some (_, h) \<Rightarrow> sanitize_requested_heap_size ids h) \<and>
     (case request sel_loaded ids de ixs of None \<Rightarrow> True | Some (_, b) \<Rightarrow> b \<noteq> 0)"

definition limits_of ::
    "program_ids \<Rightarrow> feature_set \<Rightarrow> decoder \<Rightarrow> program_instruction list \<Rightarrow> compute_budget_limits" where
  "limits_of ids fs de ixs =
     \<lparr>updated_heap_bytes =
        min (case request sel_heap ids de ixs of None \<Rightarrow> heap_length ids | Some (_, h) \<Rightarrow> h) max_heap_frame_bytes,
      compute_unit_limit = of_nat (unit_limit ids fs de ixs),
      compute_unit_price = (case request sel_price ids de ixs of None \<Rightarrow> 0 | Some (_, p) \<Rightarrow> p),
      loaded_accounts_bytes =
        min (case request sel_loaded ids de ixs of None \<Rightarrow> max_loaded_accounts_data_size_bytes
             | Some (_, b) \<Rightarrow> b) max_loaded_accounts_data_size_bytes\<rparr>"

lemma sanitize_law:
  assumes "requested_heap_size d = request sel_heap ids de ixs"
    and "requested_compute_unit_price d = request sel_price ids de ixs"
    and "requested_loaded_accounts_data_size_limit d = request sel_loaded ids de ixs"
    and "(case requested_compute_unit_limit d of
           None \<Rightarrow> calculate_default_compute_unit_limit ids fs d
         | Some (_, limit) \<Rightarrow> Some limit) = Some l"
    and "unat (min l max_compute_unit_limit) = unit_limit ids fs de ixs" and "acceptable ids de ixs"
  shows "\<exists>r. sanitize_and_convert_to_compute_budget_limits ids fs d = Some r \<and>
    (if accepted ids de ixs then r = Inr (limits_of ids fs de ixs) else isl r)"
proof -
  have "min l max_compute_unit_limit = of_nat (unit_limit ids fs de ixs)"
    using assms(5) by (metis of_nat_unat ucast_id)
  then show ?thesis
    using assms(6)
    unfolding sanitize_and_convert_to_compute_budget_limits_def assms(1-4)
    by (cases "accepted ids de ixs"; cases "request sel_heap ids de ixs"; cases "request sel_loaded ids de ixs")
       (auto simp: accepted_def limits_of_def min_heap_frame_bytes_def split: if_splits)
qed

text \<open>
  C21. Processing a transaction's compute-budget instructions never panics and accepts exactly
  the transactions whose requests decode, are unique per kind and are in range; the limits are
  then the requested ones (clamped) or the defaults, the default compute-unit limit being the
  sum over the instructions of 3000 for a builtin program and 200000 for any other, at most
  1400000. The memoised program-id filters and the first-byte table do not show.
\<close>

theorem compute_budget_limits_correct:
  assumes "indexed keys ixs" and "length ixs < 2 ^ 16"
  shows "\<exists>r. process_compute_budget_instructions ids de ixs fs = Some r \<and>
    (if accepted ids de ixs then r = Inr (limits_of ids fs de ixs) else isl r)"
proof -
  from details_law [OF assms, of ids de fs] obtain r where r: "details_try_from ids de ixs = Some r"
    and law: "if acceptable ids de ixs then \<exists>d l. r = Inr d \<and>
        requested_heap_size d = request sel_heap ids de ixs \<and>
        requested_compute_unit_price d = request sel_price ids de ixs \<and>
        requested_loaded_accounts_data_size_limit d = request sel_loaded ids de ixs \<and>
        (case requested_compute_unit_limit d of
           None \<Rightarrow> calculate_default_compute_unit_limit ids fs d
         | Some (_, limit) \<Rightarrow> Some limit) = Some l \<and>
        unat (min l max_compute_unit_limit) = unit_limit ids fs de ixs
     else request_failure 0 (length ixs) r" by blast
  show ?thesis
  proof (cases "acceptable ids de ixs")
    case False
    with r law show ?thesis
      by (auto simp: process_compute_budget_instructions_def accepted_def request_failure_def)
  next
    case True
    with law obtain d l where d: "r = Inr d" and laws:
        "requested_heap_size d = request sel_heap ids de ixs"
        "requested_compute_unit_price d = request sel_price ids de ixs"
        "requested_loaded_accounts_data_size_limit d = request sel_loaded ids de ixs"
        "(case requested_compute_unit_limit d of
           None \<Rightarrow> calculate_default_compute_unit_limit ids fs d
         | Some (_, limit) \<Rightarrow> Some limit) = Some l"
        "unat (min l max_compute_unit_limit) = unit_limit ids fs de ixs" by auto
    from sanitize_law [OF laws True] r d show ?thesis
      by (simp add: process_compute_budget_instructions_def)
  qed
qed

definition demo_ids :: program_ids where
  "demo_ids = \<lparr>vote_id = 1, bls_pubkey_management_in_vote_account_id = 2, system_program_id = 3,
     compute_budget_id = 4, bpf_loader_upgradeable_id = 5, bpf_loader_deprecated_id = 6,
     bpf_loader_id = 7, loader_v4_id = 8, secp256k1_program_id = 9, ed25519_program_id = 10,
     secp256r1_program_id = 11, heap_length = 32768\<rparr>"

definition demo_decoder :: decoder where
  "demo_decoder bs = (case bs of [k, b] \<Rightarrow> if k = 1 then Some (SetComputeUnitPrice (ucast b)) else None
     | _ \<Rightarrow> None)"

definition demo_ixs :: "program_instruction list" where
  "demo_ixs = [(4, \<lparr>program_id_index = 1, data = [1, 9]\<rparr>), (1, \<lparr>program_id_index = 2, data = []\<rparr>),
     (9, \<lparr>program_id_index = 3, data = [2, 0]\<rparr>), (400, \<lparr>program_id_index = 4, data = [7]\<rparr>)]"

definition demo_keys :: "nat \<Rightarrow> pubkey" where
  "demo_keys = (\<lambda>_. 0)(1 := 4, 2 := 1, 3 := 9, 4 := 400)"

lemma demo_indexed: "indexed demo_keys demo_ixs"
  by (simp add: demo_ixs_def demo_keys_def)

lemma demo_length: "length demo_ixs < 65536" and demo_heap: "heap_length demo_ids = 32768"
  by (simp_all add: demo_ixs_def demo_ids_def)

theorem compute_budget_limits_correct_witness:
  "process_compute_budget_instructions demo_ids demo_decoder demo_ixs {2} =
     Some (Inr \<lparr>updated_heap_bytes = 32768, compute_unit_limit = 406000, compute_unit_price = 9,
       loaded_accounts_bytes = 67108864\<rparr>)"
proof -
  have occ: "occurrences sel_heap demo_ids demo_decoder 0 demo_ixs = []"
      "occurrences sel_limit demo_ids demo_decoder 0 demo_ixs = []"
      "occurrences sel_price demo_ids demo_decoder 0 demo_ixs = [(0, 9)]"
      "occurrences sel_loaded demo_ids demo_decoder 0 demo_ixs = []"
    by (simp_all add: demo_ixs_def demo_ids_def demo_decoder_def occurrences_Cons)
  have units: "unit_limit demo_ids {2} demo_decoder demo_ixs = 406000"
    by (simp add: unit_limit_def request_def occ)
       (simp add: demo_ixs_def demo_ids_def default_units_def non_migrating_builtins_costs_def)
  have "accepted demo_ids demo_decoder demo_ixs"
    by (simp add: accepted_def acceptable_def request_def occ)
       (simp add: demo_ixs_def demo_ids_def demo_decoder_def)
  with compute_budget_limits_correct [OF demo_indexed, of demo_ids demo_decoder "{2}"] show ?thesis
    by (simp add: limits_of_def units request_def occ demo_length demo_heap max_heap_frame_bytes_def
        max_loaded_accounts_data_size_bytes_def)
qed

lemma sanitize_InrD:
  assumes "sanitize_and_convert_to_compute_budget_limits ids fs d = Some (Inr l)"
  shows "(updated_heap_bytes l = min (heap_length ids) max_heap_frame_bytes \<or>
      sanitize_requested_heap_size ids (updated_heap_bytes l)) \<and>
    compute_unit_limit l \<le> max_compute_unit_limit \<and>
    loaded_accounts_bytes l \<noteq> 0 \<and> loaded_accounts_bytes l \<le> max_loaded_accounts_data_size_bytes"
proof -
  let ?limit = "case requested_compute_unit_limit d of
              None \<Rightarrow> calculate_default_compute_unit_limit ids fs d
            | Some (_, limit) \<Rightarrow> Some limit"
  have nz: "max_loaded_accounts_data_size_bytes \<noteq> 0"
    by (simp add: max_loaded_accounts_data_size_bytes_def)
  then have nz': "min bytes max_loaded_accounts_data_size_bytes \<noteq> 0" if "bytes \<noteq> 0" for bytes
    using that by (simp add: min_def)
  have heap: "min bytes max_heap_frame_bytes = bytes"
    if "sanitize_requested_heap_size ids bytes" for bytes
    using that by (simp add: sanitize_requested_heap_size_def min_absorb1)
  from assms obtain limit where limit: "?limit = Some limit"
    unfolding sanitize_and_convert_to_compute_budget_limits_def
    by (auto split: option.splits if_splits sum.splits elim!: bind_eq_SomeE)
  show ?thesis
    using assms nz unfolding sanitize_and_convert_to_compute_budget_limits_def limit
    by (cases "requested_heap_size d"; cases "requested_loaded_accounts_data_size_limit d")
       (auto simp: min_heap_frame_bytes_def nz' heap split: if_splits)
qed

text \<open>
  C33. Whatever a transaction requests, the limits it is given are in range: the heap is a
  multiple of 1024 between the minimum and 256 KiB, at most 1400000 compute units, and a
  nonzero loaded-data limit of at most 64 MiB.
\<close>

theorem compute_budget_limits_in_range:
  assumes "process_compute_budget_instructions ids de ixs fs = Some (Inr l)"
    and "heap_length ids \<le> 256 * 1024" and "heap_length ids mod 1024 = 0"
  shows "heap_length ids \<le> updated_heap_bytes l \<and> updated_heap_bytes l \<le> 256 * 1024 \<and>
    updated_heap_bytes l mod 1024 = 0 \<and> compute_unit_limit l \<le> 1400000 \<and>
    loaded_accounts_bytes l \<noteq> 0 \<and> loaded_accounts_bytes l \<le> 67108864"
proof -
  from assms(1) obtain d where "sanitize_and_convert_to_compute_budget_limits ids fs d = Some (Inr l)"
    by (auto simp: process_compute_budget_instructions_def split: sum.splits elim!: bind_eq_SomeE)
  note range = sanitize_InrD [OF this]
  have "min (heap_length ids) max_heap_frame_bytes = heap_length ids"
    using assms(2) by (simp add: max_heap_frame_bytes_def)
  moreover have "sanitize_requested_heap_size ids (heap_length ids)"
    unfolding sanitize_requested_heap_size_def min_heap_frame_bytes_def
    using assms(2,3) by (simp add: max_heap_frame_bytes_def)
  ultimately have "sanitize_requested_heap_size ids (updated_heap_bytes l)" using range by auto
  with range show ?thesis
    unfolding sanitize_requested_heap_size_def min_heap_frame_bytes_def max_compute_unit_limit_def
      max_heap_frame_bytes_def max_loaded_accounts_data_size_bytes_def by simp
qed

theorem compute_budget_limits_in_range_witness:
  "process_compute_budget_instructions demo_ids demo_decoder [] {} =
     Some (Inr \<lparr>updated_heap_bytes = 32768, compute_unit_limit = 0, compute_unit_price = 0,
       loaded_accounts_bytes = 67108864\<rparr>) \<and> (32768 :: u32) mod 1024 = 0"
proof -
  have run: "process_compute_budget_instructions demo_ids demo_decoder [] {} =
     Some (Inr \<lparr>updated_heap_bytes = 32768, compute_unit_limit = 0, compute_unit_price = 0,
       loaded_accounts_bytes = 67108864\<rparr>)"
    by (simp add: process_compute_budget_instructions_def details_try_from_def default_details_def
        migrating_builtins_costs_def sanitize_and_convert_to_compute_budget_limits_def
        calculate_default_compute_unit_limit_def saturating_add_def saturating_mul_def
        min_heap_frame_bytes_def demo_heap max_heap_frame_bytes_def max_compute_unit_limit_def
        max_loaded_accounts_data_size_bytes_def)
  from compute_budget_limits_in_range [OF run] show ?thesis by (simp add: run demo_heap)
qed


section \<open>Priority fee and effective price\<close>

lemma unat_mult_u128: "unat (saturating_mul (ucast (a :: u64)) (ucast (b :: u64)) :: u128) = unat a * unat b"
proof -
  have "unat a \<le> 2 ^ 64 - 1" "unat b \<le> 2 ^ 64 - 1"
    using unsigned_less [of a, where ?'a = nat] unsigned_less [of b, where ?'a = nat] by simp_all
  then have "unat a * unat b \<le> (2 ^ 64 - 1) * (2 ^ 64 - 1)" by (rule mult_le_mono)
  then show ?thesis by (simp add: unat_saturating_mul unat_ucast_up min_def)
qed

lemma u64_mult_bound: "unat (a :: u64) * unat (b :: u64) \<le> (2 ^ 64 - 1) * (2 ^ 64 - 1)"
  using unsigned_less [of a, where ?'a = nat] unsigned_less [of b, where ?'a = nat]
  by (intro mult_le_mono) simp_all

lemma u64_try_from_law:
  "u64_try_from x = (if unat x < 2 ^ 64 then Some (of_nat (unat x)) else None)"
  by (simp add: u64_try_from_def)

text \<open>The fee in lamports: the exact product in micro-lamports, rounded up.\<close>

definition exact_fee :: "nat \<Rightarrow> nat \<Rightarrow> nat" where
  "exact_fee price limit = (price * limit + 999999) div 1000000"

lemma round_up_ge: "x \<le> (x + 999999) div 1000000 * 1000000" for x :: nat
  using div_mult_mod_eq [of "x + 999999" 1000000] mod_less_divisor [of 1000000 "x + 999999"] by linarith

lemma prioritization_fee_law:
  "unat (get_prioritization_fee_of price limit) = min (exact_fee (unat price) (unat limit)) (2 ^ 64 - 1)"
proof -
  have sub: "ucast (saturating_sub micro_lamports_per_lamport 1) = (999999 :: u128)"
    "(ucast micro_lamports_per_lamport :: u128) = 1000000"
    by (simp_all add: micro_lamports_per_lamport_def saturating_sub_def)
  have "unat (saturating_add (saturating_mul (ucast price) (ucast limit) :: u128) 999999) =
      unat price * unat limit + 999999"
    using u64_mult_bound [of price limit] by (simp add: unat_saturating_add unat_mult_u128)
  then have "unat (saturating_add (saturating_mul (ucast price) (ucast limit) :: u128) 999999 div 1000000) =
      exact_fee (unat price) (unat limit)"
    by (simp add: unat_div exact_fee_def)
  then show ?thesis
    by (simp add: get_prioritization_fee_of_def sub Let_def u64_try_from_law unat_max_word
        unsigned_of_nat take_bit_nat_eq_self)
qed

lemma effective_price_law:
  assumes "config_compute_unit_limit c \<noteq> 0"
  shows "unat (compute_unit_price_in_microlamports c) =
    (let q = unat (config_priority_fee_lamports c) * 1000000 div unat (config_compute_unit_limit c)
     in if q < 2 ^ 64 then q else 0)"
proof -
  have "unat (saturating_mul (ucast (config_priority_fee_lamports c)) 1000000 :: u128) =
      unat (config_priority_fee_lamports c) * 1000000"
    using unat_mult_u128 [of "config_priority_fee_lamports c" 1000000] by simp
  moreover have "unat (ucast (config_compute_unit_limit c) :: u128) = unat (config_compute_unit_limit c)"
    by (rule unat_ucast_up) simp
  then have "(ucast (config_compute_unit_limit c) :: u128) \<noteq> 0"
    using assms by (metis unsigned_eq_0_iff)
  ultimately show ?thesis
    by (simp add: compute_unit_price_in_microlamports_def Let_def u64_try_from_law unat_div
        unat_ucast_up unsigned_of_nat take_bit_nat_eq_self)
qed


text \<open>
  The highest price on one compute unit is reported as 0.
\<close>

definition top_price :: compute_budget_instruction_details where
  "top_price = \<lparr>requested_compute_unit_limit = Some (0, 1), requested_compute_unit_price = Some (1, - 1),
     requested_heap_size = None, requested_loaded_accounts_data_size_limit = None,
     num_non_compute_budget_instructions = 0, num_non_migratable_builtin_instructions = 0,
     num_non_builtin_instructions = 0, migrating_builtin = [0]\<rparr>"



section \<open>Signature and data counts\<close>

definition signatures_of :: "program_id_status \<Rightarrow> program_ids \<Rightarrow> program_instruction list \<Rightarrow> nat" where
  "signatures_of st ids ixs =
     (\<Sum>pi\<leftarrow>filter (\<lambda>pi. check_signature_program_id ids (fst pi) = st) ixs.
        case data (snd pi) of [] \<Rightarrow> 0 | b # _ \<Rightarrow> unat b)"

definition signature_details_of :: "program_ids \<Rightarrow> program_instruction list \<Rightarrow> precompile_signature_details" where
  "signature_details_of ids ixs =
     \<lparr>num_secp256k1_instruction_signatures = of_nat (signatures_of Secp256k1 ids ixs),
      num_ed25519_instruction_signatures = of_nat (signatures_of Ed25519 ids ixs),
      num_secp256r1_instruction_signatures = of_nat (signatures_of Secp256r1 ids ixs)\<rparr>"

lemma signatures_of_snoc:
  "signatures_of st ids (ixs @ [pi]) = signatures_of st ids ixs +
     (if check_signature_program_id ids (fst pi) = st
      then (case data (snd pi) of [] \<Rightarrow> 0 | b # _ \<Rightarrow> unat b) else 0)"
  by (simp add: signatures_of_def)

lemma add_signatures_law:
  "add_signatures (check_signature_program_id ids (fst pi)) (snd pi) (signature_details_of ids ixs) =
     signature_details_of ids (ixs @ [pi])"
  by (cases "check_signature_program_id ids (fst pi)")
     (auto simp: add_signatures_def signature_details_of_def signatures_of_snoc
        get_num_signatures_in_instruction_def split: list.splits)

lemma sig_process_law:
  assumes "memo_ok (check_signature_program_id ids) keys (sig_filter b)"
    and "keys (unat (program_id_index (snd pi))) = fst pi"
    and "sig_value b = signature_details_of ids ixs"
  shows "\<exists>b'. sig_process_instruction ids pi b = Some b' \<and>
    memo_ok (check_signature_program_id ids) keys (sig_filter b') \<and>
    sig_value b' = signature_details_of ids (ixs @ [pi])"
  using sig_filter.get_ok [OF assms(1) index_in_filter assms(2)] assms(3) add_signatures_law [of ids pi ixs]
  by (auto simp: sig_process_instruction_def)

definition data_len :: "program_instruction list \<Rightarrow> nat" where
  "data_len ixs = (\<Sum>pi\<leftarrow>ixs. length (data (snd pi)))"

lemma saturating_len_add:
  "b < 65536 \<Longrightarrow> saturating_add (of_nat (min a 65535)) (of_nat b) = (of_nat (min (a + b) 65535) :: u16)"
  by (simp add: word_unat_eq_iff unat_saturating_add unsigned_of_nat take_bit_nat_eq_self)

text \<open>
  C35. One pass over a transaction's instructions never panics and yields the number of
  precompile signatures of each kind (the first data byte of every instruction of that
  program) and the total length of the instruction data, saturating at 65535.
\<close>

theorem instruction_meta_correct:
  assumes "indexed keys ixs" and "list_all (\<lambda>pi. length (data (snd pi)) < 2 ^ 16) ixs"
  shows "instruction_meta_try_new ids ixs = Some (Inr
    \<lparr>meta_signature_details = signature_details_of ids ixs,
     meta_instruction_data_len = of_nat (min (data_len ixs) 65535)\<rparr>) \<and>
    get_precompile_signature_details ids ixs = Some (signature_details_of ids ixs)"
proof
  let ?ok = "\<lambda>pre b. memo_ok (check_signature_program_id ids) keys (sig_filter b) \<and>
    sig_value b = signature_details_of ids pre"
  have init: "?ok [] default_signature_builder"
    by (simp add: default_signature_builder_def sig_filter.new_ok signature_details_of_def signatures_of_def)
  have "\<exists>b. foldM (sig_process_instruction ids) ixs default_signature_builder = Some b \<and> ?ok ixs b"
    by (rule foldM_rule [where I = "\<lambda>pre post b. ?ok pre b"])
       (use init sig_process_law assms(1) in \<open>auto simp: indexed_def\<close>)
  then show "get_precompile_signature_details ids ixs = Some (signature_details_of ids ixs)"
    by (auto simp: get_precompile_signature_details_def)
  have "\<exists>s. foldM (\<lambda>pi (b, len). do {
         b' \<leftarrow> sig_process_instruction ids pi b; Some (b', len_process_instruction pi len)
       }) ixs (default_signature_builder, 0) = Some s \<and>
      ?ok ixs (fst s) \<and> snd s = of_nat (min (data_len ixs) 65535)"
  proof (rule foldM_rule [where I = "\<lambda>pre post s. ?ok pre (fst s) \<and> snd s = of_nat (min (data_len pre) 65535)"])
    fix pre pi post and s :: "signature_builder \<times> u16"
    assume ixs: "ixs = pre @ pi # post" and s: "?ok pre (fst s) \<and> snd s = of_nat (min (data_len pre) 65535)"
    from ixs assms have key: "keys (unat (program_id_index (snd pi))) = fst pi"
      and len: "length (data (snd pi)) < 65536" by (simp_all add: indexed_def)
    have "len_process_instruction pi (snd s) = of_nat (min (data_len (pre @ [pi])) 65535)"
      using s len by (simp add: len_process_instruction_def data_len_def saturating_len_add)
    with sig_process_law [of ids keys "fst s" pi pre] s key
    show "\<exists>s'. (\<lambda>(b, len). do {
           b' \<leftarrow> sig_process_instruction ids pi b; Some (b', len_process_instruction pi len)
         }) s = Some s' \<and> ?ok (pre @ [pi]) (fst s') \<and> snd s' = of_nat (min (data_len (pre @ [pi])) 65535)"
      by (cases s) auto
  qed (simp_all add: init data_len_def)
  then show "instruction_meta_try_new ids ixs = Some (Inr
    \<lparr>meta_signature_details = signature_details_of ids ixs,
     meta_instruction_data_len = of_nat (min (data_len ixs) 65535)\<rparr>)"
    by (auto simp: instruction_meta_try_new_def)
qed

theorem instruction_meta_correct_witness:
  "instruction_meta_try_new demo_ids demo_ixs = Some (Inr
    \<lparr>meta_signature_details = \<lparr>num_secp256k1_instruction_signatures = 2,
       num_ed25519_instruction_signatures = 0, num_secp256r1_instruction_signatures = 0\<rparr>,
     meta_instruction_data_len = 5\<rparr>)"
  using instruction_meta_correct [OF demo_indexed, of demo_ids]
  by (simp add: demo_ixs_def signature_details_of_def signatures_of_def data_len_def
      check_signature_program_id_def demo_ids_def)

end
