(* ===== verification/Cost_Model.thy ===== *)
theory Cost_Model
  imports Compute_Budget
begin

text \<open>
  \<open>crates/runtime/cost-model/src\<close>: the cost of a transaction (\<open>cost_model.rs\<close>,
  \<open>transaction_cost.rs\<close>) and the tracker that admits transactions into a block under its
  limits (\<open>cost_tracker.rs\<close>, \<open>block_cost_limits.rs\<close>).

  A transaction is the record of what the traits \<open>TransactionMeta\<close> and \<open>SVMMessage\<close> return for
  it. The decoder of system instructions, the two size limits of
  \<open>solana-system-interface\<close> and the feature gate id are the fields of \<open>env\<close>; the
  variants of \<open>SystemInstruction\<close> carry the only field the source reads, the space.
\<close>

section \<open>Block limits\<close>

definition compute_unit_to_us_ratio :: u64 where
  "compute_unit_to_us_ratio = 30"

definition signature_cost_const :: u64 where
  "signature_cost_const = compute_unit_to_us_ratio * 24"

definition secp256k1_verify_cost :: u64 where
  "secp256k1_verify_cost = compute_unit_to_us_ratio * 223"

definition ed25519_verify_strict_cost :: u64 where
  "ed25519_verify_strict_cost = compute_unit_to_us_ratio * 80"

definition secp256r1_verify_cost :: u64 where
  "secp256r1_verify_cost = compute_unit_to_us_ratio * 160"

definition write_lock_units :: u64 where
  "write_lock_units = compute_unit_to_us_ratio * 10"

definition instruction_data_bytes_cost :: u64 where
  "instruction_data_bytes_cost = 140 div compute_unit_to_us_ratio"

definition max_block_units :: u64 where
  "max_block_units = 60000000"

definition max_writable_account_units :: u64 where
  "max_writable_account_units = 24000000"

definition max_block_accounts_data_size_delta :: u64 where
  "max_block_accounts_data_size_delta = 100000000"

definition simd_0286_block_limit :: u64 where
  "simd_0286_block_limit = 100000000"


section \<open>Transaction cost\<close>

record runtime_tx =
  tx_num_transaction_signatures :: u64
  tx_precompile_signatures :: precompile_signature_details
  tx_config :: versioned_transaction_configuration
  tx_instruction_data_len :: u16
  tx_instructions :: "program_instruction list"
  tx_num_write_locks :: u64
  tx_account_keys :: "pubkey list"
  tx_is_writable :: "nat \<Rightarrow> bool"

datatype system_instruction =
    CreateAccount u64
  | CreateAccountWithSeed u64
  | Allocate u64
  | AllocateWithSeed u64
  | CreateAccountAllowPrefund u64
  | Assign
  | Transfer
  | AdvanceNonceAccount
  | WithdrawNonceAccount
  | InitializeNonceAccount
  | AuthorizeNonceAccount
  | UpgradeNonceAccount
  | AssignWithSeed
  | TransferWithSeed

record cost_env =
  env_ids :: program_ids
  limited_deserialize :: "u8 list \<Rightarrow> system_instruction option"
  max_permitted_data_length :: u64
  max_permitted_accounts_data_allocations_per_transaction :: u64
  create_account_allow_prefund_id :: pubkey

record usage_cost_details =
  transaction :: runtime_tx
  signature_cost :: u64
  write_lock_cost :: u64
  data_bytes_cost :: u16
  programs_execution_cost :: u64
  loaded_accounts_data_size_cost :: u64
  allocated_accounts_data_size :: u64

type_synonym transaction_cost = usage_cost_details

definition cost_sum :: "transaction_cost \<Rightarrow> u64" where
  "cost_sum c = saturating_add (saturating_add (saturating_add (saturating_add
     (signature_cost c) (write_lock_cost c)) (ucast (data_bytes_cost c)))
     (programs_execution_cost c)) (loaded_accounts_data_size_cost c)"

definition writable_accounts :: "transaction_cost \<Rightarrow> pubkey list" where
  "writable_accounts c =
     map snd (filter (\<lambda>(index, key). tx_is_writable (transaction c) index)
       (List.enumerate 0 (tx_account_keys (transaction c))))"

definition num_transaction_signatures :: "transaction_cost \<Rightarrow> u64" where
  "num_transaction_signatures c = tx_num_transaction_signatures (transaction c)"

definition num_secp256k1_signatures :: "transaction_cost \<Rightarrow> u64" where
  "num_secp256k1_signatures c = num_secp256k1_instruction_signatures (tx_precompile_signatures (transaction c))"

definition num_ed25519_signatures :: "transaction_cost \<Rightarrow> u64" where
  "num_ed25519_signatures c = num_ed25519_instruction_signatures (tx_precompile_signatures (transaction c))"

definition num_secp256r1_signatures :: "transaction_cost \<Rightarrow> u64" where
  "num_secp256r1_signatures c = num_secp256r1_instruction_signatures (tx_precompile_signatures (transaction c))"


section \<open>Cost model\<close>

definition account_data_cost_page_size :: u64 where
  "account_data_cost_page_size = saturating_mul 32 1024"

datatype system_program_account_allocation =
    NoAllocation
  | SomeAllocation u64
  | FailedAllocation

definition get_signature_cost :: "runtime_tx \<Rightarrow> u64" where
  "get_signature_cost tx =
     (let d = tx_precompile_signatures tx in
      saturating_add (saturating_add (saturating_add
        (saturating_mul (tx_num_transaction_signatures tx) signature_cost_const)
        (saturating_mul (num_secp256k1_instruction_signatures d) secp256k1_verify_cost))
        (saturating_mul (num_ed25519_instruction_signatures d) ed25519_verify_strict_cost))
        (saturating_mul (num_secp256r1_instruction_signatures d) secp256r1_verify_cost))"

definition get_write_lock_cost :: "u64 \<Rightarrow> u64" where
  "get_write_lock_cost num_write_locks = saturating_mul write_lock_units num_write_locks"

definition calculate_pages_for_bytes :: "u32 \<Rightarrow> u64" where
  "calculate_pages_for_bytes bytes =
     saturating_add (ucast bytes) (saturating_sub account_data_cost_page_size 1)
       div account_data_cost_page_size"

definition calculate_pages_cost :: "u64 \<Rightarrow> u64" where
  "calculate_pages_cost num_pages = saturating_mul num_pages default_heap_cost"

definition calculate_loaded_accounts_data_size_cost :: "u32 \<Rightarrow> u64" where
  "calculate_loaded_accounts_data_size_cost bytes = calculate_pages_cost (calculate_pages_for_bytes bytes)"

definition get_estimated_execution_cost :: "cost_env \<Rightarrow> feature_set \<Rightarrow> runtime_tx \<Rightarrow> (u64 \<times> u64) option" where
  "get_estimated_execution_cost env fs tx =
     map_option (\<lambda>r. case r of
         Inr c \<Rightarrow> (ucast (config_compute_unit_limit c),
           calculate_loaded_accounts_data_size_cost (config_loaded_accounts_data_size_limit c))
       | Inl _ \<Rightarrow> (0, 0))
       (try_into_config (env_ids env) fs (tx_config tx))"

definition get_instructions_data_cost :: "runtime_tx \<Rightarrow> u16" where
  "get_instructions_data_cost tx = tx_instruction_data_len tx div ucast instruction_data_bytes_cost"

definition calculate_account_data_size_on_deserialized_system_instruction ::
    "cost_env \<Rightarrow> feature_set \<Rightarrow> system_instruction \<Rightarrow> system_program_account_allocation" where
  "calculate_account_data_size_on_deserialized_system_instruction env fs ix =
     (let validate_space = (\<lambda>space.
        if space > max_permitted_data_length env then FailedAllocation else SomeAllocation space)
      in case ix of
        CreateAccount space \<Rightarrow> validate_space space
      | CreateAccountWithSeed space \<Rightarrow> validate_space space
      | Allocate space \<Rightarrow> validate_space space
      | AllocateWithSeed space \<Rightarrow> validate_space space
      | CreateAccountAllowPrefund space \<Rightarrow>
          if create_account_allow_prefund_id env \<notin> fs then FailedAllocation else validate_space space
      | Assign \<Rightarrow> NoAllocation
      | Transfer \<Rightarrow> NoAllocation
      | AdvanceNonceAccount \<Rightarrow> NoAllocation
      | WithdrawNonceAccount \<Rightarrow> NoAllocation
      | InitializeNonceAccount \<Rightarrow> NoAllocation
      | AuthorizeNonceAccount \<Rightarrow> NoAllocation
      | UpgradeNonceAccount \<Rightarrow> NoAllocation
      | AssignWithSeed \<Rightarrow> NoAllocation
      | TransferWithSeed \<Rightarrow> NoAllocation)"

definition calculate_account_data_size_on_instruction ::
    "cost_env \<Rightarrow> feature_set \<Rightarrow> program_instruction \<Rightarrow> system_program_account_allocation" where
  "calculate_account_data_size_on_instruction env fs pi =
     (if fst pi = system_program_id (env_ids env) then
        (case limited_deserialize env (data (snd pi)) of
           Some ix \<Rightarrow> calculate_account_data_size_on_deserialized_system_instruction env fs ix
         | None \<Rightarrow> FailedAllocation)
      else NoAllocation)"

text \<open>The loop: \<open>None\<close> is its early \<open>return 0\<close>.\<close>

primrec attempted_allocation ::
    "cost_env \<Rightarrow> feature_set \<Rightarrow> program_instruction list \<Rightarrow> u64 \<Rightarrow> u64 option" where
  "attempted_allocation env fs [] acc = Some acc"
| "attempted_allocation env fs (pi # ixs) acc =
     (case calculate_account_data_size_on_instruction env fs pi of
        FailedAllocation \<Rightarrow> None
      | NoAllocation \<Rightarrow> attempted_allocation env fs ixs acc
      | SomeAllocation bytes \<Rightarrow> attempted_allocation env fs ixs (saturating_add acc bytes))"

definition calculate_allocated_accounts_data_size ::
    "cost_env \<Rightarrow> feature_set \<Rightarrow> program_instruction list \<Rightarrow> u64" where
  "calculate_allocated_accounts_data_size env fs ixs =
     (case attempted_allocation env fs ixs 0 of
        None \<Rightarrow> 0
      | Some bytes \<Rightarrow> min (max_permitted_accounts_data_allocations_per_transaction env) bytes)"

definition calculate_transaction_cost ::
    "cost_env \<Rightarrow> feature_set \<Rightarrow> runtime_tx \<Rightarrow> program_instruction list \<Rightarrow> u64 \<Rightarrow> u64 \<Rightarrow> u64 \<Rightarrow> u16 \<Rightarrow>
     transaction_cost" where
  "calculate_transaction_cost env fs tx ixs num_write_locks exec_cost loaded_cost data_cost =
     \<lparr>transaction = tx, signature_cost = get_signature_cost tx,
      write_lock_cost = get_write_lock_cost num_write_locks, data_bytes_cost = data_cost,
      programs_execution_cost = exec_cost, loaded_accounts_data_size_cost = loaded_cost,
      allocated_accounts_data_size = calculate_allocated_accounts_data_size env fs ixs\<rparr>"

definition estimate_cost ::
    "cost_env \<Rightarrow> feature_set \<Rightarrow> runtime_tx \<Rightarrow> program_instruction list \<Rightarrow> u64 \<Rightarrow> transaction_cost option" where
  "estimate_cost env fs tx ixs num_write_locks = do {
     (exec_cost, loaded_cost) \<leftarrow> get_estimated_execution_cost env fs tx;
     Some (calculate_transaction_cost env fs tx ixs num_write_locks exec_cost loaded_cost
       (get_instructions_data_cost tx))
   }"

definition calculate_cost :: "cost_env \<Rightarrow> feature_set \<Rightarrow> runtime_tx \<Rightarrow> transaction_cost option" where
  "calculate_cost env fs tx = do {
     (exec_cost, loaded_cost) \<leftarrow> get_estimated_execution_cost env fs tx;
     Some (calculate_transaction_cost env fs tx (tx_instructions tx) (tx_num_write_locks tx)
       exec_cost loaded_cost (get_instructions_data_cost tx))
   }"

definition calculate_cost_for_executed_transaction ::
    "cost_env \<Rightarrow> feature_set \<Rightarrow> runtime_tx \<Rightarrow> u64 \<Rightarrow> u32 \<Rightarrow> transaction_cost" where
  "calculate_cost_for_executed_transaction env fs tx actual_exec actual_bytes =
     calculate_transaction_cost env fs tx (tx_instructions tx) (tx_num_write_locks tx) actual_exec
       (calculate_loaded_accounts_data_size_cost actual_bytes) (get_instructions_data_cost tx)"


section \<open>Cost tracker\<close>

datatype cost_tracker_error =
    BlockMaxLimit
  | AccountMaxLimit
  | AccountDataBlockLimit
  | AccountDataTotalLimit

primrec transaction_error_from :: "cost_tracker_error \<Rightarrow> transaction_error" where
  "transaction_error_from BlockMaxLimit = WouldExceedMaxBlockCostLimit"
| "transaction_error_from AccountMaxLimit = WouldExceedMaxAccountCostLimit"
| "transaction_error_from AccountDataBlockLimit = WouldExceedAccountDataBlockLimit"
| "transaction_error_from AccountDataTotalLimit = WouldExceedAccountDataTotalLimit"

record updated_costs =
  updated_block_cost :: u64
  updated_costliest_account_cost :: u64

record cost_tracker_limits =
  limit_account_cost :: u64
  limit_block_cost :: u64
  limit_allocated_data_size :: u64

definition limits_max :: cost_tracker_limits where
  "limits_max = \<lparr>limit_account_cost = - 1, limit_block_cost = - 1, limit_allocated_data_size = - 1\<rparr>"

definition default_limits :: cost_tracker_limits where
  "default_limits = \<lparr>limit_account_cost = max_writable_account_units, limit_block_cost = max_block_units,
     limit_allocated_data_size = max_block_accounts_data_size_delta\<rparr>"

record cost_tracker =
  limits :: cost_tracker_limits
  cost_by_writable_accounts :: "pubkey \<rightharpoonup> u64"
  block_cost :: u64
  transaction_count :: u64
  tracked_data_size :: u64
  transaction_signature_count :: u64
  secp256k1_instruction_signature_count :: u64
  ed25519_instruction_signature_count :: u64
  in_flight_transaction_count :: u64
  secp256r1_instruction_signature_count :: u64

definition default_cost_tracker :: cost_tracker where
  "default_cost_tracker =
     \<lparr>limits = default_limits, cost_by_writable_accounts = Map.empty, block_cost = 0,
      transaction_count = 0, tracked_data_size = 0, transaction_signature_count = 0,
      secp256k1_instruction_signature_count = 0, ed25519_instruction_signature_count = 0,
      in_flight_transaction_count = 0, secp256r1_instruction_signature_count = 0\<rparr>"

definition set_limits :: "cost_tracker_limits \<Rightarrow> cost_tracker \<Rightarrow> cost_tracker" where
  "set_limits ls t = t\<lparr>limits := ls\<rparr>"

definition set_limits_max :: "cost_tracker \<Rightarrow> cost_tracker" where
  "set_limits_max t = set_limits limits_max t"

definition new_from_parent_limits :: "cost_tracker \<Rightarrow> cost_tracker" where
  "new_from_parent_limits t = set_limits (limits t) default_cost_tracker"

definition add_transactions_in_flight :: "u64 \<Rightarrow> cost_tracker \<Rightarrow> cost_tracker" where
  "add_transactions_in_flight n t =
     t\<lparr>in_flight_transaction_count := saturating_add (in_flight_transaction_count t) n\<rparr>"

definition sub_transactions_in_flight :: "u64 \<Rightarrow> cost_tracker \<Rightarrow> cost_tracker" where
  "sub_transactions_in_flight n t =
     t\<lparr>in_flight_transaction_count := saturating_sub (in_flight_transaction_count t) n\<rparr>"

definition would_fit :: "transaction_cost \<Rightarrow> cost_tracker \<Rightarrow> cost_tracker_error + unit" where
  "would_fit c t =
     (let cost = cost_sum c in
      if saturating_add (block_cost t) cost > limit_block_cost (limits t) then Inl BlockMaxLimit
      else if cost > limit_account_cost (limits t) then Inl AccountMaxLimit
      else if saturating_add (tracked_data_size t) (allocated_accounts_data_size c)
                > limit_allocated_data_size (limits t) then Inl AccountDataBlockLimit
      else if list_ex (\<lambda>key. case cost_by_writable_accounts t key of
                Some chained_cost \<Rightarrow> saturating_add chained_cost cost > limit_account_cost (limits t)
              | None \<Rightarrow> False) (writable_accounts c) then Inl AccountMaxLimit
      else Inr ())"

text \<open>\<open>entry(key).or_insert(0)\<close>, then the update of the entry.\<close>

definition account_cost_of :: "cost_tracker \<Rightarrow> pubkey \<Rightarrow> u64" where
  "account_cost_of t k = (case cost_by_writable_accounts t k of None \<Rightarrow> 0 | Some v \<Rightarrow> v)"

definition set_account_cost :: "pubkey \<Rightarrow> u64 \<Rightarrow> cost_tracker \<Rightarrow> cost_tracker" where
  "set_account_cost k v t = t\<lparr>cost_by_writable_accounts := (cost_by_writable_accounts t)(k \<mapsto> v)\<rparr>"

primrec charge_accounts :: "u64 \<Rightarrow> pubkey list \<Rightarrow> u64 \<Rightarrow> cost_tracker \<Rightarrow> u64 \<times> cost_tracker" where
  "charge_accounts adjustment [] costliest t = (costliest, t)"
| "charge_accounts adjustment (k # ks) costliest t =
     (let v = saturating_add (account_cost_of t k) adjustment
      in charge_accounts adjustment ks (max costliest v) (set_account_cost k v t))"

definition add_transaction_execution_cost ::
    "transaction_cost \<Rightarrow> u64 \<Rightarrow> cost_tracker \<Rightarrow> u64 \<times> cost_tracker" where
  "add_transaction_execution_cost c adjustment t =
     (let (costliest, t') = charge_accounts adjustment (writable_accounts c) 0 t
      in (costliest, t'\<lparr>block_cost := block_cost t' + adjustment\<rparr>))"

definition sub_transaction_execution_cost ::
    "transaction_cost \<Rightarrow> u64 \<Rightarrow> cost_tracker \<Rightarrow> cost_tracker" where
  "sub_transaction_execution_cost c adjustment t =
     (let t' = fold (\<lambda>k t. set_account_cost k (saturating_sub (account_cost_of t k) adjustment) t)
        (writable_accounts c) t
      in t'\<lparr>block_cost := block_cost t' - adjustment\<rparr>)"

definition add_transaction_cost :: "transaction_cost \<Rightarrow> cost_tracker \<Rightarrow> u64 \<times> cost_tracker" where
  "add_transaction_cost c t =
     add_transaction_execution_cost c (cost_sum c)
       (t\<lparr>tracked_data_size := saturating_add (tracked_data_size t) (allocated_accounts_data_size c),
          transaction_count := saturating_add (transaction_count t) 1,
          transaction_signature_count :=
            saturating_add (transaction_signature_count t) (num_transaction_signatures c),
          secp256k1_instruction_signature_count :=
            saturating_add (secp256k1_instruction_signature_count t) (num_secp256k1_signatures c),
          ed25519_instruction_signature_count :=
            saturating_add (ed25519_instruction_signature_count t) (num_ed25519_signatures c),
          secp256r1_instruction_signature_count :=
            saturating_add (secp256r1_instruction_signature_count t) (num_secp256r1_signatures c)\<rparr>)"

definition remove_transaction_cost :: "transaction_cost \<Rightarrow> cost_tracker \<Rightarrow> cost_tracker" where
  "remove_transaction_cost c t =
     (let t' = sub_transaction_execution_cost c (cost_sum c) t in
      t'\<lparr>tracked_data_size := saturating_sub (tracked_data_size t') (allocated_accounts_data_size c),
         transaction_count := saturating_sub (transaction_count t') 1,
         transaction_signature_count :=
           saturating_sub (transaction_signature_count t') (num_transaction_signatures c),
         secp256k1_instruction_signature_count :=
           saturating_sub (secp256k1_instruction_signature_count t') (num_secp256k1_signatures c),
         ed25519_instruction_signature_count :=
           saturating_sub (ed25519_instruction_signature_count t') (num_ed25519_signatures c),
         secp256r1_instruction_signature_count :=
           saturating_sub (secp256r1_instruction_signature_count t') (num_secp256r1_signatures c)\<rparr>)"

definition try_add ::
    "transaction_cost \<Rightarrow> cost_tracker \<Rightarrow> (cost_tracker_error + updated_costs) \<times> cost_tracker" where
  "try_add c t =
     (case would_fit c t of
        Inl e \<Rightarrow> (Inl e, t)
      | Inr _ \<Rightarrow>
          (let (costliest, t') = add_transaction_cost c t
           in (Inr \<lparr>updated_block_cost = block_cost t', updated_costliest_account_cost = costliest\<rparr>, t')))"

definition update_execution_cost ::
    "transaction_cost \<Rightarrow> u64 \<Rightarrow> u64 \<Rightarrow> cost_tracker \<Rightarrow> cost_tracker" where
  "update_execution_cost c actual_execution_units actual_loaded_cost t =
     (let actual = saturating_add actual_execution_units actual_loaded_cost;
          estimated = saturating_add (programs_execution_cost c) (loaded_accounts_data_size_cost c)
      in if actual = estimated then t
         else if actual > estimated then snd (add_transaction_execution_cost c (actual - estimated) t)
         else sub_transaction_execution_cost c (estimated - actual) t)"

definition tracker_remove :: "transaction_cost \<Rightarrow> cost_tracker \<Rightarrow> cost_tracker" where
  "tracker_remove c t = remove_transaction_cost c t"

end
