(* ===== verification/Cost_Tracker_Laws.thy ===== *)
theory Cost_Tracker_Laws
  imports Cost_Model "HOL-Library.Multiset"
begin

text \<open>
  The cost tracker implements a ledger: the multiset of the transactions it has admitted, each
  with the cost it is charged. \<open>cost_rep\<close> relates the tracker's counters to the sums over
  the ledger, every operation is shown to perform the ledger's, and the block limits are an
  invariant of every sequence of operations.
\<close>

section \<open>The ledger\<close>

type_synonym ledger = "(transaction_cost \<times> nat) multiset"

definition total :: "ledger \<Rightarrow> nat" where
  "total M = sum_mset (image_mset snd M)"

definition charged_to :: "pubkey \<Rightarrow> ledger \<Rightarrow> nat" where
  "charged_to k M = sum_mset (image_mset snd (filter_mset (\<lambda>e. k \<in> set (writable_accounts (fst e))) M))"

definition data_total :: "ledger \<Rightarrow> nat" where
  "data_total M = sum_mset (image_mset (\<lambda>e. unat (allocated_accounts_data_size (fst e))) M)"

lemma ledger_add [simp]:
  "total (add_mset e M) = snd e + total M"
  "data_total (add_mset e M) = unat (allocated_accounts_data_size (fst e)) + data_total M"
  "charged_to k (add_mset e M) =
     (if k \<in> set (writable_accounts (fst e)) then snd e + charged_to k M else charged_to k M)"
  by (simp_all add: total_def data_total_def charged_to_def)

lemma ledger_empty [simp]: "total {#} = 0" "data_total {#} = 0" "charged_to k {#} = 0"
  by (simp_all add: total_def data_total_def charged_to_def)

definition cost_rep :: "cost_tracker \<Rightarrow> ledger \<Rightarrow> bool" where
  "cost_rep t M \<longleftrightarrow> unat (block_cost t) = total M \<and> unat (tracked_data_size t) = data_total M \<and>
     (\<forall>k. unat (account_cost_of t k) = charged_to k M)"

lemma charged_le_total: "charged_to k M \<le> total M"
  by (induction M) (auto simp del: add_mset_add_mset_same_iff)


section \<open>Updating the accounts\<close>

lemma account_cost_of_set [simp]:
  "account_cost_of (set_account_cost k v t) k' = (if k' = k then v else account_cost_of t k')"
  by (simp add: account_cost_of_def set_account_cost_def)

lemma account_cost_of_fields [simp]:
  "account_cost_of (t\<lparr>block_cost := b\<rparr>) k = account_cost_of t k"
  "account_cost_of (t\<lparr>tracked_data_size := b\<rparr>) k = account_cost_of t k"
  "account_cost_of (t\<lparr>transaction_count := b\<rparr>) k = account_cost_of t k"
  "account_cost_of (t\<lparr>transaction_signature_count := b\<rparr>) k = account_cost_of t k"
  "account_cost_of (t\<lparr>secp256k1_instruction_signature_count := b\<rparr>) k = account_cost_of t k"
  "account_cost_of (t\<lparr>ed25519_instruction_signature_count := b\<rparr>) k = account_cost_of t k"
  "account_cost_of (t\<lparr>secp256r1_instruction_signature_count := b\<rparr>) k = account_cost_of t k"
  "account_cost_of (t\<lparr>limits := l\<rparr>) k = account_cost_of t k"
  by (simp_all add: account_cost_of_def)

text \<open>Everything but the per-account costs is unchanged.\<close>

definition same_totals :: "cost_tracker \<Rightarrow> cost_tracker \<Rightarrow> bool" where
  "same_totals t t' \<longleftrightarrow> t'\<lparr>cost_by_writable_accounts := cost_by_writable_accounts t\<rparr> = t"

lemma same_totals_refl [simp]: "same_totals t t"
  by (simp add: same_totals_def)

lemma same_totals_set: "same_totals (set_account_cost k v t) t' \<Longrightarrow> same_totals t t'"
  by (cases t; cases t') (auto simp: same_totals_def set_account_cost_def)

lemma same_totalsD:
  assumes "same_totals t t'"
  shows "limits t' = limits t" "block_cost t' = block_cost t" "tracked_data_size t' = tracked_data_size t"
    "transaction_count t' = transaction_count t"
    "transaction_signature_count t' = transaction_signature_count t"
    "secp256k1_instruction_signature_count t' = secp256k1_instruction_signature_count t"
    "ed25519_instruction_signature_count t' = ed25519_instruction_signature_count t"
    "secp256r1_instruction_signature_count t' = secp256r1_instruction_signature_count t"
    "in_flight_transaction_count t' = in_flight_transaction_count t"
  using assms by (cases t; cases t'; simp add: same_totals_def)+

lemma charge_accounts_law:
  assumes "distinct ks"
  shows "same_totals t (snd (charge_accounts a ks m t)) \<and>
    (\<forall>k. account_cost_of (snd (charge_accounts a ks m t)) k =
      (if k \<in> set ks then saturating_add (account_cost_of t k) a else account_cost_of t k)) \<and>
    fst (charge_accounts a ks m t) = fold max (map (\<lambda>k. saturating_add (account_cost_of t k) a) ks) m"
  using assms
proof (induction ks arbitrary: m t)
  case (Cons k ks)
  let ?v = "saturating_add (account_cost_of t k) a"
  note IH = Cons.IH [of "set_account_cost k ?v t" "max m ?v"]
  have eq: "map (\<lambda>k'. saturating_add (account_cost_of (set_account_cost k ?v t) k') a) ks =
      map (\<lambda>k'. saturating_add (account_cost_of t k') a) ks"
    using Cons.prems by (intro map_cong) auto
  have "fst (charge_accounts a (k # ks) m t) =
      fold max (map (\<lambda>k. saturating_add (account_cost_of t k) a) (k # ks)) m"
    using IH Cons.prems by (simp add: Let_def max.commute eq del: account_cost_of_set)
  with IH Cons.prems show ?case by (auto simp: Let_def intro: same_totals_set)
qed simp

lemma refund_accounts_law:
  assumes "distinct ks"
  shows "same_totals t (fold (\<lambda>k t. set_account_cost k (saturating_sub (account_cost_of t k) a) t) ks t) \<and>
    (\<forall>k. account_cost_of (fold (\<lambda>k t. set_account_cost k (saturating_sub (account_cost_of t k) a) t) ks t) k =
      (if k \<in> set ks then saturating_sub (account_cost_of t k) a else account_cost_of t k))"
  using assms
proof (induction ks arbitrary: t)
  case (Cons k ks)
  from Cons.IH [of "set_account_cost k (saturating_sub (account_cost_of t k) a) t"] Cons.prems
  show ?case by (auto intro: same_totals_set)
qed simp

text \<open>Charging and refunding an amount, as seen from outside.\<close>

lemma add_execution_law:
  assumes "distinct (writable_accounts c)" and "add_transaction_execution_cost c a t = (m, t')"
  shows "same_totals (t\<lparr>block_cost := block_cost t + a\<rparr>) t' \<and>
    (\<forall>k. account_cost_of t' k = (if k \<in> set (writable_accounts c)
      then saturating_add (account_cost_of t k) a else account_cost_of t k)) \<and>
    m = fold max (map (\<lambda>k. saturating_add (account_cost_of t k) a) (writable_accounts c)) 0"
proof -
  obtain m0 t0 where ch: "charge_accounts a (writable_accounts c) 0 t = (m0, t0)" by fastforce
  with charge_accounts_law [OF assms(1), of t a 0] have "same_totals t t0" by simp
  moreover from this have "block_cost t0 = block_cost t" by (rule same_totalsD)
  ultimately have "same_totals (t\<lparr>block_cost := block_cost t + a\<rparr>) (t0\<lparr>block_cost := block_cost t0 + a\<rparr>)"
    by (cases t; cases t0) (simp add: same_totals_def)
  with charge_accounts_law [OF assms(1), of t a 0] ch assms(2) show ?thesis
    by (auto simp: add_transaction_execution_cost_def)
qed

lemma sub_execution_law:
  assumes "distinct (writable_accounts c)"
  shows "same_totals (t\<lparr>block_cost := block_cost t - a\<rparr>) (sub_transaction_execution_cost c a t) \<and>
    (\<forall>k. account_cost_of (sub_transaction_execution_cost c a t) k = (if k \<in> set (writable_accounts c)
      then saturating_sub (account_cost_of t k) a else account_cost_of t k))"
proof -
  let ?t0 = "fold (\<lambda>k t. set_account_cost k (saturating_sub (account_cost_of t k) a) t) (writable_accounts c) t"
  have "same_totals t ?t0" using refund_accounts_law [OF assms] by blast
  moreover from this have "block_cost ?t0 = block_cost t" by (rule same_totalsD)
  ultimately have "same_totals (t\<lparr>block_cost := block_cost t - a\<rparr>) (?t0\<lparr>block_cost := block_cost ?t0 - a\<rparr>)"
    by (cases t; cases ?t0) (simp add: same_totals_def)
  with refund_accounts_law [OF assms, of t a] show ?thesis
    by (simp add: sub_transaction_execution_cost_def Let_def)
qed


section \<open>Operations on the ledger\<close>

lemma cost_rep_charge:
  assumes "cost_rep t M" and "distinct (writable_accounts c)"
    and "add_transaction_execution_cost c a t = (m, t')"
    and "total M + unat a < 2 ^ 64"
  shows "unat (block_cost t') = total M + unat a \<and> unat (tracked_data_size t') = data_total M \<and>
    (\<forall>k. unat (account_cost_of t' k) =
      (if k \<in> set (writable_accounts c) then charged_to k M + unat a else charged_to k M))"
proof -
  note law = add_execution_law [OF assms(2,3)]
  have "block_cost t' = block_cost t + a" "tracked_data_size t' = tracked_data_size t"
    using law by (auto dest: same_totalsD)
  moreover have "charged_to k M + unat a \<le> 2 ^ 64 - 1" for k
    using charged_le_total [of k M] assms(4) by linarith
  ultimately show ?thesis using law assms(1,4)
    by (simp add: cost_rep_def unat_word_ariths unat_saturating_add min_def)
qed

lemma cost_rep_refund:
  assumes "cost_rep t M" and "distinct (writable_accounts c)" and "unat a \<le> total M"
  shows "unat (block_cost (sub_transaction_execution_cost c a t)) = total M - unat a \<and>
    unat (tracked_data_size (sub_transaction_execution_cost c a t)) = data_total M \<and>
    (\<forall>k. unat (account_cost_of (sub_transaction_execution_cost c a t) k) =
      (if k \<in> set (writable_accounts c) then charged_to k M - unat a else charged_to k M))"
proof -
  note law = sub_execution_law [OF assms(2), of t a]
  have "block_cost (sub_transaction_execution_cost c a t) = block_cost t - a"
      "tracked_data_size (sub_transaction_execution_cost c a t) = tracked_data_size t"
    using law by (auto dest: same_totalsD)
  moreover have "a \<le> block_cost t" using assms(1,3) by (simp add: cost_rep_def word_le_nat_alt)
  ultimately show ?thesis using law assms(1)
    by (simp add: cost_rep_def unat_sub unat_saturating_sub)
qed

text \<open>The verdict of \<open>would_fit\<close> in terms of the ledger.\<close>

definition ledger_verdict :: "cost_tracker_limits \<Rightarrow> ledger \<Rightarrow> transaction_cost \<Rightarrow> cost_tracker_error option" where
  "ledger_verdict ls M c =
     (let cost = unat (cost_sum c) in
      if total M + cost > unat (limit_block_cost ls) then Some BlockMaxLimit
      else if cost > unat (limit_account_cost ls) then Some AccountMaxLimit
      else if data_total M + unat (allocated_accounts_data_size c) > unat (limit_allocated_data_size ls)
        then Some AccountDataBlockLimit
      else if \<exists>k \<in> set (writable_accounts c). charged_to k M + cost > unat (limit_account_cost ls)
        then Some AccountMaxLimit
      else None)"

definition finite_limits :: "cost_tracker_limits \<Rightarrow> bool" where
  "finite_limits ls \<longleftrightarrow> limit_account_cost ls \<noteq> - 1 \<and> limit_block_cost ls \<noteq> - 1 \<and>
     limit_allocated_data_size ls \<noteq> - 1"

lemma less_saturating_add:
  "l \<noteq> - 1 \<Longrightarrow> l < saturating_add a b \<longleftrightarrow> unat l < unat a + unat b" for l :: u64
proof -
  assume "l \<noteq> - 1"
  then have "unat l \<noteq> 2 ^ 64 - 1" by (auto simp: word_unat_eq_iff unat_max_word)
  moreover have "unat l < 2 ^ 64" using unsigned_less [of l, where ?'a = nat] by simp
  ultimately show ?thesis by (auto simp: word_less_nat_alt unat_saturating_add)
qed

lemma would_fit_law:
  assumes "cost_rep t M" and "finite_limits (limits t)"
  shows "would_fit c t = (case ledger_verdict (limits t) M c of None \<Rightarrow> Inr () | Some e \<Rightarrow> Inl e)"
proof -
  let ?lim = "limit_account_cost (limits t)"
  have nz: "?lim \<noteq> - 1" "limit_block_cost (limits t) \<noteq> - 1" "limit_allocated_data_size (limits t) \<noteq> - 1"
    using assms(2) by (auto simp: finite_limits_def)
  have acc: "(case cost_by_writable_accounts t k of
        Some chained_cost \<Rightarrow> saturating_add chained_cost (cost_sum c) > ?lim | None \<Rightarrow> False) \<longleftrightarrow>
      charged_to k M + unat (cost_sum c) > unat ?lim" if "unat (cost_sum c) \<le> unat ?lim" for k
    using assms(1) that nz
    by (auto simp: cost_rep_def account_cost_of_def less_saturating_add split: option.splits dest!: spec [of _ k])
  have block: "saturating_add (block_cost t) (cost_sum c) > limit_block_cost (limits t) \<longleftrightarrow>
      total M + unat (cost_sum c) > unat (limit_block_cost (limits t))"
    and data: "saturating_add (tracked_data_size t) (allocated_accounts_data_size c)
        > limit_allocated_data_size (limits t) \<longleftrightarrow>
      data_total M + unat (allocated_accounts_data_size c) > unat (limit_allocated_data_size (limits t))"
    using assms(1) nz by (simp_all add: less_saturating_add cost_rep_def)
  have self: "cost_sum c > ?lim \<longleftrightarrow> unat (cost_sum c) > unat ?lim" by (rule word_less_nat_alt)
  show ?thesis
    unfolding would_fit_def ledger_verdict_def Let_def block data self list_ex_iff
    by (cases "unat (cost_sum c) > unat ?lim") (simp_all add: acc del: not_less)
qed

text \<open>
  \<open>try_add\<close>: refused transactions leave the tracker alone; an admitted one is entered in the
  ledger with its full estimated cost.
\<close>

lemma try_add_law:
  assumes "cost_rep t M" and "finite_limits (limits t)" and "distinct (writable_accounts c)"
  shows "case ledger_verdict (limits t) M c of
      Some e \<Rightarrow> try_add c t = (Inl e, t)
    | None \<Rightarrow> \<exists>u t'. try_add c t = (Inr u, t') \<and> cost_rep t' (add_mset (c, unat (cost_sum c)) M) \<and>
        limits t' = limits t \<and> updated_block_cost u = block_cost t'"
proof (cases "ledger_verdict (limits t) M c")
  case (Some e)
  with would_fit_law [OF assms(1,2), of c] show ?thesis by (simp add: try_add_def)
next
  case None
  let ?t = "t\<lparr>tracked_data_size := saturating_add (tracked_data_size t) (allocated_accounts_data_size c),
          transaction_count := saturating_add (transaction_count t) 1,
          transaction_signature_count :=
            saturating_add (transaction_signature_count t) (num_transaction_signatures c),
          secp256k1_instruction_signature_count :=
            saturating_add (secp256k1_instruction_signature_count t) (num_secp256k1_signatures c),
          ed25519_instruction_signature_count :=
            saturating_add (ed25519_instruction_signature_count t) (num_ed25519_signatures c),
          secp256r1_instruction_signature_count :=
            saturating_add (secp256r1_instruction_signature_count t) (num_secp256r1_signatures c)\<rparr>"
  from None have le: "total M + unat (cost_sum c) \<le> unat (limit_block_cost (limits t))"
      "data_total M + unat (allocated_accounts_data_size c) \<le> unat (limit_allocated_data_size (limits t))"
    by (auto simp: ledger_verdict_def Let_def split: if_splits)
  have lt: "unat (limit_block_cost (limits t)) < 2 ^ 64" "unat (limit_allocated_data_size (limits t)) < 2 ^ 64"
    using unsigned_less [where ?'a = nat and ?'b = 64] by simp_all
  obtain m t' where add: "add_transaction_execution_cost c (cost_sum c) ?t = (m, t')" by fastforce
  note law = add_execution_law [OF assms(3) add]
  have fields: "block_cost t' = block_cost t + cost_sum c" "limits t' = limits t"
    "tracked_data_size t' = saturating_add (tracked_data_size t) (allocated_accounts_data_size c)"
    using law by (auto dest: same_totalsD)
  have acc: "account_cost_of t' k = (if k \<in> set (writable_accounts c)
      then saturating_add (account_cost_of t k) (cost_sum c) else account_cost_of t k)" for k
    using law by simp
  have "charged_to k M + unat (cost_sum c) \<le> 2 ^ 64 - 1" for k
    using charged_le_total [of k M] le(1) lt(1) by linarith
  then have "unat (account_cost_of t' k) = charged_to k (add_mset (c, unat (cost_sum c)) M)" for k
    using assms(1) by (simp add: acc cost_rep_def unat_saturating_add)
  moreover have "unat (block_cost t') = total (add_mset (c, unat (cost_sum c)) M)"
    using assms(1) le(1) lt(1) by (simp add: fields cost_rep_def unat_word_ariths)
  moreover have "unat (tracked_data_size t') = data_total (add_mset (c, unat (cost_sum c)) M)"
    using assms(1) le(2) lt(2) by (simp add: fields cost_rep_def unat_saturating_add)
  ultimately have "cost_rep t' (add_mset (c, unat (cost_sum c)) M) \<and> limits t' = limits t"
    by (simp add: cost_rep_def fields)
  moreover from None would_fit_law [OF assms(1,2), of c] have "would_fit c t = Inr ()" by simp
  ultimately show ?thesis using None add by (simp add: try_add_def add_transaction_cost_def)
qed

text \<open>\<open>remove\<close>: the entry of a transaction that was not committed disappears.\<close>

lemma remove_law:
  assumes "cost_rep t (add_mset (c, unat (cost_sum c)) M)" and "distinct (writable_accounts c)"
  shows "cost_rep (tracker_remove c t) M \<and> limits (tracker_remove c t) = limits t"
proof -
  let ?t = "sub_transaction_execution_cost c (cost_sum c) t"
  from cost_rep_refund [OF assms(1,2), of "cost_sum c"]
  have "unat (block_cost ?t) = total M" "unat (tracked_data_size ?t) = unat (allocated_accounts_data_size c) + data_total M"
      "\<forall>k. unat (account_cost_of ?t k) = charged_to k M" by simp_all
  moreover have "limits ?t = limits t"
    using sub_execution_law [OF assms(2), of t "cost_sum c"] by (auto dest: same_totalsD)
  ultimately show ?thesis
    by (simp add: tracker_remove_def remove_transaction_cost_def Let_def cost_rep_def unat_saturating_sub)
qed

text \<open>The part of the cost that is an estimate, and the cost without it.\<close>

definition estimated_units :: "transaction_cost \<Rightarrow> nat" where
  "estimated_units c = unat (programs_execution_cost c) + unat (loaded_accounts_data_size_cost c)"

definition fixed_units :: "transaction_cost \<Rightarrow> nat" where
  "fixed_units c = unat (signature_cost c) + unat (write_lock_cost c) + unat (data_bytes_cost c)"

lemma unat_cost_sum: "unat (cost_sum c) = min (fixed_units c + estimated_units c) (2 ^ 64 - 1)"
  by (auto simp: cost_sum_def fixed_units_def estimated_units_def unat_saturating_add unat_ucast_up)

text \<open>
  \<open>update_execution_cost\<close>: the estimate in the entry of a committed transaction is replaced
  by what it used.
\<close>

lemma update_law:
  assumes "cost_rep t (add_mset (c, unat (cost_sum c)) M)" and "distinct (writable_accounts c)"
    and "cost_sum c \<noteq> - 1" and "unat units + unat loaded < 2 ^ 64"
    and "total M + fixed_units c + unat units + unat loaded < 2 ^ 64"
  shows "cost_rep (update_execution_cost c units loaded t)
      (add_mset (c, fixed_units c + unat units + unat loaded) M) \<and>
    limits (update_execution_cost c units loaded t) = limits t"
proof -
  let ?act = "saturating_add units loaded"
  let ?est = "saturating_add (programs_execution_cost c) (loaded_accounts_data_size_cost c)"
  have sum: "unat (cost_sum c) = fixed_units c + estimated_units c"
    and lt: "fixed_units c + estimated_units c < 2 ^ 64 - 1"
    using assms(3) unat_cost_sum [of c] by (auto simp: word_unat_eq_iff unat_max_word)
  have act: "unat ?act = unat units + unat loaded" and est: "unat ?est = estimated_units c"
    using assms(4) lt by (simp_all add: unat_saturating_add estimated_units_def)
  consider "unat ?act = unat ?est" | "unat ?est < unat ?act" | "unat ?act < unat ?est" by linarith
  then show ?thesis
  proof cases
    case 1
    with assms(1) act est sum show ?thesis
      by (simp add: update_execution_cost_def word_unat_eq_iff Let_def add.assoc)
  next
    case 2
    then have d: "unat (?act - ?est) = unat units + unat loaded - estimated_units c"
      using act est by (simp add: unat_sub word_le_nat_alt)
    obtain m t' where t': "add_transaction_execution_cost c (?act - ?est) t = (m, t')" by fastforce
    have "total (add_mset (c, unat (cost_sum c)) M) + unat (?act - ?est) < 2 ^ 64"
      using assms(5) d sum 2 act est by simp
    from cost_rep_charge [OF assms(1,2) t' this] add_execution_law [OF assms(2) t']
    show ?thesis using 2 t' d sum act est
      by (auto simp: update_execution_cost_def Let_def cost_rep_def word_unat_eq_iff
          word_less_nat_alt dest: same_totalsD)
  next
    case 3
    then have d: "unat (?est - ?act) = estimated_units c - (unat units + unat loaded)"
      using act est by (simp add: unat_sub word_le_nat_alt)
    have "unat (?est - ?act) \<le> total (add_mset (c, unat (cost_sum c)) M)" using d sum by simp
    from cost_rep_refund [OF assms(1,2) this] sub_execution_law [OF assms(2), of t "?est - ?act"]
    show ?thesis using 3 d sum act est
      by (auto simp: update_execution_cost_def Let_def cost_rep_def word_unat_eq_iff
          word_less_nat_alt dest: same_totalsD)
  qed
qed

end
