(* ===== verification/Cost_Tracker_Props.thy ===== *)
theory Cost_Tracker_Props
  imports Cost_Tracker_Laws
begin

text \<open>
  Every sequence of operations on the cost tracker keeps the block limits, and the properties
  of the cost model.
\<close>

section \<open>Sequences of operations\<close>

text \<open>
  The operations block production and replay perform: a transaction is admitted or refused,
  and an admitted one is later settled with the units it used (never more than its estimate,
  the limit it ran under) or withdrawn. The ledger records what the tracker owes to each.
\<close>

inductive tracker_step :: "cost_tracker \<times> ledger \<Rightarrow> cost_tracker \<times> ledger \<Rightarrow> bool" where
  admit: "distinct (writable_accounts c) \<Longrightarrow> try_add c t = (Inr u, t') \<Longrightarrow>
    tracker_step (t, M) (t', add_mset (c, unat (cost_sum c)) M)"
| refuse: "distinct (writable_accounts c) \<Longrightarrow> try_add c t = (Inl e, t') \<Longrightarrow>
    tracker_step (t, M) (t', M)"
| settle: "unat units + unat loaded \<le> estimated_units c \<Longrightarrow>
    tracker_step (t, add_mset (c, unat (cost_sum c)) M)
      (update_execution_cost c units loaded t, add_mset (c, fixed_units c + unat units + unat loaded) M)"
| withdraw: "tracker_step (t, add_mset (c, unat (cost_sum c)) M) (tracker_remove c t, M)"

definition tracker_init :: "cost_tracker_limits \<Rightarrow> cost_tracker \<times> ledger \<Rightarrow> bool" where
  "tracker_init ls s \<longleftrightarrow> finite_limits ls \<and> s = (set_limits ls default_cost_tracker, {#})"

definition within_limits :: "cost_tracker_limits \<Rightarrow> ledger \<Rightarrow> bool" where
  "within_limits ls M \<longleftrightarrow> total M \<le> unat (limit_block_cost ls) \<and>
     data_total M \<le> unat (limit_allocated_data_size ls) \<and>
     (\<forall>k. charged_to k M \<le> unat (limit_account_cost ls))"

definition tracker_inv :: "cost_tracker_limits \<Rightarrow> cost_tracker \<times> ledger \<Rightarrow> bool" where
  "tracker_inv ls s \<longleftrightarrow> finite_limits ls \<and> limits (fst s) = ls \<and> cost_rep (fst s) (snd s) \<and>
     within_limits ls (snd s) \<and>
     (\<forall>e \<in># snd s. distinct (writable_accounts (fst e)) \<and> cost_sum (fst e) \<noteq> - 1)"

lemma tracker_inv_init: "tracker_init ls s \<Longrightarrow> tracker_inv ls s"
  by (auto simp: tracker_init_def tracker_inv_def set_limits_def default_cost_tracker_def
      cost_rep_def account_cost_of_def within_limits_def)

lemma verdict_within:
  "ledger_verdict ls M c = None \<Longrightarrow> within_limits ls M \<Longrightarrow>
     within_limits ls (add_mset (c, unat (cost_sum c)) M)"
  by (auto simp: ledger_verdict_def within_limits_def Let_def not_less add.commute split: if_splits)

lemma within_smaller:
  assumes "within_limits ls (add_mset (c, n) M)" and "n' \<le> n"
  shows "within_limits ls (add_mset (c, n') M)"
proof -
  have "charged_to k (add_mset (c, n') M) \<le> charged_to k (add_mset (c, n) M)" for k
    using assms(2) by simp
  with assms show ?thesis unfolding within_limits_def by (simp add: le_trans del: ledger_add(3)) (meson le_trans)
qed

lemma within_less: "within_limits ls (add_mset e M) \<Longrightarrow> within_limits ls M"
proof -
  assume "within_limits ls (add_mset e M)"
  then have "charged_to k (add_mset e M) \<le> unat (limit_account_cost ls)" for k
    by (simp add: within_limits_def)
  then have "charged_to k M \<le> unat (limit_account_cost ls)" for k
    using add_leD2 by (fastforce split: if_splits)
  with \<open>within_limits ls (add_mset e M)\<close> show ?thesis by (simp add: within_limits_def)
qed

lemma cost_sum_not_max:
  "ledger_verdict ls M c = None \<Longrightarrow> finite_limits ls \<Longrightarrow> cost_sum c \<noteq> - 1"
proof
  assume "ledger_verdict ls M c = None" "finite_limits ls" "cost_sum c = - 1"
  moreover from this(1) have "unat (cost_sum c) \<le> unat (limit_account_cost ls)"
    by (auto simp: ledger_verdict_def Let_def split: if_splits)
  moreover have "unat (limit_account_cost ls) < 2 ^ 64"
    using unsigned_less [of "limit_account_cost ls", where ?'a = nat] by simp
  ultimately show False by (auto simp: finite_limits_def word_unat_eq_iff unat_max_word)
qed

lemma tracker_inv_step:
  assumes "tracker_inv ls s" and "tracker_step s s'"
  shows "tracker_inv ls s'"
  using assms(2,1)
proof cases
  case (admit c t u t' M)
  with assms(1) have rep: "cost_rep t M" "finite_limits (limits t)" "limits t = ls"
    by (auto simp: tracker_inv_def)
  from try_add_law [OF rep(1,2) admit(3)] admit(4) have "ledger_verdict ls M c = None"
    "cost_rep t' (add_mset (c, unat (cost_sum c)) M)" "limits t' = ls"
    by (auto simp: rep(3) split: option.splits)
  with assms(1) admit cost_sum_not_max [of ls M c] show ?thesis
    by (simp add: tracker_inv_def verdict_within)
next
  case (refuse c t e t' M)
  with assms(1) have rep: "cost_rep t M" "finite_limits (limits t)" by (auto simp: tracker_inv_def)
  from try_add_law [OF rep refuse(3)] refuse(4) have "t' = t" by (auto split: option.splits)
  with assms(1) refuse show ?thesis by simp
next
  case (settle units loaded c t M)
  let ?n = "fixed_units c + unat units + unat loaded"
  from assms(1) settle have rep: "cost_rep t (add_mset (c, unat (cost_sum c)) M)"
    and d: "distinct (writable_accounts c)" and nm: "cost_sum c \<noteq> - 1"
    and w: "within_limits ls (add_mset (c, unat (cost_sum c)) M)" by (auto simp: tracker_inv_def)
  have sum: "unat (cost_sum c) = fixed_units c + estimated_units c"
    using nm unat_cost_sum [of c] by (auto simp: word_unat_eq_iff unat_max_word)
  have "total M + unat (cost_sum c) < 2 ^ 64"
    using rep unsigned_less [of "block_cost t", where ?'a = nat] by (simp add: cost_rep_def)
  with settle(3) sum have bound: "total M + fixed_units c + unat units + unat loaded < 2 ^ 64" by linarith
  then have "unat units + unat loaded < 2 ^ 64" by linarith
  from update_law [OF rep d nm this bound] within_smaller [OF w, of ?n] sum assms(1) settle
  show ?thesis by (auto simp: tracker_inv_def)
next
  case (withdraw t c M)
  with assms(1) have rep: "cost_rep t (add_mset (c, unat (cost_sum c)) M)"
    and d: "distinct (writable_accounts c)" by (auto simp: tracker_inv_def)
  from remove_law [OF rep d] assms(1) withdraw show ?thesis
    by (auto simp: tracker_inv_def intro: within_less)
qed

interpretation tracker: invariant_system "tracker_init ls" tracker_step "tracker_inv ls" for ls
  by unfold_locales (fact tracker_inv_init tracker_inv_step)+


definition demo_runtime_tx :: runtime_tx where
  "demo_runtime_tx = \<lparr>tx_num_transaction_signatures = 1,
     tx_precompile_signatures = \<lparr>num_secp256k1_instruction_signatures = 0,
       num_ed25519_instruction_signatures = 0, num_secp256r1_instruction_signatures = 0\<rparr>,
     tx_config = V1 \<lparr>config_heap_bytes = 32768, config_compute_unit_limit = 5000,
       config_priority_fee_lamports = 0, config_loaded_accounts_data_size_limit = 40000\<rparr>,
     tx_instruction_data_len = 10, tx_instructions = [], tx_num_write_locks = 2,
     tx_account_keys = [11, 12, 13], tx_is_writable = (\<lambda>i. i < 2)\<rparr>"

definition demo_cost :: transaction_cost where
  "demo_cost = \<lparr>transaction = demo_runtime_tx, signature_cost = 720, write_lock_cost = 600, data_bytes_cost = 2,
     programs_execution_cost = 5000, loaded_accounts_data_size_cost = 16,
     allocated_accounts_data_size = 0\<rparr>"

lemma demo_writable: "writable_accounts demo_cost = [11, 12]"
  by (simp add: writable_accounts_def demo_cost_def demo_runtime_tx_def)

lemma demo_sum: "cost_sum demo_cost = 6338"
  by (simp add: cost_sum_def demo_cost_def saturating_add_def)

definition demo_tracker :: cost_tracker where
  "demo_tracker = snd (try_add demo_cost default_cost_tracker)"

lemmas demo_tracker_simps = set_limits_def default_cost_tracker_def default_limits_def
  max_block_units_def max_writable_account_units_def max_block_accounts_data_size_delta_def

lemma demo_finite: "finite_limits default_limits"
  by (simp add: finite_limits_def demo_tracker_simps)

lemma demo_rep: "cost_rep default_cost_tracker {#}"
  by (simp add: cost_rep_def default_cost_tracker_def account_cost_of_def)

lemma demo_admit:
  "try_add demo_cost default_cost_tracker =
     (Inr \<lparr>updated_block_cost = 6338, updated_costliest_account_cost = 6338\<rparr>, demo_tracker)"
  by (simp add: demo_tracker_def try_add_def would_fit_def demo_sum demo_writable demo_tracker_simps
      add_transaction_cost_def add_transaction_execution_cost_def account_cost_of_def
      set_account_cost_def saturating_add_def Let_def)
     (simp add: demo_cost_def)


text \<open>
  C9. \<open>try_add\<close> decides on the exact sums, in the order block limit, the transaction's own cost,
  allocated data, account limit: a refused transaction leaves the tracker unchanged, and an
  admitted one is counted with its full cost on the block and on every account it writes.
\<close>

theorem try_add_refines_ledger:
  assumes "cost_rep t M" and "finite_limits (limits t)" and "distinct (writable_accounts c)"
  shows "case ledger_verdict (limits t) M c of
      Some e \<Rightarrow> try_add c t = (Inl e, t)
    | None \<Rightarrow> \<exists>u t'. try_add c t = (Inr u, t') \<and> cost_rep t' (add_mset (c, unat (cost_sum c)) M) \<and>
        limits t' = limits t \<and> updated_block_cost u = block_cost t'"
  by (rule try_add_law [OF assms])

theorem try_add_refines_ledger_witness:
  "ledger_verdict default_limits {#} demo_cost = None \<and>
   cost_rep demo_tracker {#(demo_cost, 6338)#} \<and> limits demo_tracker = default_limits"
proof -
  have lim: "limits default_cost_tracker = default_limits" by (simp add: default_cost_tracker_def)
  have verdict: "ledger_verdict default_limits {#} demo_cost = None"
    by (simp add: ledger_verdict_def demo_sum demo_tracker_simps Let_def) (simp add: demo_cost_def)
  from try_add_refines_ledger [OF demo_rep, of demo_cost] lim demo_finite verdict demo_admit demo_sum
  show ?thesis by (simp add: demo_writable)
qed

lemma saturating_round_trip: "unat a + unat b < 2 ^ 64 \<Longrightarrow> saturating_sub (saturating_add a b) b = a"
  for a b :: u64
  by (simp add: word_unat_eq_iff unat_saturating_sub unat_saturating_add)




section \<open>Cost model\<close>

lemma instruction_data_bytes_cost_eq: "instruction_data_bytes_cost = 4"
  by (simp add: instruction_data_bytes_cost_def compute_unit_to_us_ratio_def)

lemma unat_pages: "unat (calculate_pages_for_bytes b) = (unat b + 32767) div 32768"
proof -
  have "unat b < 2 ^ 32" using unsigned_less [of b, where ?'a = nat] by simp
  then show ?thesis
    by (simp add: calculate_pages_for_bytes_def account_data_cost_page_size_def saturating_mul_def
        saturating_sub_def unat_div unat_saturating_add unat_ucast_up)
qed

lemma unat_loaded_cost: "unat (calculate_loaded_accounts_data_size_cost b) = 8 * ((unat b + 32767) div 32768)"
proof -
  have "unat b < 2 ^ 32" using unsigned_less [of b, where ?'a = nat] by simp
  then have "(unat b + 32767) div 32768 \<le> 131072" by simp
  then show ?thesis
    by (simp add: calculate_loaded_accounts_data_size_cost_def calculate_pages_cost_def
        unat_saturating_mul unat_pages default_heap_cost_def)
qed

text \<open>The bill of a transaction: signatures, write locks, data, execution and loaded pages.\<close>

definition bill :: "runtime_tx \<Rightarrow> nat \<Rightarrow> nat \<Rightarrow> nat" where
  "bill tx exec bytes =
     720 * unat (tx_num_transaction_signatures tx) +
     6690 * unat (num_secp256k1_instruction_signatures (tx_precompile_signatures tx)) +
     2400 * unat (num_ed25519_instruction_signatures (tx_precompile_signatures tx)) +
     4800 * unat (num_secp256r1_instruction_signatures (tx_precompile_signatures tx)) +
     300 * unat (tx_num_write_locks tx) + unat (tx_instruction_data_len tx) div 4 +
     exec + 8 * ((bytes + 32767) div 32768)"

lemma bill_law:
  "unat (cost_sum (calculate_transaction_cost env fs tx ixs (tx_num_write_locks tx) exec
       (calculate_loaded_accounts_data_size_cost b) (get_instructions_data_cost tx))) =
     min (bill tx (unat exec) (unat b)) (2 ^ 64 - 1)"
  by (simp add: cost_sum_def calculate_transaction_cost_def get_signature_cost_def get_write_lock_cost_def
      get_instructions_data_cost_def instruction_data_bytes_cost_eq unat_saturating_add unat_saturating_mul
      unat_ucast_up unat_div bill_def Let_def compute_unit_to_us_ratio_def signature_cost_const_def
      secp256k1_verify_cost_def ed25519_verify_strict_cost_def secp256r1_verify_cost_def
      write_lock_units_def unat_loaded_cost saturation_collapse mult.commute)

text \<open>
  C28. A transaction's estimated cost is its bill with the requested compute units and
  loaded-data pages (rounded up), or without them when its configuration is invalid, and the
  cost of an executed transaction is the same bill with what it used; both are capped at the
  largest \<open>u64\<close>, never wrapped.
\<close>

theorem transaction_cost_is_the_bill:
  assumes "try_into_config (env_ids env) fs (tx_config tx) = Some r"
  shows "\<exists>c. calculate_cost env fs tx = Some c \<and>
    unat (cost_sum c) = min (case r of Inr cfg \<Rightarrow> bill tx (unat (config_compute_unit_limit cfg))
        (unat (config_loaded_accounts_data_size_limit cfg)) | Inl _ \<Rightarrow> bill tx 0 0) (2 ^ 64 - 1) \<and>
    unat (cost_sum (calculate_cost_for_executed_transaction env fs tx units bytes)) =
      min (bill tx (unat units) (unat bytes)) (2 ^ 64 - 1)"
proof -
  have zero: "calculate_loaded_accounts_data_size_cost 0 = 0"
    using unat_loaded_cost [of 0] by (simp add: word_unat_eq_iff)
  have "unat (cost_sum (calculate_transaction_cost env fs tx ixs (tx_num_write_locks tx) 0 0
       (get_instructions_data_cost tx))) = min (bill tx 0 0) (2 ^ 64 - 1)" for ixs
    using bill_law [of env fs tx ixs 0 0] by (simp add: zero)
  then show ?thesis
    using assms bill_law [of env fs tx "tx_instructions tx"]
    by (cases r) (simp_all add: calculate_cost_def get_estimated_execution_cost_def
        calculate_cost_for_executed_transaction_def unat_ucast_up)
qed

definition demo_env :: cost_env where
  "demo_env = \<lparr>env_ids = \<lparr>vote_id = 1, bls_pubkey_management_in_vote_account_id = 2, system_program_id = 3,
     compute_budget_id = 4, bpf_loader_upgradeable_id = 5, bpf_loader_deprecated_id = 6,
     bpf_loader_id = 7, loader_v4_id = 8, secp256k1_program_id = 9, ed25519_program_id = 10,
     secp256r1_program_id = 11, heap_length = 32768\<rparr>,
     limited_deserialize = (\<lambda>bs. case bs of [] \<Rightarrow> None | b # _ \<Rightarrow> Some (Allocate (ucast b))),
     max_permitted_data_length = 100, max_permitted_accounts_data_allocations_per_transaction = 150,
     create_account_allow_prefund_id = 20\<rparr>"

lemma demo_config:
  "try_into_config (env_ids demo_env) {} (tx_config demo_runtime_tx) = Some (Inr
     \<lparr>config_heap_bytes = 32768, config_compute_unit_limit = 5000,
      config_priority_fee_lamports = 0, config_loaded_accounts_data_size_limit = 40000\<rparr>)"
  by (simp add: demo_env_def demo_runtime_tx_def try_into_config_def min_heap_frame_bytes_def
      max_heap_frame_bytes_def max_compute_unit_limit_def max_loaded_accounts_data_size_bytes_def)

theorem transaction_cost_is_the_bill_witness:
  "\<exists>c. calculate_cost demo_env {} demo_runtime_tx = Some c \<and> unat (cost_sum c) = 6338 \<and>
     unat (cost_sum (calculate_cost_for_executed_transaction demo_env {} demo_runtime_tx 100 0)) = 1422"
  using transaction_cost_is_the_bill [OF demo_config, of 100 0]
  by (simp add: bill_def) (simp add: demo_runtime_tx_def)



definition allocation_of :: "cost_env \<Rightarrow> feature_set \<Rightarrow> program_instruction \<Rightarrow> nat" where
  "allocation_of env fs pi = (case calculate_account_data_size_on_instruction env fs pi of
     SomeAllocation n \<Rightarrow> unat n | _ \<Rightarrow> 0)"

lemma attempted_allocation_law:
  "case attempted_allocation env fs ixs acc of
      None \<Rightarrow> \<exists>pi \<in> set ixs. calculate_account_data_size_on_instruction env fs pi = FailedAllocation
    | Some n \<Rightarrow> (\<forall>pi \<in> set ixs. calculate_account_data_size_on_instruction env fs pi \<noteq> FailedAllocation) \<and>
        unat n = min (unat acc + (\<Sum>pi\<leftarrow>ixs. allocation_of env fs pi)) (2 ^ 64 - 1)"
proof (induction ixs arbitrary: acc)
  case Nil
  then show ?case using unsigned_less [of acc, where ?'a = nat] by simp
next
  case (Cons pi ixs)
  show ?case
  proof (cases "calculate_account_data_size_on_instruction env fs pi")
    case NoAllocation
    with Cons.IH [of acc] show ?thesis by (auto simp: allocation_of_def split: option.splits)
  next
    case (SomeAllocation n)
    with Cons.IH [of "saturating_add acc n"] show ?thesis
      by (auto simp: allocation_of_def unat_saturating_add saturation_collapse add.assoc split: option.splits)
  qed simp
qed


end
