(* ===== verification/Votor_Types.thy ===== *)
theory Votor_Types
  imports BTree_Map "HOL-Library.Product_Lexorder"
begin

text \<open>
  The vocabulary of the Alpenglow consensus (\<open>crates/consensus/votor-messages/src\<close> and
  \<open>crates/consensus/votor/src/common.rs\<close>): stake fractions compared without rounding, blocks,
  votes, certificates, and the tables that say which votes count towards which certificate and
  which votes of one validator exclude each other.
\<close>

section \<open>Fractions\<close>

type_synonym stake = u64

record fraction =
  numerator :: u64
  denominator :: u64

definition from_percentage :: "u64 \<Rightarrow> fraction" where
  "from_percentage pct = \<lparr>numerator = pct, denominator = 100\<rparr>"

datatype ordering = Less | Equal | Greater

definition checked_mul :: "'a::len word \<Rightarrow> 'a word \<Rightarrow> 'a word option" where
  "checked_mul a b = (if unat a * unat b < 2 ^ LENGTH('a) then Some (a * b) else None)"

definition word_cmp :: "'a::len word \<Rightarrow> 'a word \<Rightarrow> ordering" where
  "word_cmp a b = (if a < b then Less else if a = b then Equal else Greater)"

text \<open>\<open>Ord::cmp\<close>: cross multiplication in \<open>u128\<close>; \<^term>\<open>None\<close> is the panic of \<open>unwrap\<close>.\<close>

definition fraction_cmp :: "fraction \<Rightarrow> fraction \<Rightarrow> ordering option" where
  "fraction_cmp a b = do {
     lhs \<leftarrow> checked_mul (ucast (numerator a) :: 128 word) (ucast (denominator b));
     rhs \<leftarrow> checked_mul (ucast (numerator b) :: 128 word) (ucast (denominator a));
     Some (word_cmp lhs rhs)
   }"

definition fraction_less :: "fraction \<Rightarrow> fraction \<Rightarrow> bool" where
  "fraction_less a b \<longleftrightarrow> fraction_cmp a b = Some Less"

definition fraction_ge :: "fraction \<Rightarrow> fraction \<Rightarrow> bool" where
  "fraction_ge a b \<longleftrightarrow> (case fraction_cmp a b of Some Less \<Rightarrow> False | _ \<Rightarrow> True)"

lemma cross_product_bound: "unat (ucast (a :: u64) :: 128 word) * unat (ucast (b :: u64) :: 128 word) < 2 ^ 128"
proof -
  have "unat a \<le> 2 ^ 64 - 1" "unat b \<le> 2 ^ 64 - 1"
    using unsigned_less [of a, where ?'a = nat] unsigned_less [of b, where ?'a = nat] by simp_all
  then have "unat a * unat b \<le> (2 ^ 64 - 1) * (2 ^ 64 - 1)" by (rule mult_le_mono)
  then show ?thesis by (simp add: unat_ucast_up)
qed

lemma fraction_cmp_total:
  "fraction_cmp a b = Some
     (if unat (numerator a) * unat (denominator b) < unat (numerator b) * unat (denominator a) then Less
      else if unat (numerator a) * unat (denominator b) = unat (numerator b) * unat (denominator a) then Equal
      else Greater)"
  using cross_product_bound [of "numerator a" "denominator b"] cross_product_bound [of "numerator b" "denominator a"]
  by (simp add: fraction_cmp_def checked_mul_def word_cmp_def word_less_nat_alt word_unat_eq_iff
      unat_word_ariths unat_ucast_up)

lemma fraction_less_iff:
  "fraction_less a b \<longleftrightarrow> unat (numerator a) * unat (denominator b) < unat (numerator b) * unat (denominator a)"
  by (simp add: fraction_less_def fraction_cmp_total)

lemma fraction_ge_percentage:
  "p < 2 ^ 64 \<Longrightarrow> fraction_ge \<lparr>numerator = n, denominator = d\<rparr> (from_percentage (of_nat p)) \<longleftrightarrow>
     p * unat d \<le> 100 * unat n"
  by (auto simp: fraction_ge_def fraction_cmp_total from_percentage_def unsigned_of_nat take_bit_nat_eq_self)


section \<open>Blocks, votes and certificates\<close>

datatype block = Block (block_slot: slot) (block_hash: hash)

instantiation block :: linorder
begin

definition less_eq_block :: "block \<Rightarrow> block \<Rightarrow> bool" where
  "less_eq_block a b \<longleftrightarrow> (block_slot a, block_hash a) \<le> (block_slot b, block_hash b)"

definition less_block :: "block \<Rightarrow> block \<Rightarrow> bool" where
  "less_block a b \<longleftrightarrow> (block_slot a, block_hash a) < (block_slot b, block_hash b)"

instance
  by intro_classes (auto simp: less_eq_block_def less_block_def block.expand)

end

datatype vote =
    Notarize block
  | Finalize slot
  | Skip slot
  | NotarizeFallback block
  | SkipFallback slot
  | Genesis block

datatype vote_type =
    FinalizeT
  | NotarizeT
  | NotarizeFallbackT
  | SkipT
  | SkipFallbackT
  | GenesisT

text \<open>The derived order of \<open>VoteType\<close> is the order of its variants.\<close>

primrec vote_type_rank :: "vote_type \<Rightarrow> nat" where
  "vote_type_rank FinalizeT = 0"
| "vote_type_rank NotarizeT = 1"
| "vote_type_rank NotarizeFallbackT = 2"
| "vote_type_rank SkipT = 3"
| "vote_type_rank SkipFallbackT = 4"
| "vote_type_rank GenesisT = 5"

lemma vote_type_rank_inj: "vote_type_rank a = vote_type_rank b \<Longrightarrow> a = b"
  by (cases a; cases b) simp_all

instantiation vote_type :: linorder
begin

definition less_eq_vote_type :: "vote_type \<Rightarrow> vote_type \<Rightarrow> bool" where
  "less_eq_vote_type a b \<longleftrightarrow> vote_type_rank a \<le> vote_type_rank b"

definition less_vote_type :: "vote_type \<Rightarrow> vote_type \<Rightarrow> bool" where
  "less_vote_type a b \<longleftrightarrow> vote_type_rank a < vote_type_rank b"

instance
  by intro_classes (auto simp: less_eq_vote_type_def less_vote_type_def intro: vote_type_rank_inj)

end

text \<open>The first vote of a node in a slot is for a block or to skip the slot.\<close>

primrec is_first_vote :: "vote \<Rightarrow> bool" where
  "is_first_vote (Notarize _) = True"
| "is_first_vote (Skip _) = True"
| "is_first_vote (Finalize _) = False"
| "is_first_vote (NotarizeFallback _) = False"
| "is_first_vote (SkipFallback _) = False"
| "is_first_vote (Genesis _) = False"

primrec vote_slot :: "vote \<Rightarrow> slot" where
  "vote_slot (Notarize b) = block_slot b"
| "vote_slot (Finalize s) = s"
| "vote_slot (Skip s) = s"
| "vote_slot (NotarizeFallback b) = block_slot b"
| "vote_slot (SkipFallback s) = s"
| "vote_slot (Genesis b) = block_slot b"

primrec vote_block_id :: "vote \<Rightarrow> hash option" where
  "vote_block_id (Notarize b) = Some (block_hash b)"
| "vote_block_id (NotarizeFallback b) = Some (block_hash b)"
| "vote_block_id (Genesis b) = Some (block_hash b)"
| "vote_block_id (Finalize _) = None"
| "vote_block_id (Skip _) = None"
| "vote_block_id (SkipFallback _) = None"

primrec get_type :: "vote \<Rightarrow> vote_type" where
  "get_type (Notarize _) = NotarizeT"
| "get_type (NotarizeFallback _) = NotarizeFallbackT"
| "get_type (Skip _) = SkipT"
| "get_type (SkipFallback _) = SkipFallbackT"
| "get_type (Finalize _) = FinalizeT"
| "get_type (Genesis _) = GenesisT"

datatype certificate_type =
    FinalizeC slot
  | FinalizeFastC block
  | NotarizeC block
  | NotarizeFallbackC block
  | SkipC slot
  | GenesisC block

primrec cert_key :: "certificate_type \<Rightarrow> nat \<times> nat \<times> nat" where
  "cert_key (FinalizeC s) = (0, s, 0)"
| "cert_key (FinalizeFastC b) = (1, block_slot b, block_hash b)"
| "cert_key (NotarizeC b) = (2, block_slot b, block_hash b)"
| "cert_key (NotarizeFallbackC b) = (3, block_slot b, block_hash b)"
| "cert_key (SkipC s) = (4, s, 0)"
| "cert_key (GenesisC b) = (5, block_slot b, block_hash b)"

lemma cert_key_inj: "cert_key a = cert_key b \<Longrightarrow> a = b"
  by (cases a; cases b) (auto intro: block.expand)

instantiation certificate_type :: linorder
begin

definition less_eq_certificate_type :: "certificate_type \<Rightarrow> certificate_type \<Rightarrow> bool" where
  "less_eq_certificate_type a b \<longleftrightarrow> cert_key a \<le> cert_key b"

definition less_certificate_type :: "certificate_type \<Rightarrow> certificate_type \<Rightarrow> bool" where
  "less_certificate_type a b \<longleftrightarrow> cert_key a < cert_key b"

instance
  by intro_classes
     (auto simp: less_eq_certificate_type_def less_certificate_type_def intro: cert_key_inj)

end

primrec cert_slot :: "certificate_type \<Rightarrow> slot" where
  "cert_slot (FinalizeC s) = s"
| "cert_slot (FinalizeFastC b) = block_slot b"
| "cert_slot (NotarizeFallbackC b) = block_slot b"
| "cert_slot (NotarizeC b) = block_slot b"
| "cert_slot (GenesisC b) = block_slot b"
| "cert_slot (SkipC s) = s"

primrec to_block :: "certificate_type \<Rightarrow> block option" where
  "to_block (FinalizeC _) = None"
| "to_block (SkipC _) = None"
| "to_block (NotarizeC b) = Some b"
| "to_block (NotarizeFallbackC b) = Some b"
| "to_block (GenesisC b) = Some b"
| "to_block (FinalizeFastC b) = Some b"

primrec to_source_vote :: "certificate_type \<Rightarrow> vote" where
  "to_source_vote (NotarizeC b) = Notarize b"
| "to_source_vote (FinalizeFastC b) = Notarize b"
| "to_source_vote (NotarizeFallbackC b) = Notarize b"
| "to_source_vote (FinalizeC s) = Finalize s"
| "to_source_vote (SkipC s) = Skip s"
| "to_source_vote (GenesisC b) = Genesis b"

primrec to_source_votes :: "certificate_type \<Rightarrow> (vote \<times> vote) option" where
  "to_source_votes (NotarizeFallbackC b) = Some (Notarize b, NotarizeFallback b)"
| "to_source_votes (SkipC s) = Some (Skip s, SkipFallback s)"
| "to_source_votes (NotarizeC _) = None"
| "to_source_votes (FinalizeFastC _) = None"
| "to_source_votes (FinalizeC _) = None"
| "to_source_votes (GenesisC _) = None"

text \<open>BLS signatures are opaque; \<open>solana-bls-signatures\<close> aggregates and verifies them.\<close>

type_synonym bls_signature = nat

record certificate =
  cert_type :: certificate_type
  cert_signature :: bls_signature
  cert_bitmap :: "u8 list"

record vote_message =
  msg_vote :: vote
  msg_signature :: bls_signature
  msg_rank :: u16

datatype consensus_message = VoteM vote_message | CertificateM certificate

primrec message_slot :: "consensus_message \<Rightarrow> slot" where
  "message_slot (VoteM m) = vote_slot (msg_vote m)"
| "message_slot (CertificateM c) = cert_slot (cert_type c)"

definition genesis_vote_threshold :: fraction where
  "genesis_vote_threshold = from_percentage 82"

primrec limits_and_vote_types :: "certificate_type \<Rightarrow> fraction \<times> vote_type list" where
  "limits_and_vote_types (NotarizeC _) = (from_percentage 60, [NotarizeT])"
| "limits_and_vote_types (NotarizeFallbackC _) = (from_percentage 60, [NotarizeT, NotarizeFallbackT])"
| "limits_and_vote_types (FinalizeFastC _) = (from_percentage 80, [NotarizeT])"
| "limits_and_vote_types (FinalizeC _) = (from_percentage 60, [FinalizeT])"
| "limits_and_vote_types (SkipC _) = (from_percentage 60, [SkipT, SkipFallbackT])"
| "limits_and_vote_types (GenesisC _) = (genesis_vote_threshold, [GenesisT])"

text \<open>The threshold of a certificate in percent of the total stake.\<close>

primrec cert_percent :: "certificate_type \<Rightarrow> nat" where
  "cert_percent (NotarizeC _) = 60"
| "cert_percent (NotarizeFallbackC _) = 60"
| "cert_percent (FinalizeFastC _) = 80"
| "cert_percent (FinalizeC _) = 60"
| "cert_percent (SkipC _) = 60"
| "cert_percent (GenesisC _) = 82"

lemma fraction_limit:
  "fraction_ge \<lparr>numerator = n, denominator = d\<rparr> (fst (limits_and_vote_types ct)) \<longleftrightarrow>
     cert_percent ct * unat d \<le> 100 * unat n"
  using fraction_ge_percentage [of 60 n d] fraction_ge_percentage [of 80 n d] fraction_ge_percentage [of 82 n d]
  by (cases ct) (simp_all add: genesis_vote_threshold_def)

lemma fraction_less_ge: "fraction_less a b \<longleftrightarrow> \<not> fraction_ge a b"
  by (simp add: fraction_less_def fraction_ge_def fraction_cmp_total)


section \<open>Conflicts and contributions\<close>

primrec conflicting_types :: "vote_type \<Rightarrow> vote_type list" where
  "conflicting_types FinalizeT = [NotarizeFallbackT, SkipT, SkipFallbackT]"
| "conflicting_types NotarizeT = [SkipT, NotarizeFallbackT]"
| "conflicting_types NotarizeFallbackT = [FinalizeT, NotarizeT]"
| "conflicting_types SkipT = [FinalizeT, NotarizeT, SkipFallbackT]"
| "conflicting_types SkipFallbackT = [SkipT, FinalizeT]"
| "conflicting_types GenesisT = [FinalizeT, NotarizeT, NotarizeFallbackT, SkipT, SkipFallbackT]"

primrec vote_to_cert_types :: "vote \<Rightarrow> certificate_type list" where
  "vote_to_cert_types (Notarize b) = [NotarizeC b, NotarizeFallbackC b, FinalizeFastC b]"
| "vote_to_cert_types (NotarizeFallback b) = [NotarizeFallbackC b]"
| "vote_to_cert_types (Finalize s) = [FinalizeC s]"
| "vote_to_cert_types (Skip s) = [SkipC s]"
| "vote_to_cert_types (SkipFallback s) = [SkipC s]"
| "vote_to_cert_types (Genesis b) = [GenesisC b]"

definition max_entries_per_pubkey_for_other_types :: nat where
  "max_entries_per_pubkey_for_other_types = 1"

definition max_entries_per_pubkey_for_notarize_lite :: nat where
  "max_entries_per_pubkey_for_notarize_lite = 3"

definition max_notar_fallback_blocks :: nat where
  "max_notar_fallback_blocks = 7"

definition num_consecutive_leader_slots :: nat where
  "num_consecutive_leader_slots = 4"

definition safe_to_notar_min_notarize_only :: fraction where
  "safe_to_notar_min_notarize_only = from_percentage 40"

definition safe_to_notar_min_notarize_for_notarize_or_skip :: fraction where
  "safe_to_notar_min_notarize_for_notarize_or_skip = from_percentage 20"

definition safe_to_notar_min_notarize_and_skip :: fraction where
  "safe_to_notar_min_notarize_and_skip = from_percentage 60"

definition safe_to_skip_threshold :: fraction where
  "safe_to_skip_threshold = from_percentage 40"

text \<open>\<open>leader_schedule_utils.rs\<close>: the leader window of a slot.\<close>

definition first_of_consecutive_leader_slots :: "slot \<Rightarrow> slot" where
  "first_of_consecutive_leader_slots slot =
     (slot div num_consecutive_leader_slots) * num_consecutive_leader_slots"

definition last_of_consecutive_leader_slots :: "slot \<Rightarrow> slot" where
  "last_of_consecutive_leader_slots slot =
     first_of_consecutive_leader_slots slot + num_consecutive_leader_slots - 1"

definition leader_slot_index :: "slot \<Rightarrow> nat" where
  "leader_slot_index slot = slot mod num_consecutive_leader_slots"

lemma leader_window_bounds:
  "first_of_consecutive_leader_slots slot \<le> slot" "slot \<le> last_of_consecutive_leader_slots slot"
  by (simp_all add: first_of_consecutive_leader_slots_def last_of_consecutive_leader_slots_def
      num_consecutive_leader_slots_def)


section \<open>Events\<close>

text \<open>
  The events of \<open>event.rs\<close>. \<open>bank\<close> is the part of \<open>Bank\<close> that the consumers of a completed block
  read: \<open>bank_parent\<close> is the slot and the block id of \<open>parent()\<close>. A point in time is a number of
  nanoseconds.
\<close>

type_synonym instant = nat

record bank =
  bank_slot_of :: slot
  bank_block_id :: "hash option"
  bank_parent_slot :: slot
  bank_parent_block_id :: "hash option"
  bank_parent :: "(slot \<times> hash option) option"
  bank_is_frozen :: bool
  bank_hash_of :: hash
  bank_expected_hash :: "hash option"
  bank_leader_id :: pubkey

record completed_block =
  completed_slot :: slot
  completed_bank :: bank

record leader_window_info =
  start_slot :: slot
  end_slot :: slot
  window_parent_block :: block
  block_timer :: instant

datatype votor_event =
    CompletedBlock completed_block
  | BlockNotarized block
  | BlockNotarFallback block
  | FirstShred slot
  | ParentReady slot block
  | TimeoutCrashedLeader slot
  | Timeout slot
  | SafeToNotar block
  | SafeToSkip slot
  | ProduceWindow leader_window_info
  | Finalized block bool
  | Standstill slot
  | SetIdentity

text \<open>
  The two tables agree: a certificate counts the types of the votes that lead to it, and the
  votes a certificate is verified against have these types.
\<close>

lemma vote_to_cert_types_sync:
  "c \<in> set (vote_to_cert_types v) \<longleftrightarrow>
     get_type v \<in> set (snd (limits_and_vote_types c)) \<and> cert_slot c = vote_slot v \<and>
     (case to_block c of None \<Rightarrow> True | Some b \<Rightarrow> vote_block_id v = Some (block_hash b))"
  by (cases v; cases c) (auto intro: block.expand)

lemma to_source_votes_sync:
  "to_source_votes c = Some (v1, v2) \<Longrightarrow> snd (limits_and_vote_types c) = [get_type v1, get_type v2]"
  "to_source_votes c = None \<Longrightarrow> snd (limits_and_vote_types c) = [get_type (to_source_vote c)]"
  by (cases c; auto)+

lemma conflicting_types_symmetric:
  "a \<noteq> GenesisT \<Longrightarrow> b \<noteq> GenesisT \<Longrightarrow>
     a \<in> set (conflicting_types b) \<longleftrightarrow> b \<in> set (conflicting_types a)"
  by (cases a; cases b) simp_all

end
