(* ===== verification/Migration.thy ===== *)
theory Migration
  imports Votor_Types
begin

text \<open>
  \<open>crates/consensus/votor-messages/src/migration.rs\<close>: the phases of the migration from
  TowerBFT to Alpenglow. Every \<open>pub fn\<close> that changes the phase is a definition;
  \<^term>\<open>None\<close> is a panic (\<open>assert!\<close>, \<open>unreachable!\<close>, \<open>panic!\<close>). The waiting on the
  condition variable in \<open>enable_alpenglow\<close> is not part of the model: the transition it waits for
  is \<open>poh_service_is_shutting_down\<close>. Logging and the node's own key, used only in messages, are
  left out. The slot offset is the one of production builds.
\<close>

section \<open>Phases\<close>

definition migration_slot_offset :: slot where
  "migration_slot_offset = 5000"

datatype migration_phase =
    PreFeatureActivation
  | MigrationP slot "block option" "certificate option"
  | ReadyToEnable certificate
  | AlpenglowEnabled certificate
  | FullAlpenglowEpoch epoch certificate

primrec is_pre_feature_activation :: "migration_phase \<Rightarrow> bool" where
  "is_pre_feature_activation PreFeatureActivation = True"
| "is_pre_feature_activation (MigrationP _ _ _) = False"
| "is_pre_feature_activation (ReadyToEnable _) = False"
| "is_pre_feature_activation (AlpenglowEnabled _) = False"
| "is_pre_feature_activation (FullAlpenglowEpoch _ _) = False"

primrec is_in_migration :: "migration_phase \<Rightarrow> bool" where
  "is_in_migration PreFeatureActivation = False"
| "is_in_migration (MigrationP _ _ _) = True"
| "is_in_migration (ReadyToEnable _) = False"
| "is_in_migration (AlpenglowEnabled _) = False"
| "is_in_migration (FullAlpenglowEpoch _ _) = False"

primrec is_ready_to_enable :: "migration_phase \<Rightarrow> bool" where
  "is_ready_to_enable PreFeatureActivation = False"
| "is_ready_to_enable (MigrationP _ _ _) = False"
| "is_ready_to_enable (ReadyToEnable _) = True"
| "is_ready_to_enable (AlpenglowEnabled _) = False"
| "is_ready_to_enable (FullAlpenglowEpoch _ _) = False"

primrec is_alpenglow_enabled :: "migration_phase \<Rightarrow> bool" where
  "is_alpenglow_enabled PreFeatureActivation = False"
| "is_alpenglow_enabled (MigrationP _ _ _) = False"
| "is_alpenglow_enabled (ReadyToEnable _) = False"
| "is_alpenglow_enabled (AlpenglowEnabled _) = True"
| "is_alpenglow_enabled (FullAlpenglowEpoch _ _) = True"

primrec is_full_alpenglow_epoch :: "migration_phase \<Rightarrow> bool" where
  "is_full_alpenglow_epoch PreFeatureActivation = False"
| "is_full_alpenglow_epoch (MigrationP _ _ _) = False"
| "is_full_alpenglow_epoch (ReadyToEnable _) = False"
| "is_full_alpenglow_epoch (AlpenglowEnabled _) = False"
| "is_full_alpenglow_epoch (FullAlpenglowEpoch _ _) = True"

primrec is_alpenglow_block :: "migration_phase \<Rightarrow> slot \<Rightarrow> bool" where
  "is_alpenglow_block PreFeatureActivation slot = False"
| "is_alpenglow_block (MigrationP _ _ _) slot = False"
| "is_alpenglow_block (ReadyToEnable _) slot = False"
| "is_alpenglow_block (AlpenglowEnabled cert) slot \<longleftrightarrow> slot > cert_slot (cert_type cert)"
| "is_alpenglow_block (FullAlpenglowEpoch _ _) slot = True"

primrec qualifies_for_genesis_discovery :: "migration_phase \<Rightarrow> slot \<Rightarrow> bool" where
  "qualifies_for_genesis_discovery PreFeatureActivation slot = False"
| "qualifies_for_genesis_discovery (MigrationP migration_slot genesis_block _) slot \<longleftrightarrow>
     genesis_block = None \<and> slot > migration_slot"
| "qualifies_for_genesis_discovery (ReadyToEnable _) slot = False"
| "qualifies_for_genesis_discovery (AlpenglowEnabled _) slot = False"
| "qualifies_for_genesis_discovery (FullAlpenglowEpoch _ _) slot = False"

primrec should_bank_be_vote_only :: "migration_phase \<Rightarrow> slot \<Rightarrow> bool" where
  "should_bank_be_vote_only PreFeatureActivation slot = False"
| "should_bank_be_vote_only (MigrationP migration_slot _ _) slot \<longleftrightarrow> slot \<ge> migration_slot"
| "should_bank_be_vote_only (ReadyToEnable _) slot = True"
| "should_bank_be_vote_only (AlpenglowEnabled _) slot = False"
| "should_bank_be_vote_only (FullAlpenglowEpoch _ _) slot = False"

primrec should_report_commitment_or_root :: "migration_phase \<Rightarrow> slot \<Rightarrow> bool" where
  "should_report_commitment_or_root PreFeatureActivation slot = True"
| "should_report_commitment_or_root (MigrationP migration_slot _ _) slot \<longleftrightarrow> slot < migration_slot"
| "should_report_commitment_or_root (ReadyToEnable _) slot = False"
| "should_report_commitment_or_root (AlpenglowEnabled _) slot = False"
| "should_report_commitment_or_root (FullAlpenglowEpoch _ _) slot = False"

primrec should_root_during_startup :: "migration_phase \<Rightarrow> slot \<Rightarrow> bool" where
  "should_root_during_startup PreFeatureActivation slot = True"
| "should_root_during_startup (MigrationP migration_slot _ _) slot \<longleftrightarrow> slot < migration_slot"
| "should_root_during_startup (ReadyToEnable _) slot = True"
| "should_root_during_startup (AlpenglowEnabled _) slot = True"
| "should_root_during_startup (FullAlpenglowEpoch _ _) slot = True"

primrec should_publish_epoch_slots :: "migration_phase \<Rightarrow> slot \<Rightarrow> bool" where
  "should_publish_epoch_slots PreFeatureActivation slot = True"
| "should_publish_epoch_slots (MigrationP _ _ _) slot = True"
| "should_publish_epoch_slots (ReadyToEnable _) slot = True"
| "should_publish_epoch_slots (AlpenglowEnabled cert) slot \<longleftrightarrow> slot \<le> cert_slot (cert_type cert)"
| "should_publish_epoch_slots (FullAlpenglowEpoch _ _) slot = False"


section \<open>Status\<close>

record migration_status =
  shutdown_poh :: bool
  poh_service_started :: bool
  phase :: migration_phase
  migration_wait :: bool

definition new_migration_status :: "migration_phase \<Rightarrow> migration_status" where
  "new_migration_status p =
     \<lparr>shutdown_poh = is_alpenglow_enabled p, poh_service_started = False, phase = p,
      migration_wait = is_alpenglow_enabled p\<rparr>"

text \<open>\<open>initialize\<close>; the epoch schedule is the argument \<open>get_epoch\<close>.\<close>

definition initialize ::
    "epoch \<Rightarrow> slot option \<Rightarrow> certificate option \<Rightarrow> (slot \<Rightarrow> epoch) \<Rightarrow> migration_status option" where
  "initialize root_epoch ff_activation_slot genesis_cert get_epoch =
     map_option new_migration_status
       (case (genesis_cert, ff_activation_slot) of
          (None, None) \<Rightarrow> Some PreFeatureActivation
        | (None, Some activation_slot) \<Rightarrow>
            Some (MigrationP (slot_add activation_slot migration_slot_offset) None None)
        | (Some cert, Some activation_slot) \<Rightarrow>
            Some (if root_epoch > get_epoch activation_slot
                  then FullAlpenglowEpoch (slot_add (get_epoch activation_slot) 1) cert
                  else AlpenglowEnabled cert)
        | (Some _, None) \<Rightarrow> None)"

definition set_poh_service_started :: "migration_status \<Rightarrow> migration_status" where
  "set_poh_service_started m = m\<lparr>poh_service_started := True\<rparr>"

definition record_feature_activation :: "slot \<Rightarrow> migration_status \<Rightarrow> (slot \<times> migration_status) option" where
  "record_feature_activation slot m = do {
     ensure (phase m = PreFeatureActivation);
     let migration_slot = slot_add slot migration_slot_offset;
     Some (migration_slot, m\<lparr>phase := MigrationP migration_slot None None\<rparr>)
   }"

definition eligible_genesis_block :: "migration_status \<Rightarrow> block option" where
  "eligible_genesis_block m = (case phase m of MigrationP _ b _ \<Rightarrow> b | _ \<Rightarrow> None)"

definition set_genesis_block :: "block \<Rightarrow> migration_status \<Rightarrow> migration_status option" where
  "set_genesis_block discovered m =
     (case phase m of
        PreFeatureActivation \<Rightarrow> None
      | MigrationP migration_slot genesis_block genesis_cert \<Rightarrow> do {
          ensure (case genesis_block of None \<Rightarrow> True | Some prev \<Rightarrow> prev = discovered);
          ensure (block_slot discovered < migration_slot);
          (case genesis_cert of
             None \<Rightarrow> Some (m\<lparr>phase := MigrationP migration_slot (Some discovered) None\<rparr>)
           | Some cert \<Rightarrow>
               (case cert_type cert of
                  GenesisC b \<Rightarrow>
                    if discovered \<noteq> b then None else Some (m\<lparr>phase := ReadyToEnable cert\<rparr>)
                | _ \<Rightarrow> None))
        }
      | _ \<Rightarrow> Some m)"

definition set_genesis_certificate :: "certificate \<Rightarrow> migration_status \<Rightarrow> migration_status option" where
  "set_genesis_certificate cert m =
     (case phase m of
        PreFeatureActivation \<Rightarrow> None
      | MigrationP migration_slot genesis_block genesis_cert \<Rightarrow>
          (case cert_type cert of
             GenesisC b \<Rightarrow> do {
               ensure (block_slot b < migration_slot);
               (case genesis_block of
                  None \<Rightarrow> Some (m\<lparr>phase := MigrationP migration_slot None (Some cert)\<rparr>)
                | Some g \<Rightarrow> if g \<noteq> b then None else Some (m\<lparr>phase := ReadyToEnable cert\<rparr>))
             }
           | _ \<Rightarrow> None)
      | _ \<Rightarrow> Some m)"

text \<open>The part of \<open>enable_alpenglow\<close> before the wait.\<close>

definition enable_alpenglow_request :: "migration_status \<Rightarrow> migration_status option" where
  "enable_alpenglow_request m = do {
     ensure (is_ready_to_enable (phase m));
     Some (m\<lparr>shutdown_poh := True\<rparr>)
   }"

definition poh_service_is_shutting_down :: "migration_status \<Rightarrow> migration_status option" where
  "poh_service_is_shutting_down m =
     (case phase m of
        ReadyToEnable cert \<Rightarrow> Some (m\<lparr>phase := AlpenglowEnabled cert, migration_wait := True\<rparr>)
      | _ \<Rightarrow> None)"

text \<open>\<open>enable_alpenglow_during_startup\<close> when the PoH service has not been started.\<close>

definition enable_alpenglow_during_startup :: "migration_status \<Rightarrow> (slot \<times> migration_status) option" where
  "enable_alpenglow_during_startup m =
     (case phase m of
        ReadyToEnable cert \<Rightarrow>
          Some (cert_slot (cert_type cert),
            m\<lparr>shutdown_poh := True, phase := AlpenglowEnabled cert, migration_wait := True\<rparr>)
      | _ \<Rightarrow> None)"

definition alpenglow_rooted_new_epoch :: "epoch \<Rightarrow> migration_status \<Rightarrow> migration_status option" where
  "alpenglow_rooted_new_epoch e m =
     (case phase m of
        AlpenglowEnabled cert \<Rightarrow> Some (m\<lparr>phase := FullAlpenglowEpoch e cert\<rparr>)
      | _ \<Rightarrow> None)"

definition genesis_certificate :: "migration_status \<Rightarrow> certificate option" where
  "genesis_certificate m =
     (case phase m of
        PreFeatureActivation \<Rightarrow> None
      | MigrationP _ _ _ \<Rightarrow> None
      | ReadyToEnable cert \<Rightarrow> Some cert
      | AlpenglowEnabled cert \<Rightarrow> Some cert
      | FullAlpenglowEpoch _ cert \<Rightarrow> Some cert)"

text \<open>\<open>genesis_block\<close>; the outer \<^term>\<open>None\<close> is its \<open>expect\<close>.\<close>

definition genesis_block :: "migration_status \<Rightarrow> block option option" where
  "genesis_block m =
     (case genesis_certificate m of
        None \<Rightarrow> Some None
      | Some cert \<Rightarrow> (case to_block (cert_type cert) of None \<Rightarrow> None | Some b \<Rightarrow> Some (Some b)))"

end
