(* ===== verification/Migration_Props.thy ===== *)
theory Migration_Props
  imports Migration
begin

text \<open>
  The migration as a transition system: Alpenglow is enabled only with a genesis certificate
  for the very block this node identified, that certificate never changes, and the order in
  which block and certificate become known does not matter.
\<close>

section \<open>Transitions\<close>

text \<open>
  The state with a history variable: the genesis blocks this node has identified. PoH shuts
  down only when it was asked to.
\<close>

type_synonym migration_config = "migration_status \<times> block set"

inductive migration_step :: "migration_config \<Rightarrow> migration_config \<Rightarrow> bool" where
  activate: "record_feature_activation s m = Some (ms, m') \<Longrightarrow> migration_step (m, B) (m', B)"
| discover: "set_genesis_block b m = Some m' \<Longrightarrow> migration_step (m, B) (m', insert b B)"
| certify: "set_genesis_certificate c m = Some m' \<Longrightarrow> migration_step (m, B) (m', B)"
| request: "enable_alpenglow_request m = Some m' \<Longrightarrow> migration_step (m, B) (m', B)"
| poh_down: "shutdown_poh m \<Longrightarrow> poh_service_is_shutting_down m = Some m' \<Longrightarrow> migration_step (m, B) (m', B)"
| startup: "enable_alpenglow_during_startup m = Some (s, m') \<Longrightarrow> migration_step (m, B) (m', B)"
| epoch_done: "alpenglow_rooted_new_epoch e m = Some m' \<Longrightarrow> migration_step (m, B) (m', B)"
| poh_start: "migration_step (m, B) (set_poh_service_started m, B)"

inductive_cases migration_stepE: "migration_step (m, B) (m', B')"

definition migration_init :: "migration_config \<Rightarrow> bool" where
  "migration_init s \<longleftrightarrow> s = (new_migration_status PreFeatureActivation, {})"

definition known_genesis :: "certificate \<Rightarrow> block set \<Rightarrow> bool" where
  "known_genesis c B \<longleftrightarrow> (\<exists>b \<in> B. cert_type c = GenesisC b)"

fun phase_ok :: "migration_phase \<Rightarrow> block set \<Rightarrow> bool" where
  "phase_ok PreFeatureActivation B = True"
| "phase_ok (MigrationP s g c) B \<longleftrightarrow>
     (case g of None \<Rightarrow> True | Some b \<Rightarrow> b \<in> B \<and> block_slot b < s \<and> c = None) \<and>
     (case c of None \<Rightarrow> True | Some c \<Rightarrow> \<exists>b. cert_type c = GenesisC b \<and> block_slot b < s)"
| "phase_ok (ReadyToEnable c) B = known_genesis c B"
| "phase_ok (AlpenglowEnabled c) B = known_genesis c B"
| "phase_ok (FullAlpenglowEpoch _ c) B = known_genesis c B"

definition migration_inv :: "migration_config \<Rightarrow> bool" where
  "migration_inv s \<longleftrightarrow> phase_ok (phase (fst s)) (snd s) \<and>
     migration_wait (fst s) = is_alpenglow_enabled (phase (fst s)) \<and>
     (is_alpenglow_enabled (phase (fst s)) \<longrightarrow> shutdown_poh (fst s))"

lemma known_genesis_insert [simp]: "known_genesis c B \<Longrightarrow> known_genesis c (insert b B)"
  by (auto simp: known_genesis_def)

lemmas migration_ops = record_feature_activation_def set_genesis_block_def set_genesis_certificate_def
  enable_alpenglow_request_def poh_service_is_shutting_down_def enable_alpenglow_during_startup_def
  alpenglow_rooted_new_epoch_def set_poh_service_started_def

lemma discover_law:
  "set_genesis_block b m = Some m' \<Longrightarrow> migration_inv (m, B) \<Longrightarrow> migration_inv (m', insert b B)"
  by (cases "phase m")
     (auto simp: set_genesis_block_def migration_inv_def known_genesis_def
       split: option.splits certificate_type.splits if_splits)

lemma certify_law:
  "set_genesis_certificate c m = Some m' \<Longrightarrow> migration_inv (m, B) \<Longrightarrow> migration_inv (m', B)"
  by (cases "phase m")
     (auto simp: set_genesis_certificate_def migration_inv_def known_genesis_def
       split: option.splits certificate_type.splits if_splits)

lemma migration_inv_step: "migration_step s t \<Longrightarrow> migration_inv s \<Longrightarrow> migration_inv t"
proof (induction rule: migration_step.induct)
  case (discover b m m' B)
  then show ?case by (rule discover_law)
next
  case (certify c m m' B)
  then show ?case by (rule certify_law)
qed (auto simp: migration_ops migration_inv_def Let_def split: migration_phase.splits if_splits)

lemma migration_inv_init: "migration_init s \<Longrightarrow> migration_inv s"
  by (simp add: migration_init_def migration_inv_def new_migration_status_def)

interpretation migration: invariant_system migration_init migration_step migration_inv
  by unfold_locales (fact migration_inv_init, rule migration_inv_step)

text \<open>The genesis certificate, once there, is never replaced.\<close>

lemma genesis_certificate_step:
  "migration_step s t \<Longrightarrow> genesis_certificate (fst s) = Some c \<Longrightarrow> genesis_certificate (fst t) = Some c"
proof (induction rule: migration_step.induct)
  case (discover b m m' B)
  then show ?case by (cases "phase m") (auto simp: set_genesis_block_def genesis_certificate_def)
next
  case (certify c' m m' B)
  then show ?case by (cases "phase m") (auto simp: set_genesis_certificate_def genesis_certificate_def)
qed (auto simp: migration_ops genesis_certificate_def split: migration_phase.splits if_splits)

lemma alpenglow_block_step:
  "migration_step s t \<Longrightarrow> is_alpenglow_block (phase (fst s)) n \<Longrightarrow> is_alpenglow_block (phase (fst t)) n"
proof (induction rule: migration_step.induct)
  case (discover b m m' B)
  then show ?case by (cases "phase m") (auto simp: set_genesis_block_def)
next
  case (certify c' m m' B)
  then show ?case by (cases "phase m") (auto simp: set_genesis_certificate_def)
qed (auto simp: migration_ops split: migration_phase.splits if_splits)

text \<open>
  C15. Whatever the order of events, when Alpenglow is (about to be) enabled its genesis
  certificate is for a block this node itself identified as the genesis block, the waiting
  threads are released exactly when Alpenglow is enabled, and PoH was told to stop; from then
  on the certificate, and which slots are Alpenglow slots, never change back.
\<close>

theorem alpenglow_genesis_is_agreed_and_permanent:
  assumes "migration_step\<^sup>*\<^sup>* (new_migration_status PreFeatureActivation, {}) (m, B)"
    and "genesis_certificate m = Some c" and "migration_step\<^sup>*\<^sup>* (m, B) (m', B')"
  shows "(\<exists>b \<in> B. cert_type c = GenesisC b \<and> genesis_block m = Some (Some b)) \<and>
    migration_wait m = is_alpenglow_enabled (phase m) \<and>
    (is_alpenglow_enabled (phase m) \<longrightarrow> shutdown_poh m) \<and>
    genesis_certificate m' = Some c \<and>
    (is_alpenglow_block (phase m) n \<longrightarrow> is_alpenglow_block (phase m') n)"
proof -
  from assms(1) have inv: "migration_inv (m, B)"
    by (rule migration.inv_reachable [rotated]) (simp add: migration_init_def)
  have "known_genesis c B" using inv assms(2)
    by (cases "phase m") (auto simp: migration_inv_def genesis_certificate_def)
  moreover have "genesis_certificate (fst t) = Some c \<and>
      (is_alpenglow_block (phase m) n \<longrightarrow> is_alpenglow_block (phase (fst t)) n)"
    if "migration_step\<^sup>*\<^sup>* (m, B) t" for t
    using that by (induction rule: rtranclp_induct)
      (use assms(2) in \<open>auto intro: genesis_certificate_step alpenglow_block_step\<close>)
  ultimately show ?thesis using inv assms(2,3)
    by (fastforce simp: migration_inv_def known_genesis_def genesis_block_def)
qed

definition demo_genesis :: certificate where
  "demo_genesis = \<lparr>cert_type = GenesisC (Block 7 1), cert_signature = 0, cert_bitmap = []\<rparr>"

definition demo_ready :: migration_status where
  "demo_ready = (new_migration_status PreFeatureActivation)\<lparr>phase := ReadyToEnable demo_genesis\<rparr>"

definition demo_migrating :: "block option \<Rightarrow> migration_status" where
  "demo_migrating b = (new_migration_status PreFeatureActivation)\<lparr>phase := MigrationP 5100 b None\<rparr>"

lemma demo_migration_run:
  "migration_step\<^sup>*\<^sup>* (new_migration_status PreFeatureActivation, {}) (demo_ready, {Block 7 1})"
proof -
  have "migration_step\<^sup>*\<^sup>* (new_migration_status PreFeatureActivation, {}) (demo_migrating None, {})"
    by (rule r_into_rtranclp, rule activate [of 100 _ 5100]) (simp add: record_feature_activation_def new_migration_status_def
        demo_migrating_def migration_slot_offset_def slot_add_def u64_max_def)
  also have "migration_step (demo_migrating None, {}) (demo_migrating (Some (Block 7 1)), {Block 7 1})"
    by (rule discover) (simp add: set_genesis_block_def demo_migrating_def)
  also have "migration_step (demo_migrating (Some (Block 7 1)), {Block 7 1}) (demo_ready, {Block 7 1})"
    by (rule certify [of demo_genesis])
       (simp add: set_genesis_certificate_def demo_migrating_def demo_ready_def demo_genesis_def)
  finally show ?thesis .
qed

theorem alpenglow_genesis_is_agreed_and_permanent_witness:
  "genesis_certificate demo_ready = Some demo_genesis \<and> genesis_block demo_ready = Some (Some (Block 7 1)) \<and>
   \<not> migration_wait demo_ready"
proof -
  have cert: "genesis_certificate demo_ready = Some demo_genesis"
    by (simp add: genesis_certificate_def demo_ready_def)
  from alpenglow_genesis_is_agreed_and_permanent [OF demo_migration_run cert rtranclp.rtrancl_refl] cert
  show ?thesis by (simp add: demo_ready_def)
qed

text \<open>
  C32. Identifying the genesis block and receiving its certificate commute: either order
  ends in the same phase, and either order panics when they disagree or the block is not
  before the migration slot.
\<close>

theorem genesis_block_and_certificate_commute:
  assumes "phase m = MigrationP s None None"
  shows "(set_genesis_block b m \<bind> set_genesis_certificate c) =
      (set_genesis_certificate c m \<bind> set_genesis_block b) \<and>
    ((set_genesis_block b m \<bind> set_genesis_certificate c) =
      (if cert_type c = GenesisC b \<and> block_slot b < s then Some (m\<lparr>phase := ReadyToEnable c\<rparr>) else None))"
  using assms
  by (cases "cert_type c") (auto simp: set_genesis_block_def set_genesis_certificate_def)

theorem genesis_block_and_certificate_commute_witness:
  "(set_genesis_certificate demo_genesis (demo_migrating None) \<bind> set_genesis_block (Block 7 1)) = Some demo_ready"
proof -
  have ph: "phase (demo_migrating None) = MigrationP 5100 None None" by (simp add: demo_migrating_def)
  have cert: "cert_type demo_genesis = GenesisC (Block 7 1)" by (simp add: demo_genesis_def)
  have "(demo_migrating None)\<lparr>phase := ReadyToEnable demo_genesis\<rparr> = demo_ready"
    by (simp add: demo_migrating_def demo_ready_def)
  with genesis_block_and_certificate_commute [OF ph, of "Block 7 1" demo_genesis] cert show ?thesis by (auto dest: sym)
qed

end
