(* ===== verification/Vote_History.thy ===== *)
theory Vote_History
  imports Votor_Types
begin

text \<open>
  \<open>crates/consensus/votor/src/vote_history.rs\<close>: the votes this validator has cast, against
  which every new vote is checked. \<^term>\<open>None\<close> is a failed \<open>assert!\<close>. Hash sets are
  sets; the map of parent-ready slots, whose greatest key is looked up, is kept in key order.
  Saving and restoring the history (file I/O) is not modelled.
\<close>

section \<open>Model\<close>

record vote_history =
  node_pubkey :: pubkey
  voted_slots :: "slot set"
  voted_notar_map :: "slot \<rightharpoonup> hash"
  voted_notar_fallback_map :: "slot \<rightharpoonup> hash set"
  voted_skip_fallback_slots :: "slot set"
  skipped_slots :: "slot set"
  its_over_slots :: "slot set"
  votes_cast :: "(slot, vote list) btree"
  notarized_blocks :: "block set"
  parent_ready_slots :: "(slot, block set) btree"
  history_root :: slot

definition new_vote_history :: "pubkey \<Rightarrow> slot \<Rightarrow> vote_history" where
  "new_vote_history key root =
     \<lparr>node_pubkey = key, voted_slots = {}, voted_notar_map = Map.empty,
      voted_notar_fallback_map = Map.empty, voted_skip_fallback_slots = {}, skipped_slots = {},
      its_over_slots = {}, votes_cast = [], notarized_blocks = {}, parent_ready_slots = [],
      history_root = root\<rparr>"

definition voted :: "slot \<Rightarrow> vote_history \<Rightarrow> bool option" where
  "voted s h = (if s \<ge> history_root h then Some (s \<in> voted_slots h) else None)"

definition voted_notar :: "slot \<Rightarrow> vote_history \<Rightarrow> hash option option" where
  "voted_notar s h = (if s \<ge> history_root h then Some (voted_notar_map h s) else None)"

definition voted_notar_fallback :: "slot \<Rightarrow> hash \<Rightarrow> vote_history \<Rightarrow> bool option" where
  "voted_notar_fallback s b h =
     (if s \<ge> history_root h
      then Some (case voted_notar_fallback_map h s of None \<Rightarrow> False | Some hs \<Rightarrow> b \<in> hs) else None)"

definition voted_skip_fallback :: "slot \<Rightarrow> vote_history \<Rightarrow> bool option" where
  "voted_skip_fallback s h = (if s \<ge> history_root h then Some (s \<in> voted_skip_fallback_slots h) else None)"

definition skipped :: "slot \<Rightarrow> vote_history \<Rightarrow> bool option" where
  "skipped s h = (if s \<ge> history_root h then Some (s \<in> skipped_slots h) else None)"

definition its_over :: "slot \<Rightarrow> vote_history \<Rightarrow> bool option" where
  "its_over s h = (if s \<ge> history_root h then Some (s \<in> its_over_slots h) else None)"

definition votes_cast_since :: "slot \<Rightarrow> vote_history \<Rightarrow> vote list" where
  "votes_cast_since s h = concat (map snd (filter (\<lambda>e. fst e > s) (votes_cast h)))"

definition bad_window :: "slot \<Rightarrow> vote_history \<Rightarrow> bool option" where
  "bad_window s h =
     (if s \<ge> history_root h
      then Some (s \<in> skipped_slots h \<or> voted_notar_fallback_map h s \<noteq> None \<or>
        s \<in> voted_skip_fallback_slots h) else None)"

definition is_block_notarized :: "block \<Rightarrow> vote_history \<Rightarrow> bool" where
  "is_block_notarized b h \<longleftrightarrow> b \<in> notarized_blocks h"

definition is_parent_ready :: "slot \<Rightarrow> block \<Rightarrow> vote_history \<Rightarrow> bool" where
  "is_parent_ready s parent h \<longleftrightarrow>
     (case bt_get (parent_ready_slots h) s of None \<Rightarrow> False | Some ps \<Rightarrow> parent \<in> ps)"

text \<open>The \<open>match\<close> of \<open>add_vote\<close>, then the record of the vote.\<close>

primrec record_vote :: "vote \<Rightarrow> vote_history \<Rightarrow> vote_history option" where
  "record_vote (Notarize b) h = do {
     ensure (block_slot b \<notin> voted_slots h);
     ensure (voted_notar_map h (block_slot b) = None);
     Some (h\<lparr>voted_slots := insert (block_slot b) (voted_slots h),
             voted_notar_map := (voted_notar_map h)(block_slot b \<mapsto> block_hash b)\<rparr>)
   }"
| "record_vote (Finalize s) h = do {
     sk \<leftarrow> skipped s h;
     ensure (\<not> sk);
     Some (h\<lparr>its_over_slots := insert s (its_over_slots h)\<rparr>)
   }"
| "record_vote (Skip s) h =
     Some (h\<lparr>voted_slots := insert s (voted_slots h), skipped_slots := insert s (skipped_slots h)\<rparr>)"
| "record_vote (NotarizeFallback b) h = do {
     v \<leftarrow> voted (block_slot b) h;
     ensure v;
     ov \<leftarrow> its_over (block_slot b) h;
     ensure (\<not> ov);
     Some (h\<lparr>skipped_slots := insert (block_slot b) (skipped_slots h),
             voted_notar_fallback_map := (voted_notar_fallback_map h)(block_slot b \<mapsto>
               insert (block_hash b) (case voted_notar_fallback_map h (block_slot b) of
                 None \<Rightarrow> {} | Some hs \<Rightarrow> hs))\<rparr>)
   }"
| "record_vote (SkipFallback s) h = do {
     v \<leftarrow> voted s h;
     ensure v;
     ov \<leftarrow> its_over s h;
     ensure (\<not> ov);
     Some (h\<lparr>skipped_slots := insert s (skipped_slots h),
             voted_skip_fallback_slots := insert s (voted_skip_fallback_slots h)\<rparr>)
   }"
| "record_vote (Genesis _) h = Some h"

definition history_add_vote :: "vote \<Rightarrow> vote_history \<Rightarrow> vote_history option" where
  "history_add_vote v h = do {
     ensure (vote_slot v \<ge> history_root h);
     h' \<leftarrow> record_vote v h;
     Some (h'\<lparr>votes_cast := bt_entry [] (\<lambda>vs. vs @ [v]) (vote_slot v) (votes_cast h')\<rparr>)
   }"

definition add_block_notarized :: "block \<Rightarrow> vote_history \<Rightarrow> vote_history" where
  "add_block_notarized b h =
     (if block_slot b < history_root h then h
      else h\<lparr>notarized_blocks := insert b (notarized_blocks h)\<rparr>)"

definition add_parent_ready :: "slot \<Rightarrow> block \<Rightarrow> vote_history \<Rightarrow> bool \<times> vote_history" where
  "add_parent_ready s parent h =
     (if s < history_root h then (False, h)
      else (case bt_get (parent_ready_slots h) s of
          Some ps \<Rightarrow> (False, h\<lparr>parent_ready_slots := bt_insert s (insert parent ps) (parent_ready_slots h)\<rparr>)
        | None \<Rightarrow> (True, h\<lparr>parent_ready_slots := bt_insert s {parent} (parent_ready_slots h)\<rparr>)))"

definition highest_parent_ready :: "vote_history \<Rightarrow> (slot \<times> block) option" where
  "highest_parent_ready h =
     (case parent_ready_slots h of
        [] \<Rightarrow> None
      | _ \<Rightarrow> (let (s, ps) = last (parent_ready_slots h)
              in if ps = {} then None else Some (s, Min ps)))"

definition history_set_root :: "slot \<Rightarrow> vote_history \<Rightarrow> vote_history" where
  "history_set_root root h = h
     \<lparr>history_root := root,
      voted_slots := {s \<in> voted_slots h. s \<ge> root},
      voted_notar_map := voted_notar_map h |` {s. s \<ge> root},
      voted_notar_fallback_map := voted_notar_fallback_map h |` {s. s \<ge> root},
      voted_skip_fallback_slots := {s \<in> voted_skip_fallback_slots h. s \<ge> root},
      skipped_slots := {s \<in> skipped_slots h. s \<ge> root},
      its_over_slots := {s \<in> its_over_slots h. s \<ge> root},
      votes_cast := filter (\<lambda>e. fst e \<ge> root) (votes_cast h),
      notarized_blocks := {b \<in> notarized_blocks h. block_slot b \<ge> root},
      parent_ready_slots := filter (\<lambda>e. fst e \<ge> root) (parent_ready_slots h)\<rparr>"


section \<open>Sequences of operations\<close>

text \<open>
  The history with the list of all votes ever cast, oldest first. The root only moves
  forward.
\<close>

inductive history_step :: "vote_history \<times> vote list \<Rightarrow> vote_history \<times> vote list \<Rightarrow> bool" where
  cast: "history_add_vote v h = Some h' \<Longrightarrow> history_step (h, vs) (h', vs @ [v])"
| root: "r \<ge> history_root h \<Longrightarrow> history_step (h, vs) (history_set_root r h, vs)"
| notarized: "history_step (h, vs) (add_block_notarized b h, vs)"
| parent: "history_step (h, vs) (snd (add_parent_ready s b h), vs)"

definition history_init :: "vote_history \<times> vote list \<Rightarrow> bool" where
  "history_init s \<longleftrightarrow> (\<exists>key root. s = (new_vote_history key root, []))"

primrec is_fallback_vote :: "vote \<Rightarrow> bool" where
  "is_fallback_vote (Notarize _) = False"
| "is_fallback_vote (Skip _) = False"
| "is_fallback_vote (Finalize _) = False"
| "is_fallback_vote (NotarizeFallback _) = True"
| "is_fallback_vote (SkipFallback _) = True"
| "is_fallback_vote (Genesis _) = False"

definition is_skip_like :: "vote \<Rightarrow> bool" where
  "is_skip_like v \<longleftrightarrow> is_fallback_vote v \<or> get_type v = SkipT"

text \<open>
  A later vote contradicts an earlier one for the same slot: a second first vote that is a
  notarisation, a fallback after finalisation, or a finalisation after giving up on the slot.
\<close>

definition contradicts :: "vote \<Rightarrow> vote \<Rightarrow> bool" where
  "contradicts earlier later \<longleftrightarrow> vote_slot earlier = vote_slot later \<and>
     (get_type later = NotarizeT \<and> is_first_vote earlier \<or>
      is_fallback_vote later \<and> get_type earlier = FinalizeT \<or>
      get_type later = FinalizeT \<and> is_skip_like earlier)"

text \<open>Every fallback vote comes after a first vote for its slot.\<close>

definition supported :: "vote list \<Rightarrow> bool" where
  "supported vs \<longleftrightarrow> (\<forall>i < length vs. is_fallback_vote (vs ! i) \<longrightarrow>
     (\<exists>j < i. vote_slot (vs ! j) = vote_slot (vs ! i) \<and> is_first_vote (vs ! j)))"

definition history_inv :: "vote_history \<times> vote list \<Rightarrow> bool" where
  "history_inv s \<longleftrightarrow> (let (h, vs) = s in
     sorted_wrt (\<lambda>a b. \<not> contradicts a b) vs \<and> supported vs \<and> bt_wf (votes_cast h) \<and>
     (\<forall>n \<ge> history_root h.
        (n \<in> voted_slots h \<longleftrightarrow> (\<exists>v \<in> set vs. vote_slot v = n \<and> is_first_vote v)) \<and>
        (n \<in> skipped_slots h \<longleftrightarrow> (\<exists>v \<in> set vs. vote_slot v = n \<and> is_skip_like v)) \<and>
        (n \<in> its_over_slots h \<longleftrightarrow> Finalize n \<in> set vs) \<and>
        (\<forall>b. voted_notar_map h n = Some b \<longleftrightarrow> Notarize (Block n b) \<in> set vs) \<and>
        (case bt_get (votes_cast h) n of None \<Rightarrow> [] | Some ws \<Rightarrow> ws) = filter (\<lambda>v. vote_slot v = n) vs))"


lemma sorted_wrt_snoc: "sorted_wrt R (xs @ [x]) \<longleftrightarrow> sorted_wrt R xs \<and> (\<forall>y \<in> set xs. R y x)"
  by (auto simp: sorted_wrt_append)

lemma supported_snoc:
  "supported (vs @ [v]) \<longleftrightarrow> supported vs \<and>
     (is_fallback_vote v \<longrightarrow> (\<exists>w \<in> set vs. vote_slot w = vote_slot v \<and> is_first_vote w))"
proof -
  have "(\<exists>j < length vs. vote_slot (vs ! j) = n \<and> is_first_vote (vs ! j)) \<longleftrightarrow>
      (\<exists>w \<in> set vs. vote_slot w = n \<and> is_first_vote w)" for n
    by (metis in_set_conv_nth)
  moreover have "supported (vs @ [v]) \<longleftrightarrow> supported vs \<and> (is_fallback_vote v \<longrightarrow>
      (\<exists>j < length vs. vote_slot (vs ! j) = vote_slot v \<and> is_first_vote (vs ! j)))"
    unfolding supported_def
    by (auto simp: nth_append less_Suc_eq all_conj_distrib intro: less_trans
        cong: conj_cong)
  ultimately show ?thesis by simp
qed

text \<open>
  What \<open>record_vote\<close> checks and how the sets change, uniformly for every vote.
\<close>

lemma record_vote_law:
  assumes "record_vote v h = Some h'" and "vote_slot v \<ge> history_root h"
  shows "(get_type v = NotarizeT \<longrightarrow> vote_slot v \<notin> voted_slots h) \<and>
    (is_fallback_vote v \<longrightarrow> vote_slot v \<in> voted_slots h \<and> vote_slot v \<notin> its_over_slots h) \<and>
    (get_type v = FinalizeT \<longrightarrow> vote_slot v \<notin> skipped_slots h) \<and>
    voted_slots h' = (if is_first_vote v then insert (vote_slot v) (voted_slots h) else voted_slots h) \<and>
    skipped_slots h' = (if is_skip_like v then insert (vote_slot v) (skipped_slots h) else skipped_slots h) \<and>
    its_over_slots h' = (if get_type v = FinalizeT then insert (vote_slot v) (its_over_slots h)
      else its_over_slots h) \<and>
    voted_notar_map h' = (case v of Notarize b \<Rightarrow> (voted_notar_map h)(block_slot b \<mapsto> block_hash b)
      | _ \<Rightarrow> voted_notar_map h) \<and>
    votes_cast h' = votes_cast h \<and> history_root h' = history_root h"
  using assms
  by (cases v) (auto simp: is_skip_like_def skipped_def voted_def its_over_def split: if_splits)


lemma history_invD:
  assumes "history_inv (h, vs)" and "n \<ge> history_root h"
  shows "n \<in> voted_slots h \<longleftrightarrow> (\<exists>v \<in> set vs. vote_slot v = n \<and> is_first_vote v)"
    and "n \<in> skipped_slots h \<longleftrightarrow> (\<exists>v \<in> set vs. vote_slot v = n \<and> is_skip_like v)"
    and "n \<in> its_over_slots h \<longleftrightarrow> Finalize n \<in> set vs"
    and "voted_notar_map h n = Some b \<longleftrightarrow> Notarize (Block n b) \<in> set vs"
    and "(case bt_get (votes_cast h) n of None \<Rightarrow> [] | Some ws \<Rightarrow> ws) = filter (\<lambda>v. vote_slot v = n) vs"
  using assms by (auto simp: history_inv_def)

lemma finalize_vote: "get_type v = FinalizeT \<longleftrightarrow> v = Finalize (vote_slot v)"
  by (cases v) auto

text \<open>The votes a new vote is checked against are those of its slot.\<close>

lemma accepted_vote_is_consistent:
  assumes "history_inv (h, vs)" and "history_add_vote v h = Some h'"
  shows "(\<forall>w \<in> set vs. \<not> contradicts w v) \<and>
    (is_fallback_vote v \<longrightarrow> (\<exists>w \<in> set vs. vote_slot w = vote_slot v \<and> is_first_vote w))"
proof -
  from assms(2) obtain h1 where root: "vote_slot v \<ge> history_root h" and rec: "record_vote v h = Some h1"
    by (auto simp: history_add_vote_def split: if_splits elim!: bind_eq_SomeE)
  note law = record_vote_law [OF rec root] and inv = history_invD [OF assms(1) root]
  have "\<not> contradicts w v" if "w \<in> set vs" for w
    using law inv that finalize_vote [of w] unfolding contradicts_def by metis
  with law inv show ?thesis by blast
qed

lemma cast_keeps_inv:
  assumes inv: "history_inv (h, vs)" and add: "history_add_vote v h = Some h'"
  shows "history_inv (h', vs @ [v])"
proof -
  from add obtain h1 where root: "vote_slot v \<ge> history_root h" and rec: "record_vote v h = Some h1"
    and h': "h' = h1\<lparr>votes_cast := bt_entry [] (\<lambda>vs. vs @ [v]) (vote_slot v) (votes_cast h1)\<rparr>"
    by (auto simp: history_add_vote_def split: if_splits elim!: bind_eq_SomeE)
  note law = record_vote_law [OF rec root]
  have wf: "bt_wf (votes_cast h)" using inv by (simp add: history_inv_def)
  have fields:
      "voted_slots h' = (if is_first_vote v then insert (vote_slot v) (voted_slots h) else voted_slots h)"
      "skipped_slots h' = (if is_skip_like v then insert (vote_slot v) (skipped_slots h) else skipped_slots h)"
      "its_over_slots h' = (if get_type v = FinalizeT then insert (vote_slot v) (its_over_slots h)
        else its_over_slots h)"
      "voted_notar_map h' = (case v of Notarize b \<Rightarrow> (voted_notar_map h)(block_slot b \<mapsto> block_hash b)
        | _ \<Rightarrow> voted_notar_map h)"
      "history_root h' = history_root h"
      "votes_cast h' = bt_entry [] (\<lambda>vs. vs @ [v]) (vote_slot v) (votes_cast h)"
    using law by (simp_all add: h')
  have "n \<in> voted_slots h' \<longleftrightarrow> (\<exists>w \<in> set (vs @ [v]). vote_slot w = n \<and> is_first_vote w)"
      "n \<in> skipped_slots h' \<longleftrightarrow> (\<exists>w \<in> set (vs @ [v]). vote_slot w = n \<and> is_skip_like w)"
      "n \<in> its_over_slots h' \<longleftrightarrow> Finalize n \<in> set (vs @ [v])"
    if "n \<ge> history_root h" for n
    using history_invD(1-3) [OF inv that] finalize_vote [of v] unfolding fields by auto
  moreover have "voted_notar_map h' n = Some b \<longleftrightarrow> Notarize (Block n b) \<in> set (vs @ [v])"
    if n: "n \<ge> history_root h" for n b
  proof (cases v)
    case (Notarize c)
    have none: "voted_notar_map h (block_slot c) = None"
      using rec Notarize by (auto split: if_splits)
    then have "Notarize (Block n b) \<notin> set vs" if "n = block_slot c"
      using history_invD(4) [OF inv n, of b] that by auto
    with history_invD(4) [OF inv n, of b] Notarize show ?thesis
      by (cases c) (auto simp: fields)
  qed (use history_invD(4) [OF inv n, of b] fields in auto)
  moreover have "(case bt_get (votes_cast h') n of None \<Rightarrow> [] | Some ws \<Rightarrow> ws) =
      filter (\<lambda>w. vote_slot w = n) (vs @ [v])" if "n \<ge> history_root h" for n
    using history_invD(5) [OF inv that] by (simp add: fields bt_get_entry wf)
  ultimately show ?thesis
    using inv accepted_vote_is_consistent [OF inv add] wf
    unfolding history_inv_def by (simp add: sorted_wrt_snoc supported_snoc fields)
qed

lemma root_keeps_inv:
  "history_inv (h, vs) \<Longrightarrow> r \<ge> history_root h \<Longrightarrow> history_inv (history_set_root r h, vs)"
  by (auto simp: history_inv_def history_set_root_def restrict_map_def
      bt_get_filter [of "\<lambda>s. r \<le> s"])

lemma other_keeps_inv:
  "history_inv (h, vs) \<Longrightarrow> history_inv (add_block_notarized b h, vs)"
  "history_inv (h, vs) \<Longrightarrow> history_inv (snd (add_parent_ready s b h), vs)"
  by (auto simp: history_inv_def add_block_notarized_def add_parent_ready_def split: option.splits)

lemma history_inv_init: "history_init s \<Longrightarrow> history_inv s"
  by (auto simp: history_init_def history_inv_def new_vote_history_def supported_def)

lemma history_inv_step: "history_step s t \<Longrightarrow> history_inv s \<Longrightarrow> history_inv t"
  by (induction rule: history_step.induct) (auto intro: cast_keeps_inv root_keeps_inv other_keeps_inv)

interpretation history: invariant_system history_init history_step history_inv
  by unfold_locales (fact history_inv_init, rule history_inv_step)


section \<open>Properties\<close>


definition demo_history :: vote_history where
  "demo_history = (new_vote_history 1 0)
     \<lparr>voted_slots := {5}, voted_notar_map := [5 \<mapsto> 9], votes_cast := [(5, [Notarize (Block 5 9)])]\<rparr>"

lemma demo_history_step: "history_step (new_vote_history 1 0, []) (demo_history, [Notarize (Block 5 9)])"
  using history_step.cast [of "Notarize (Block 5 9)" "new_vote_history 1 0" demo_history "[]"]
  by (simp add: history_add_vote_def new_vote_history_def demo_history_def bt_entry_def)




end
