(* ===== verification/Parent_Ready.thy ===== *)
theory Parent_Ready
  imports Votor_Types
begin

text \<open>
  \<open>crates/consensus/votor/src/consensus_pool/parent_ready_tracker.rs\<close>: which blocks may be built upon
  in which slot. The two open-ended \<open>for\<close> loops are \<open>partial_function\<close>s, \<^term>\<open>None\<close> being a loop
  that never ends or a failed \<open>assert!\<close>; they are shown to return. The tracker is then shown
  to hold exactly the parent-ready relation of the module's documentation.
\<close>

section \<open>Model\<close>

record parent_ready_status =
  pr_skip :: bool
  notar_fallbacks :: "block list"
  parents_ready :: "block list"

record parent_ready_tracker =
  slot_statuses :: "slot \<rightharpoonup> parent_ready_status"
  pr_root :: slot
  highest_with_parent_ready :: slot

datatype production_parent = MissedWindow | ParentNotReady | Parent block

definition default_status :: parent_ready_status where
  "default_status = \<lparr>pr_skip = False, notar_fallbacks = [], parents_ready = []\<rparr>"

text \<open>\<open>slot_statuses.entry(s).or_default()\<close>.\<close>

definition status_of :: "parent_ready_tracker \<Rightarrow> slot \<Rightarrow> parent_ready_status" where
  "status_of t s = (case slot_statuses t s of None \<Rightarrow> default_status | Some st \<Rightarrow> st)"

definition set_status :: "slot \<Rightarrow> parent_ready_status \<Rightarrow> parent_ready_tracker \<Rightarrow> parent_ready_tracker" where
  "set_status s st t = t\<lparr>slot_statuses := (slot_statuses t)(s \<mapsto> st)\<rparr>"

definition new_tracker :: "slot \<Rightarrow> slot \<Rightarrow> block \<Rightarrow> parent_ready_tracker" where
  "new_tracker root slot parent =
     (let m0 = Map.empty(block_slot parent \<mapsto>
            \<lparr>pr_skip = False, notar_fallbacks = [parent], parents_ready = []\<rparr>);
          m1 = fold (\<lambda>s m. m(s \<mapsto>
            \<lparr>pr_skip = True, notar_fallbacks = [], parents_ready = [parent]\<rparr>))
            [block_slot parent + 1..<slot] m0
      in \<lparr>slot_statuses = m1(slot \<mapsto>
            \<lparr>pr_skip = False, notar_fallbacks = [], parents_ready = [parent]\<rparr>),
          pr_root = min (block_slot parent) root,
          highest_with_parent_ready = max slot root\<rparr>)"

text \<open>One iteration of either loop that adds a parent to a slot.\<close>

definition add_ready_parent ::
    "slot \<Rightarrow> block \<Rightarrow> parent_ready_status \<times> votor_event list \<Rightarrow> parent_ready_status \<times> votor_event list" where
  "add_ready_parent s b se =
     (let (st, events) = se in
      if b \<in> set (parents_ready st) then (st, events)
      else (st\<lparr>parents_ready := parents_ready st @ [b]\<rparr>,
            if s mod num_consecutive_leader_slots = 0 then events @ [ParentReady s b] else events))"

partial_function (option) spread_parent ::
    "block \<Rightarrow> slot \<Rightarrow> parent_ready_tracker \<Rightarrow> votor_event list \<Rightarrow>
     (parent_ready_tracker \<times> votor_event list) option" where
  "spread_parent b s t events =
     (let st = status_of t s;
          (st', events') = add_ready_parent s b (st, events);
          t' = (set_status s st' t)\<lparr>highest_with_parent_ready :=
            (if b \<in> set (parents_ready st) then highest_with_parent_ready t
             else max s (highest_with_parent_ready t))\<rparr>
      in if pr_skip st then spread_parent b (s + 1) t' events' else Some (t', events'))"

definition add_new_notar_fallback_or_stronger ::
    "block \<Rightarrow> parent_ready_tracker \<Rightarrow> votor_event list \<Rightarrow>
     (parent_ready_tracker \<times> votor_event list) option" where
  "add_new_notar_fallback_or_stronger b t events =
     (if block_slot b \<le> pr_root t then Some (t, events)
      else let st = status_of t (block_slot b) in
        if b \<in> set (notar_fallbacks st) then Some (set_status (block_slot b) st t, events)
        else do {
          let st' = st\<lparr>notar_fallbacks := notar_fallbacks st @ [b]\<rparr>;
          ensure (length (notar_fallbacks st') \<le> max_notar_fallback_blocks);
          spread_parent b (slot_add (block_slot b) 1) (set_status (block_slot b) st' t) events
        })"

partial_function (option) future_slots :: "parent_ready_tracker \<Rightarrow> slot \<Rightarrow> slot list option" where
  "future_slots t s =
     (if case slot_statuses t s of None \<Rightarrow> False | Some st \<Rightarrow> pr_skip st
      then do { rest \<leftarrow> future_slots t (s + 1); Some (s # rest) } else Some [s])"

definition potential_parents :: "parent_ready_status \<Rightarrow> block list" where
  "potential_parents st = notar_fallbacks st @ (if pr_skip st then parents_ready st else [])"

definition connect_slot ::
    "block list \<Rightarrow> slot \<Rightarrow> parent_ready_tracker \<times> votor_event list \<Rightarrow>
     parent_ready_tracker \<times> votor_event list" where
  "connect_slot ps s te =
     (let (t, events) = te;
          (st', events') = fold (add_ready_parent s) ps (status_of t s, events)
      in ((set_status s st' t)\<lparr>highest_with_parent_ready := max s (highest_with_parent_ready t)\<rparr>, events'))"

definition add_new_skip ::
    "slot \<Rightarrow> parent_ready_tracker \<Rightarrow> votor_event list \<Rightarrow>
     (parent_ready_tracker \<times> votor_event list) option" where
  "add_new_skip slot t events =
     (if slot \<le> pr_root t then Some (t, events)
      else do {
        let t' = set_status slot ((status_of t slot)\<lparr>pr_skip := True\<rparr>) t;
        future \<leftarrow> future_slots t' (slot_add slot 1);
        (case slot_statuses t' (slot - 1) of
           None \<Rightarrow> Some (t', events)
         | Some st \<Rightarrow>
             let ps = potential_parents st in
             if ps = [] then Some (t', events)
             else Some (fold (connect_slot ps) future (t', events)))
      })"

definition block_production_parent :: "slot \<Rightarrow> parent_ready_tracker \<Rightarrow> production_parent" where
  "block_production_parent slot t =
     (if highest_with_parent_ready t > slot then MissedWindow
      else (case slot_statuses t slot of
          None \<Rightarrow> ParentNotReady
        | Some st \<Rightarrow> (case parents_ready st of
              [] \<Rightarrow> ParentNotReady
            | p # ps \<Rightarrow> Parent (fold min ps p))))"

definition has_notar_fallback_or_stronger :: "block \<Rightarrow> parent_ready_tracker \<Rightarrow> bool" where
  "has_notar_fallback_or_stronger b t \<longleftrightarrow>
     (case slot_statuses t (block_slot b) of None \<Rightarrow> False | Some st \<Rightarrow> b \<in> set (notar_fallbacks st))"

definition tracker_set_root :: "slot \<Rightarrow> parent_ready_tracker \<Rightarrow> parent_ready_tracker" where
  "tracker_set_root root t = t\<lparr>pr_root := root, slot_statuses := slot_statuses t |` {s. s \<ge> root}\<rparr>"


section \<open>Updating one slot\<close>

lemma status_of_set [simp]: "status_of (set_status s st t) s' = (if s' = s then st else status_of t s')"
  by (simp add: status_of_def set_status_def)

lemma tracker_fields [simp]:
  "pr_root (set_status s st t) = pr_root t"
  "highest_with_parent_ready (set_status s st t) = highest_with_parent_ready t"
  "status_of (t\<lparr>highest_with_parent_ready := h\<rparr>) s = status_of t s"
  by (simp_all add: status_of_def set_status_def)

lemma statuses_skip:
  "(case slot_statuses t s of None \<Rightarrow> False | Some st \<Rightarrow> pr_skip st) \<longleftrightarrow> pr_skip (status_of t s)"
  by (simp add: status_of_def default_status_def split: option.split)

text \<open>
  What adding a list of parents to one slot does: exactly the missing ones are appended, and an
  event is emitted for each of them in the first slot of a leader window.
\<close>

definition ready_events :: "slot \<Rightarrow> block list \<Rightarrow> votor_event list" where
  "ready_events s bs = (if s mod num_consecutive_leader_slots = 0 then map (ParentReady s) bs else [])"

lemma add_ready_parent_law:
  "add_ready_parent s b (st, events) =
     (let new = (if b \<in> set (parents_ready st) then [] else [b])
      in (st\<lparr>parents_ready := parents_ready st @ new\<rparr>, events @ ready_events s new))"
  by (simp add: add_ready_parent_def ready_events_def)

lemma add_ready_parents_law:
  "\<exists>new. fold (add_ready_parent s) ps (st, events) =
      (st\<lparr>parents_ready := parents_ready st @ new\<rparr>, events @ ready_events s new) \<and>
    set new = set ps - set (parents_ready st) \<and> distinct new"
proof (induction ps arbitrary: st events)
  case (Cons b ps)
  let ?new = "if b \<in> set (parents_ready st) then [] else [b]"
  from Cons.IH [of "st\<lparr>parents_ready := parents_ready st @ ?new\<rparr>" "events @ ready_events s ?new"]
  obtain new where new: "fold (add_ready_parent s) (b # ps) (st, events) =
      (st\<lparr>parents_ready := parents_ready st @ ?new @ new\<rparr>, events @ ready_events s ?new @ ready_events s new)"
    and s: "set new = set ps - set (parents_ready st @ ?new)" "distinct new"
    by (auto simp: add_ready_parent_law Let_def)
  have "ready_events s ?new @ ready_events s new = ready_events s (?new @ new)"
    by (simp add: ready_events_def)
  with new s show ?case by (intro exI [of _ "?new @ new"]) auto
qed (auto simp: ready_events_def)



section \<open>The loops return\<close>

text \<open>
  Only finitely many slots are skip-certified, so each loop reaches a slot that is not; it
  processes the slots up to and including that one.
\<close>

definition skips :: "parent_ready_tracker \<Rightarrow> slot set" where
  "skips t = {s. pr_skip (status_of t s)}"

definition run_end :: "slot set \<Rightarrow> slot \<Rightarrow> slot" where
  "run_end K s = (LEAST n. s \<le> n \<and> n \<notin> K)"

lemma run_end_exists: "finite K \<Longrightarrow> \<exists>n. s \<le> n \<and> n \<notin> (K :: nat set)"
  using infinite_super [of "{s..}" K] infinite_Ici by auto

lemma run_end_spec:
  assumes "finite (K :: nat set)"
  shows "s \<le> run_end K s \<and> run_end K s \<notin> K \<and> {s..<run_end K s} \<subseteq> K"
proof -
  have "s \<le> run_end K s \<and> run_end K s \<notin> K"
    unfolding run_end_def using run_end_exists [OF assms] by (rule LeastI_ex)
  moreover have "n \<in> K" if "s \<le> n" "n < run_end K s" for n
    using not_less_Least [of n "\<lambda>n. s \<le> n \<and> n \<notin> K"] that unfolding run_end_def by auto
  ultimately show ?thesis by auto
qed

lemma run_end_here: "s \<notin> K \<Longrightarrow> run_end K s = s"
  unfolding run_end_def by (rule Least_equality) auto

lemma run_end_next:
  assumes "finite (K :: nat set)" and "s \<in> K"
  shows "run_end K s = run_end K (Suc s)"
proof -
  have "(s \<le> n \<and> n \<notin> K) \<longleftrightarrow> (Suc s \<le> n \<and> n \<notin> K)" for n
    using assms(2) by (cases "n = s") auto
  then show ?thesis by (simp add: run_end_def)
qed

text \<open>Induction along a run of skip-certified slots.\<close>

lemma run_induct [consumes 1, case_names stop go]:
  fixes K :: "nat set"
  assumes "finite K" and stop: "\<And>s. s \<notin> K \<Longrightarrow> P s" and go: "\<And>s. s \<in> K \<Longrightarrow> P (Suc s) \<Longrightarrow> P s"
  shows "P s"
proof (induction "run_end K s - s" arbitrary: s rule: less_induct)
  case less
  show ?case
  proof (cases "s \<in> K")
    case True
    have "Suc s \<le> run_end K (Suc s)" using run_end_spec [OF assms(1)] by blast
    then have "run_end K (Suc s) - Suc s < run_end K s - s"
      by (simp add: run_end_next [OF assms(1) True])
    with less True go show ?thesis by blast
  qed (rule stop)
qed

lemma future_slots_law:
  assumes "finite (skips t)"
  shows "future_slots t s = Some [s..<Suc (run_end (skips t) s)]"
  using assms
proof (induction s rule: run_induct)
  case (stop s)
  then show ?case
    by (subst future_slots.simps) (simp add: statuses_skip skips_def run_end_here)
next
  case (go s)
  have "Suc s \<le> run_end (skips t) (Suc s)" using run_end_spec [OF assms] by blast
  then have "[s..<Suc (run_end (skips t) s)] = s # [Suc s..<Suc (run_end (skips t) (Suc s))]"
    using run_end_next [OF assms go.hyps] by (simp add: upt_conv_Cons)
  with go show ?case
    by (subst future_slots.simps) (simp add: statuses_skip skips_def)
qed

text \<open>Both loops add parents to the slots of the run, and leave everything else as it is.\<close>

definition grown :: "(slot \<Rightarrow> block set) \<Rightarrow> parent_ready_tracker \<Rightarrow> parent_ready_tracker \<Rightarrow> bool" where
  "grown A t t' \<longleftrightarrow> pr_root t' = pr_root t \<and>
     (\<forall>s. pr_skip (status_of t' s) = pr_skip (status_of t s) \<and>
          notar_fallbacks (status_of t' s) = notar_fallbacks (status_of t s) \<and>
          set (parents_ready (status_of t' s)) = set (parents_ready (status_of t s)) \<union> A s)"

lemma grown_skips: "grown A t t' \<Longrightarrow> skips t' = skips t"
  by (simp add: grown_def skips_def)

lemma grown_trans: "grown A t t' \<Longrightarrow> grown B t' t'' \<Longrightarrow> grown (\<lambda>s. A s \<union> B s) t t''"
  by (auto simp: grown_def)

lemma grown_cong: "grown A t t' \<Longrightarrow> (\<And>s. A s = B s) \<Longrightarrow> grown B t t'"
  by (simp add: grown_def)


definition top_ok :: "parent_ready_tracker \<Rightarrow> bool" where
  "top_ok t \<longleftrightarrow> (\<forall>s. parents_ready (status_of t s) \<noteq> [] \<longrightarrow> s \<le> highest_with_parent_ready t)"

text \<open>The events for the pairs that became ready.\<close>

definition new_ready :: "(slot \<Rightarrow> block set) \<Rightarrow> parent_ready_tracker \<Rightarrow> votor_event set" where
  "new_ready A t = {ParentReady s b | s b.
     s mod num_consecutive_leader_slots = 0 \<and> b \<in> A s \<and> b \<notin> set (parents_ready (status_of t s))}"

lemma grown_refl: "grown (\<lambda>_. {}) t t"
  by (simp add: grown_def)

text \<open>The effect of adding the parents \<open>P\<close> to the slots of the interval from \<open>s\<close> to \<open>e\<close>.\<close>

definition spread :: "block set \<Rightarrow> slot \<Rightarrow> slot \<Rightarrow> slot \<Rightarrow> block set" where
  "spread P s e s' = (if s \<le> s' \<and> s' \<le> e then P else {})"

definition grown_run ::
    "(slot \<Rightarrow> block set) \<Rightarrow> parent_ready_tracker \<Rightarrow> votor_event list \<Rightarrow>
     parent_ready_tracker \<times> votor_event list \<Rightarrow> bool" where
  "grown_run A t events r \<longleftrightarrow> grown A t (fst r) \<and> (top_ok t \<longrightarrow> top_ok (fst r)) \<and>
     (\<exists>new. snd r = events @ new \<and> set new = new_ready A t)"

lemma grown_run_step:
  assumes "\<exists>new. st' = (status_of t s)\<lparr>parents_ready := parents_ready (status_of t s) @ new\<rparr> \<and>
      events' = events @ ready_events s new \<and> set new = P - set (parents_ready (status_of t s))"
    and "highest_with_parent_ready t' = max s (highest_with_parent_ready t) \<or>
      highest_with_parent_ready t' = highest_with_parent_ready t \<and> P \<subseteq> set (parents_ready (status_of t s))"
    and "t' = (set_status s st' t)\<lparr>highest_with_parent_ready := h\<rparr>"
  shows "grown_run (spread P s s) t events (t', events')"
proof -
  from assms(1) obtain new where st': "st' = (status_of t s)\<lparr>parents_ready := parents_ready (status_of t s) @ new\<rparr>"
    and ev: "events' = events @ ready_events s new" and new: "set new = P - set (parents_ready (status_of t s))"
    by blast
  have "grown (spread P s s) t t'"
    using new by (auto simp: assms(3) grown_def spread_def st')
  moreover have "top_ok t'" if "top_ok t"
  proof -
    have "s' \<le> highest_with_parent_ready t'" if "parents_ready (status_of t' s') \<noteq> []" for s'
    proof (cases "parents_ready (status_of t s') = []")
      case False
      then have "s' \<le> highest_with_parent_ready t" using \<open>top_ok t\<close> by (simp add: top_ok_def)
      with assms(2) show ?thesis by auto
    next
      case True
      with that have "s' = s" "new \<noteq> []" by (auto simp: assms(3) st' split: if_splits)
      then have "\<not> P \<subseteq> set (parents_ready (status_of t s))"
        using new by (metis Diff_eq_empty_iff set_empty)
      with assms(2) \<open>s' = s\<close> show ?thesis by auto
    qed
    then show ?thesis by (simp add: top_ok_def)
  qed
  moreover have "set (ready_events s new) = new_ready (spread P s s) t"
    using new by (auto simp: ready_events_def new_ready_def spread_def split: if_splits)
  ultimately show ?thesis unfolding grown_run_def using ev by auto
qed

lemma grown_run_trans:
  assumes "grown_run A t events (t1, events1)" and "grown_run B t1 events1 r"
    and disjoint: "\<And>s. A s = {} \<or> B s = {}"
  shows "grown_run (\<lambda>s. A s \<union> B s) t events r"
proof -
  have same: "set (parents_ready (status_of t1 s)) = set (parents_ready (status_of t s)) \<union> A s" for s
    using assms(1) by (simp add: grown_run_def grown_def)
  have "new_ready (\<lambda>s. A s \<union> B s) t = new_ready A t \<union> new_ready B t1"
  proof -
    have "b \<notin> A s" if "b \<in> B s" for s b using disjoint [of s] that by auto
    then show ?thesis unfolding new_ready_def same by auto
  qed
  with assms(1,2) show ?thesis
    by (auto simp: grown_run_def intro: grown_trans)
qed

lemma grown_run_spread_Cons:
  assumes "grown_run (spread P s s) t events (t1, events1)"
    and "grown_run (spread P (Suc s) e) t1 events1 r" and "Suc s \<le> e"
  shows "grown_run (spread P s e) t events r"
proof -
  have "(\<lambda>s'. spread P s s s' \<union> spread P (Suc s) e s') = spread P s e"
    using assms(3) by (auto simp: spread_def fun_eq_iff)
  then show ?thesis
    using grown_run_trans [OF assms(1,2)] by (simp add: spread_def)
qed

lemma spread_parent_law:
  assumes fin: "finite K"
  shows "skips t = K \<Longrightarrow> \<exists>r. spread_parent b s t events = Some r \<and>
    grown_run (spread {b} s (run_end K s)) t events r"
  using assms
proof (induction s arbitrary: t events rule: run_induct)
  case (stop s)
  obtain st' events' where step: "add_ready_parent s b (status_of t s, events) = (st', events')" by fastforce
  let ?t = "(set_status s st' t)\<lparr>highest_with_parent_ready :=
            (if b \<in> set (parents_ready (status_of t s)) then highest_with_parent_ready t
             else max s (highest_with_parent_ready t))\<rparr>"
  have "grown_run (spread {b} s s) t events (?t, events')"
    by (rule grown_run_step) (use step in \<open>auto simp: add_ready_parent_law Let_def split: if_splits\<close>)
  with stop step show ?case
    by (subst spread_parent.simps) (auto simp: skips_def run_end_here)
next
  case (go s)
  obtain st' events' where step: "add_ready_parent s b (status_of t s, events) = (st', events')" by fastforce
  let ?t = "(set_status s st' t)\<lparr>highest_with_parent_ready :=
            (if b \<in> set (parents_ready (status_of t s)) then highest_with_parent_ready t
             else max s (highest_with_parent_ready t))\<rparr>"
  have first: "grown_run (spread {b} s s) t events (?t, events')"
    by (rule grown_run_step) (use step in \<open>auto simp: add_ready_parent_law Let_def split: if_splits\<close>)
  then have "skips ?t = K" using go.prems by (auto simp: grown_run_def dest: grown_skips)
  then obtain r where r: "spread_parent b (Suc s) ?t events' = Some r"
    "grown_run (spread {b} (Suc s) (run_end K (Suc s))) ?t events' r"
    using go.IH [of ?t events'] by blast
  have "grown_run (spread {b} s (run_end K s)) t events r"
    unfolding run_end_next [OF fin go.hyps]
    using grown_run_spread_Cons [OF first r(2)] run_end_spec [OF fin] by blast
  with r(1) go.hyps go.prems step show ?case
    by (subst spread_parent.simps) (cases r, auto simp: skips_def)
qed

lemma connect_slot_law: "grown_run (spread (set ps) s s) t events (connect_slot ps s (t, events))"
proof -
  obtain new where new: "fold (add_ready_parent s) ps (status_of t s, events) =
      ((status_of t s)\<lparr>parents_ready := parents_ready (status_of t s) @ new\<rparr>, events @ ready_events s new)"
    "set new = set ps - set (parents_ready (status_of t s))"
    using add_ready_parents_law by blast
  then show ?thesis
    unfolding connect_slot_def by (auto intro!: grown_run_step)
qed

lemma connect_slots_law:
  "s \<le> e \<Longrightarrow> grown_run (spread (set ps) s e) t events (fold (connect_slot ps) [s..<Suc e] (t, events))"
proof (induction "e - s" arbitrary: s t events)
  case 0
  then have "[s..<Suc e] = [s]" "e = s" by auto
  then show ?case using connect_slot_law by simp
next
  case (Suc n)
  then have "[s..<Suc e] = s # [Suc s..<Suc e]" "n = e - Suc s" "Suc s \<le> e" by (auto simp: upt_conv_Cons)
  moreover obtain t1 events1 where one: "connect_slot ps s (t, events) = (t1, events1)" by fastforce
  ultimately show ?case
    using grown_run_spread_Cons [OF connect_slot_law [of ps s t events, unfolded one]] Suc.hyps(1) [of "Suc s" t1 events1]
    by simp
qed


section \<open>The relation that is tracked\<close>

text \<open>
  \<open>ready N K s\<close>: the blocks of \<open>N\<close> that every slot between theirs and \<open>s\<close> being in \<open>K\<close> makes
  choosable as parents in slot \<open>s\<close>.
\<close>

definition ready :: "block set \<Rightarrow> slot set \<Rightarrow> slot \<Rightarrow> block set" where
  "ready N K s = {b \<in> N. block_slot b < s \<and> {block_slot b<..<s} \<subseteq> K}"

lemma mem_ready: "b \<in> ready N K s \<longleftrightarrow> b \<in> N \<and> block_slot b < s \<and> {block_slot b<..<s} \<subseteq> K"
  by (simp add: ready_def)

lemma mem_spread: "b \<in> spread P x e s \<longleftrightarrow> x \<le> s \<and> s \<le> e \<and> b \<in> P"
  by (auto simp: spread_def)

lemma run_reach:
  assumes "finite (K :: nat set)" and "x < s"
  shows "{x<..<s} \<subseteq> K \<longleftrightarrow> s \<le> run_end K (Suc x)"
proof
  assume "{x<..<s} \<subseteq> K"
  then show "s \<le> run_end K (Suc x)"
    using run_end_spec [OF assms(1), of "Suc x"] by (metis Suc_le_eq greaterThanLessThan_iff in_mono not_le)
next
  assume "s \<le> run_end K (Suc x)"
  then show "{x<..<s} \<subseteq> K"
    using run_end_spec [OF assms(1), of "Suc x"] by (auto simp: subset_iff)
qed

lemma run_end_cong: "(\<And>n. s \<le> n \<Longrightarrow> n \<in> A \<longleftrightarrow> n \<in> B) \<Longrightarrow> run_end A s = run_end B s"
  by (simp add: run_end_def cong: conj_cong)

lemma ready_insert_block:
  assumes "finite K"
  shows "ready (insert b N) K s = ready N K s \<union> spread {b} (Suc (block_slot b)) (run_end K (Suc (block_slot b))) s"
proof (rule set_eqI)
  show "x \<in> ready (insert b N) K s \<longleftrightarrow>
      x \<in> ready N K s \<union> spread {b} (Suc (block_slot b)) (run_end K (Suc (block_slot b))) s" for x
    unfolding Un_iff mem_ready mem_spread Suc_le_eq
    using run_reach [OF assms, of "block_slot b" s] by (cases "x = b") (simp_all, metis)
qed

lemma ready_insert_skip:
  assumes "finite K"
  shows "ready N (insert k K) s =
    ready N K s \<union> spread (ready N K k) (Suc k) (run_end (insert k K) (Suc k)) s"
proof -
  have split: "{x<..<s} \<subseteq> insert k K \<longleftrightarrow>
      {x<..<s} \<subseteq> K \<or> x < k \<and> k < s \<and> {x<..<k} \<subseteq> K \<and> {k<..<s} \<subseteq> insert k K" if "x < s" for x
  proof (cases "x < k \<and> k < s")
    case True
    then have "{x<..<s} = insert k ({x<..<k} \<union> {k<..<s})" by auto
    then show ?thesis using True by auto
  next
    case False
    then have "k \<notin> {x<..<s}" by auto
    then show ?thesis using False by blast
  qed
  show ?thesis
  proof (rule set_eqI)
    show "b \<in> ready N (insert k K) s \<longleftrightarrow>
        b \<in> ready N K s \<union> spread (ready N K k) (Suc k) (run_end (insert k K) (Suc k)) s" for b
      unfolding Un_iff mem_ready mem_spread Suc_le_eq
      using run_reach [of "insert k K" k s] split [of "block_slot b"] assms less_trans [of "block_slot b" k s]
      by (metis finite_insert)
  qed
qed

definition exact :: "block set \<Rightarrow> slot set \<Rightarrow> parent_ready_tracker \<Rightarrow> bool" where
  "exact N K t \<longleftrightarrow> finite K \<and> finite (skips t) \<and> top_ok t \<and>
     (\<forall>s \<ge> pr_root t. (s \<in> skips t \<longleftrightarrow> s \<in> K) \<and>
        set (notar_fallbacks (status_of t s)) = {b \<in> N. block_slot b = s} \<and>
        set (parents_ready (status_of t s)) = ready N K s)"

lemma exact_run_end: "exact N K t \<Longrightarrow> pr_root t \<le> s \<Longrightarrow> run_end (skips t) s = run_end K s"
  by (rule run_end_cong) (simp add: exact_def)

lemma potential_parents_exact:
  assumes "exact N K t" and "pr_root t < k"
  shows "set (potential_parents (status_of t (k - 1))) = ready N K k"
proof -
  obtain j where k: "k = Suc j" and j: "pr_root t \<le> j" using assms(2) by (cases k) auto
  have "{x<..<Suc j} = (if x < j then insert j {x<..<j} else {})" for x by auto
  then have "ready N K k = {b \<in> N. block_slot b = j} \<union> (if j \<in> K then ready N K j else {})"
    unfolding k ready_def by (auto split: if_splits)
  with assms(1) j show ?thesis
    unfolding exact_def potential_parents_def k by (auto simp: skips_def split: if_splits)
qed

text \<open>The notifications a change of the two certificate sets calls for.\<close>

definition window_events ::
    "block set \<Rightarrow> slot set \<Rightarrow> block set \<Rightarrow> slot set \<Rightarrow> votor_event set" where
  "window_events N K N' K' = {ParentReady s b | s b.
     s mod num_consecutive_leader_slots = 0 \<and> b \<in> ready N' K' s - ready N K s}"

definition advances ::
    "block set \<Rightarrow> slot set \<Rightarrow> block set \<Rightarrow> slot set \<Rightarrow> parent_ready_tracker \<Rightarrow> votor_event list \<Rightarrow>
     (parent_ready_tracker \<times> votor_event list) option \<Rightarrow> bool" where
  "advances N K N' K' t events r \<longleftrightarrow> (\<exists>t' new. r = Some (t', events @ new) \<and>
     exact N' K' t' \<and> pr_root t' = pr_root t \<and> set new = window_events N K N' K')"

text \<open>
  A call first changes one slot's certificates (giving \<open>t\<^sub>1\<close>) and then grows the parents by
  what the change makes ready.
\<close>

lemma advancesI:
  assumes ex: "exact N K t" and run: "grown_run A t\<^sub>1 events r"
    and root: "pr_root t\<^sub>1 = pr_root t" "highest_with_parent_ready t\<^sub>1 = highest_with_parent_ready t"
    and skip: "skips t\<^sub>1 = skips t \<union> S" "K' = K \<union> S" "finite S"
    and fall: "\<And>s. pr_root t \<le> s \<Longrightarrow> set (notar_fallbacks (status_of t\<^sub>1 s)) = {b \<in> N'. block_slot b = s}"
    and par: "\<And>s. parents_ready (status_of t\<^sub>1 s) = parents_ready (status_of t s)"
    and A: "\<And>s. ready N' K' s = ready N K s \<union> A s" "\<And>s. s \<le> pr_root t \<Longrightarrow> A s = {}"
  shows "advances N K N' K' t events (Some r)"
proof -
  have top: "top_ok t\<^sub>1" using ex by (simp add: exact_def top_ok_def par root)
  have grown: "grown A t\<^sub>1 (fst r)" and "top_ok (fst r)" using run top by (auto simp: grown_run_def)
  then have "exact N' K' (fst r)"
    using ex grown_skips [OF grown] by (auto simp: exact_def skip fall A [unfolded skip(2)] grown_def par root)
  moreover have "pr_root (fst r) = pr_root t" using grown by (simp add: grown_def root)
  moreover have "new_ready A t\<^sub>1 = window_events N K N' K'"
  proof -
    have "A s - set (parents_ready (status_of t\<^sub>1 s)) = ready N' K' s - ready N K s" for s
    proof (cases "s \<le> pr_root t")
      case False
      then show ?thesis using ex by (auto simp: exact_def par A)
    qed (auto simp: A)
    then have "b \<in> A s \<and> b \<notin> set (parents_ready (status_of t\<^sub>1 s)) \<longleftrightarrow> b \<in> ready N' K' s - ready N K s" for s b
      by (metis Diff_iff)
    then show ?thesis by (simp add: new_ready_def window_events_def)
  qed
  moreover obtain new where "r = (fst r, events @ new)" "set new = new_ready A t\<^sub>1"
    using run by (metis grown_run_def prod.collapse)
  ultimately show ?thesis unfolding advances_def by metis
qed

lemma advances_same: "exact N K t \<Longrightarrow> exact N K t' \<Longrightarrow> pr_root t' = pr_root t \<Longrightarrow>
    advances N K N K t events (Some (t', events))"
  by (auto simp: advances_def window_events_def)

lemma add_new_notar_fallback_law:
  assumes ex: "exact N K t" and b: "pr_root t < block_slot b" "block_slot b < u64_max"
    and room: "b \<in> N \<or> length (notar_fallbacks (status_of t (block_slot b))) < max_notar_fallback_blocks"
  shows "advances N K (insert b N) K t events (add_new_notar_fallback_or_stronger b t events)"
proof (cases "b \<in> N")
  case True
  then have "b \<in> set (notar_fallbacks (status_of t (block_slot b)))" using ex b by (auto simp: exact_def)
  moreover have "status_of (set_status (block_slot b) (status_of t (block_slot b)) t) = status_of t"
    by (rule ext) simp
  ultimately show ?thesis
    using b True insert_absorb [OF True] advances_same [OF ex, of "set_status (block_slot b) (status_of t (block_slot b)) t"] ex
    by (simp add: add_new_notar_fallback_or_stronger_def exact_def skips_def top_ok_def)
next
  case False
  let ?s = "block_slot b"
  let ?t = "set_status ?s ((status_of t ?s)\<lparr>notar_fallbacks := notar_fallbacks (status_of t ?s) @ [b]\<rparr>) t"
  have fin: "finite K" using ex by (simp add: exact_def)
  have skips: "skips ?t = skips t" by (auto simp: skips_def)
  obtain r where r: "spread_parent b (Suc ?s) ?t events = Some r"
    "grown_run (spread {b} (Suc ?s) (run_end K (Suc ?s))) ?t events r"
    using spread_parent_law [OF _ skips, of b "Suc ?s" events] exact_run_end [OF ex, of "Suc ?s"] ex b
    by (auto simp: exact_def)
  have "b \<notin> set (notar_fallbacks (status_of t ?s))" using False ex b by (auto simp: exact_def)
  then have "add_new_notar_fallback_or_stronger b t events = Some r"
    using r(1) room False b
    by (simp add: add_new_notar_fallback_or_stronger_def slot_add_def ensure_def)
  moreover have "advances N K (insert b N) K t events (Some r)"
    by (rule advancesI [where S = "{}", OF ex r(2)])
      (use ex b skips ready_insert_block [OF fin, of b N] in \<open>auto simp: exact_def mem_spread\<close>)
  ultimately show ?thesis by simp
qed

lemma add_new_skip_eq:
  assumes "pr_root t < k" "k < u64_max"
    and t': "t' = set_status k ((status_of t k)\<lparr>pr_skip := True\<rparr>) t" and "future_slots t' (Suc k) = Some future"
  shows "add_new_skip k t events =
    (let ps = potential_parents (status_of t' (k - 1))
     in Some (if ps = [] then (t', events) else fold (connect_slot ps) future (t', events)))"
proof (cases "slot_statuses t' (k - 1)")
  case None
  then have "potential_parents (status_of t' (k - 1)) = []"
    by (simp add: status_of_def potential_parents_def default_status_def)
  with assms None show ?thesis by (simp add: add_new_skip_def slot_add_def flip: t')
next
  case (Some st)
  then have "status_of t' (k - 1) = st" by (simp add: status_of_def)
  with assms Some show ?thesis by (simp add: add_new_skip_def slot_add_def Let_def flip: t')
qed

lemma add_new_skip_law:
  assumes ex: "exact N K t" and k: "pr_root t < k" "k < u64_max"
  shows "advances N K N (insert k K) t events (add_new_skip k t events)"
proof -
  let ?t = "set_status k ((status_of t k)\<lparr>pr_skip := True\<rparr>) t"
  let ?e = "run_end (insert k K) (Suc k)"
  let ?ps = "potential_parents (status_of ?t (k - 1))"
  have fin: "finite K" using ex by (simp add: exact_def)
  have skips: "skips ?t = skips t \<union> {k}" by (auto simp: skips_def)
  have "run_end (skips ?t) (Suc k) = ?e"
    by (rule run_end_cong) (use ex k skips in \<open>auto simp: exact_def\<close>)
  moreover have "finite (skips ?t)" using ex skips by (simp add: exact_def)
  ultimately have future: "future_slots ?t (Suc k) = Some [Suc k..<Suc ?e]" by (simp add: future_slots_law)
  have prev: "status_of ?t (k - 1) = status_of t (k - 1)" using k by simp
  have ps: "set ?ps = ready N K k" unfolding prev using potential_parents_exact ex k by blast
  have run: "grown_run (spread (ready N K k) (Suc k) ?e) ?t events (fold (connect_slot ?ps) [Suc k..<Suc ?e] (?t, events))"
    using connect_slots_law run_end_spec [of "insert k K" "Suc k"] fin unfolding ps [symmetric] by simp
  have step: "advances N K N (insert k K) t events (Some r)"
    if "grown_run (spread (ready N K k) (Suc k) ?e) ?t events r" for r
    by (rule advancesI [where S = "{k}", OF ex that])
      (use ex k skips ready_insert_skip [OF fin, of N k] in \<open>auto simp: exact_def mem_spread\<close>)
  show ?thesis
  proof (cases "?ps = []")
    case True
    then have "grown_run (spread (ready N K k) (Suc k) ?e) ?t events (?t, events)"
      using ps by (simp add: grown_run_def grown_def spread_def new_ready_def)
    from step [OF this] show ?thesis
      unfolding add_new_skip_eq [OF k refl future] Let_def using True by simp
  next
    case False
    with step [OF run] show ?thesis
      unfolding add_new_skip_eq [OF k refl future] Let_def by simp
  qed
qed

lemma new_tracker_exact:
  assumes "block_slot p < s"
  shows "exact {p} {block_slot p<..<s} (new_tracker root s p)"
proof -
  have fold_upd: "fold (\<lambda>s m. m(s \<mapsto> x)) ss m0 s' = (if s' \<in> set ss then Some x else m0 s')" for ss x m0 s'
    by (induction ss arbitrary: m0) auto
  have status: "status_of (new_tracker root s p) s' =
      \<lparr>pr_skip = block_slot p < s' \<and> s' < s, notar_fallbacks = (if s' = block_slot p then [p] else []),
       parents_ready = (if block_slot p < s' \<and> s' \<le> s then [p] else [])\<rparr>" for s'
    using assms by (auto simp: status_of_def new_tracker_def Let_def fold_upd default_status_def)
  have "ready {p} {block_slot p<..<s} s' = (if block_slot p < s' \<and> s' \<le> s then {p} else {})" for s'
    using assms by (auto simp: ready_def subset_iff)
  moreover have "skips (new_tracker root s p) = {block_slot p<..<s}" by (auto simp: skips_def status)
  moreover have "top_ok (new_tracker root s p)"
    by (auto simp: top_ok_def status) (auto simp: new_tracker_def Let_def)
  ultimately show ?thesis by (auto simp: exact_def status)
qed

lemma set_root_exact:
  assumes "exact N K t" and "pr_root t \<le> r"
  shows "exact N K (tracker_set_root r t)"
proof -
  have status: "status_of (tracker_set_root r t) s = (if r \<le> s then status_of t s else default_status)" for s
    by (simp add: status_of_def tracker_set_root_def restrict_map_def)
  have "skips (tracker_set_root r t) = {s \<in> skips t. r \<le> s}"
    by (auto simp: skips_def status default_status_def)
  moreover have "pr_root (tracker_set_root r t) = r"
    and "highest_with_parent_ready (tracker_set_root r t) = highest_with_parent_ready t"
    by (simp_all add: tracker_set_root_def)
  ultimately show ?thesis
    using assms by (auto simp: exact_def top_ok_def status default_status_def)
qed


section \<open>Reachable trackers\<close>

text \<open>
  \<open>tracked N K t\<close>: the tracker \<open>t\<close> is reached from a startup state by calls that accepted notarize
  fallback (or stronger) certificates for the blocks \<open>N\<close> and skip certificates for the slots \<open>K\<close>.
  The certificate of a slot that is not above the root is ignored.
\<close>

inductive tracked :: "block set \<Rightarrow> slot set \<Rightarrow> parent_ready_tracker \<Rightarrow> bool" where
  start: "block_slot p < s \<Longrightarrow> tracked {p} {block_slot p<..<s} (new_tracker root s p)"
| certified: "\<lbrakk>tracked N K t; block_slot b < u64_max;
     add_new_notar_fallback_or_stronger b t events = Some (t', events')\<rbrakk>
   \<Longrightarrow> tracked (if block_slot b \<le> pr_root t then N else insert b N) K t'"
| skip_certified: "\<lbrakk>tracked N K t; k < u64_max; add_new_skip k t events = Some (t', events')\<rbrakk>
   \<Longrightarrow> tracked N (if k \<le> pr_root t then K else insert k K) t'"
| rooted: "\<lbrakk>tracked N K t; pr_root t \<le> r\<rbrakk> \<Longrightarrow> tracked N K (tracker_set_root r t)"

lemma add_new_notar_fallback_ignored:
  "block_slot b \<le> pr_root t \<Longrightarrow> add_new_notar_fallback_or_stronger b t events = Some (t, events)"
  by (simp add: add_new_notar_fallback_or_stronger_def)

lemma add_new_skip_ignored: "k \<le> pr_root t \<Longrightarrow> add_new_skip k t events = Some (t, events)"
  by (simp add: add_new_skip_def)

lemma add_new_notar_fallback_full:
  assumes "exact N K t" "pr_root t < block_slot b"
    and "add_new_notar_fallback_or_stronger b t events \<noteq> None"
  shows "b \<in> N \<or> length (notar_fallbacks (status_of t (block_slot b))) < max_notar_fallback_blocks"
  using assms by (auto simp: add_new_notar_fallback_or_stronger_def exact_def Let_def split: if_splits)

lemma tracked_exact: "tracked N K t \<Longrightarrow> exact N K t"
proof (induction rule: tracked.induct)
  case (certified N K t b events t' events')
  show ?case
  proof (cases "block_slot b \<le> pr_root t")
    case True
    then show ?thesis using certified by (simp add: add_new_notar_fallback_ignored)
  next
    case False
    then have "b \<in> N \<or> length (notar_fallbacks (status_of t (block_slot b))) < max_notar_fallback_blocks"
      using add_new_notar_fallback_full certified by (metis not_le option.discI)
    then show ?thesis
      using add_new_notar_fallback_law [of N K t b events] certified False by (auto simp: advances_def)
  qed
next
  case (skip_certified N K t k events t' events')
  then show ?case
    using add_new_skip_law [of N K t k events]
    by (cases "k \<le> pr_root t") (auto simp: add_new_skip_ignored advances_def)
qed (simp_all add: new_tracker_exact set_root_exact)

lemma block_production_parent_eq:
  "block_production_parent s t =
     (if highest_with_parent_ready t > s then MissedWindow
      else (case parents_ready (status_of t s) of
          [] \<Rightarrow> ParentNotReady
        | p # ps \<Rightarrow> Parent (fold min ps p)))"
  by (cases "slot_statuses t s") (simp_all add: block_production_parent_def status_of_def default_status_def)


section \<open>Properties\<close>

text \<open>
  C13. The tracker knows exactly the parents the protocol allows. In every reachable state, and for
  every slot from the root on, a block is recorded as ready parent of the slot if and only if it was
  certified (notarize fallback or stronger), its slot is earlier, and every slot in between was
  skip-certified, whatever order the certificates came in; and no slot above the recorded highest one
  has a ready parent.
\<close>

theorem parent_ready_is_exact:
  assumes "tracked N K t" and "pr_root t \<le> s"
  shows "(b \<in> set (parents_ready (status_of t s)) \<longleftrightarrow>
      b \<in> N \<and> block_slot b < s \<and> {block_slot b<..<s} \<subseteq> K) \<and>
    (has_notar_fallback_or_stronger b t \<and> pr_root t \<le> block_slot b \<longrightarrow> b \<in> N) \<and>
    (parents_ready (status_of t s) \<noteq> [] \<longrightarrow> s \<le> highest_with_parent_ready t)"
proof -
  have ex: "exact N K t" using assms(1) by (rule tracked_exact)
  have "has_notar_fallback_or_stronger b t \<longleftrightarrow> b \<in> set (notar_fallbacks (status_of t (block_slot b)))"
    by (simp add: has_notar_fallback_or_stronger_def status_of_def default_status_def split: option.split)
  with ex assms(2) show ?thesis by (auto simp: exact_def mem_ready top_ok_def)
qed

definition demo_block :: block where
  "demo_block = Block 3 9"

definition demo_tracker :: parent_ready_tracker where
  "demo_tracker = new_tracker 0 7 demo_block"

lemma demo_tracked: "tracked {demo_block} {3<..<7} demo_tracker"
  using tracked.start [of demo_block 7 0] by (simp add: demo_tracker_def demo_block_def)

lemma demo_root [simp]: "pr_root demo_tracker = 0"
  by (simp add: demo_tracker_def new_tracker_def Let_def)

lemma demo_gap [simp]: "\<not> {3<..<8} \<subseteq> {3<..<7 :: nat}"
  by (rule notI, drule subsetD [of _ _ 7]) auto

theorem parent_ready_is_exact_witness:
  "demo_block \<in> set (parents_ready (status_of demo_tracker 7)) \<and>
   demo_block \<notin> set (parents_ready (status_of demo_tracker 8))"
  using parent_ready_is_exact [OF demo_tracked, of 7 demo_block]
    parent_ready_is_exact [OF demo_tracked, of 8 demo_block]
  by (simp add: demo_block_def)

text \<open>
  C22. Every certificate is processed to the end: both loops over the future slots stop, the calls
  return, and they emit one \<open>ParentReady\<close> event for exactly the pairs of a first leader slot and a
  block that the certificate newly makes ready. The only panic is the eighth distinct certified
  block of one slot.
\<close>

theorem certificates_notify_exactly_the_new_parents:
  assumes "tracked N K t"
  shows "(pr_root t < k \<and> k < u64_max \<longrightarrow>
      (\<exists>t' new. add_new_skip k t events = Some (t', events @ new) \<and> tracked N (insert k K) t' \<and>
        set new = window_events N K N (insert k K))) \<and>
    (pr_root t < block_slot b \<and> block_slot b < u64_max \<longrightarrow>
      (if b \<in> N \<or> length (notar_fallbacks (status_of t (block_slot b))) < 7
       then \<exists>t' new. add_new_notar_fallback_or_stronger b t events = Some (t', events @ new) \<and>
         tracked (insert b N) K t' \<and> set new = window_events N K (insert b N) K
       else add_new_notar_fallback_or_stronger b t events = None))"
proof -
  have ex: "exact N K t" using assms by (rule tracked_exact)
  have skip: "\<exists>t' new. add_new_skip k t events = Some (t', events @ new) \<and> tracked N (insert k K) t' \<and>
        set new = window_events N K N (insert k K)" if "pr_root t < k" "k < u64_max"
    using add_new_skip_law [OF ex that] tracked.skip_certified [OF assms that(2)] that
    unfolding advances_def by (metis not_le)
  moreover have "\<exists>t' new. add_new_notar_fallback_or_stronger b t events = Some (t', events @ new) \<and>
      tracked (insert b N) K t' \<and> set new = window_events N K (insert b N) K"
    if "pr_root t < block_slot b" "block_slot b < u64_max"
      "b \<in> N \<or> length (notar_fallbacks (status_of t (block_slot b))) < max_notar_fallback_blocks"
    using add_new_notar_fallback_law [OF ex that] tracked.certified [OF assms that(2)] that
    unfolding advances_def by (metis not_le)
  ultimately show ?thesis
    using add_new_notar_fallback_full [OF ex, of b events]
    by (auto simp: max_notar_fallback_blocks_def simp del: not_None_eq)
qed

theorem certificates_notify_exactly_the_new_parents_witness:
  "\<exists>t' new. add_new_skip 7 demo_tracker [] = Some (t', new) \<and> ParentReady 8 demo_block \<in> set new"
proof -
  let ?W = "window_events {demo_block} {3<..<7} {demo_block} (insert 7 {3<..<7})"
  have "pr_root demo_tracker < 7 \<and> 7 < u64_max" by (simp add: u64_max_def)
  then obtain t' new where "add_new_skip 7 demo_tracker [] = Some (t', [] @ new)" "set new = ?W"
    using certificates_notify_exactly_the_new_parents
      [OF demo_tracked, of 7 "[]" demo_block, THEN conjunct1, THEN mp] by blast
  moreover have "{3<..<8} \<subseteq> insert 7 {3<..<7 :: nat}" by auto
  then have "ParentReady 8 demo_block \<in> ?W"
    by (simp add: window_events_def mem_ready demo_block_def num_consecutive_leader_slots_def)
  ultimately show ?thesis by (intro exI [of _ t'] exI [of _ new]) simp
qed



end
