(* ===== verification/Rank_Map.thy ===== *)
theory Rank_Map
  imports Agave_Prelude "HOL-Library.Product_Lexorder" "HOL-Library.Multiset"
begin

text \<open>
  \<open>crates/runtime/runtime/src/epoch_stakes.rs\<close>: \<open>BLSPubkeyToRankMap\<close>, which gives every staked
  validator of an epoch its rank, the index by which votes and certificates refer to it.

  The vote accounts come from a hash map, whose iteration order is not fixed: they are a list of
  pairs with distinct keys, in any order. The decoding of a BLS key (\<open>solana-bls-signatures\<close>) is the
  parameter \<open>de\<close>: it returns the compressed and the affine form, which are compared as numbers.
\<close>

section \<open>Model\<close>

type_synonym bls_pubkey_compressed = nat
type_synonym bls_pubkey_affine = nat
type_synonym bls_decoder = "u8 list \<Rightarrow> (bls_pubkey_compressed \<times> bls_pubkey_affine) option"

record vote_account =
  account_stake :: u64
  account_node_pubkey :: pubkey
  account_bls_bytes :: "u8 list option"

record bls_pubkey_stake_entry =
  vote_account_pubkey :: pubkey
  node_pubkey :: pubkey
  bls_pubkey :: bls_pubkey_affine
  entry_stake :: u64

type_synonym candidate = "bls_pubkey_stake_entry \<times> bls_pubkey_compressed"

record rank_map =
  rank_of_bls :: "bls_pubkey_compressed \<rightharpoonup> u16"
  vote_pubkey_to_rank :: "pubkey \<rightharpoonup> u16"
  sorted_pubkeys :: "bls_pubkey_stake_entry list"
  rank_total_stake :: u64

definition candidate_of :: "bls_decoder \<Rightarrow> pubkey \<times> vote_account \<Rightarrow> candidate option" where
  "candidate_of de ka =
     (let (key, a) = ka in
      if account_stake a = 0 then None
      else (case account_bls_bytes a of
          None \<Rightarrow> None
        | Some bytes \<Rightarrow> (case de bytes of
              None \<Rightarrow> None
            | Some (compressed, affine) \<Rightarrow> Some
                (\<lparr>vote_account_pubkey = key, node_pubkey = account_node_pubkey a,
                  bls_pubkey = affine, entry_stake = account_stake a\<rparr>, compressed))))"

definition candidates :: "bls_decoder \<Rightarrow> (pubkey \<times> vote_account) list \<Rightarrow> candidate list" where
  "candidates de accounts = List.map_filter (candidate_of de) accounts"

text \<open>\<open>*counts.entry(k).or_insert(0) += 1\<close> for each element.\<close>

definition counts :: "'k list \<Rightarrow> 'k \<Rightarrow> nat" where
  "counts ks = fold (\<lambda>k m. m(k := m k + 1)) ks (\<lambda>_. 0)"

definition unique_candidates :: "candidate list \<Rightarrow> candidate list" where
  "unique_candidates cs =
     filter (\<lambda>(e, c). counts (map snd cs) c = 1 \<and> counts (map (node_pubkey \<circ> fst) cs) (node_pubkey e) = 1) cs"

definition sum_stakes :: "candidate list \<Rightarrow> u64" where
  "sum_stakes cs = fold (\<lambda>(e, _) stake. saturating_add stake (entry_stake e)) cs 0"

text \<open>The comparison of \<open>sort_by\<close>: higher stake first, then the smaller compressed key.\<close>

definition rank_key :: "candidate \<Rightarrow> nat \<times> nat" where
  "rank_key ec = (u64_max - unat (entry_stake (fst ec)), snd ec)"

primrec assign_ranks :: "nat \<Rightarrow> candidate list \<Rightarrow> rank_map \<Rightarrow> rank_map" where
  "assign_ranks rank [] m = m"
| "assign_ranks rank (ec # ecs) m = assign_ranks (rank + 1) ecs
     (m\<lparr>vote_pubkey_to_rank := (vote_pubkey_to_rank m)(vote_account_pubkey (fst ec) \<mapsto> of_nat rank),
        rank_of_bls := (rank_of_bls m)(snd ec \<mapsto> of_nat rank),
        sorted_pubkeys := sorted_pubkeys m @ [fst ec]\<rparr>)"

definition new_rank_map :: "bls_decoder \<Rightarrow> (pubkey \<times> vote_account) list \<Rightarrow> rank_map" where
  "new_rank_map de accounts =
     (let kept = unique_candidates (candidates de accounts)
      in assign_ranks 0 (sort_key rank_key kept)
           \<lparr>rank_of_bls = Map.empty, vote_pubkey_to_rank = Map.empty, sorted_pubkeys = [],
            rank_total_stake = sum_stakes kept\<rparr>)"

definition get_rank :: "rank_map \<Rightarrow> bls_pubkey_compressed \<Rightarrow> u16 option" where
  "get_rank m compressed = rank_of_bls m compressed"

definition get_rank_for_vote_pubkey :: "rank_map \<Rightarrow> pubkey \<Rightarrow> u16 option" where
  "get_rank_for_vote_pubkey m key = vote_pubkey_to_rank m key"

definition get_pubkey_stake_entry :: "rank_map \<Rightarrow> nat \<Rightarrow> bls_pubkey_stake_entry option" where
  "get_pubkey_stake_entry m index =
     (if index < length (sorted_pubkeys m) then Some (sorted_pubkeys m ! index) else None)"

definition rank_map_len :: "rank_map \<Rightarrow> nat" where
  "rank_map_len m = length (sorted_pubkeys m)"


section \<open>Laws\<close>

lemma counts_count: "counts ks k = count (mset ks) k"
proof -
  have "fold (\<lambda>k m. m(k := m k + 1)) ks m0 k = m0 k + count (mset ks) k" for m0
    by (induction ks arbitrary: m0) auto
  then show ?thesis by (simp add: counts_def)
qed

lemma mset_candidates: "mset accounts = mset accounts' \<Longrightarrow> mset (candidates de accounts) = mset (candidates de accounts')"
  by (simp add: candidates_def List.map_filter_def)

lemma mset_unique_candidates: "mset cs = mset cs' \<Longrightarrow> mset (unique_candidates cs) = mset (unique_candidates cs')"
  by (simp add: unique_candidates_def counts_count)

lemma sum_stakes_law: "unat (sum_stakes cs) = min (\<Sum>ec\<leftarrow>cs. unat (entry_stake (fst ec))) u64_max"
proof -
  have "unat (fold (\<lambda>(e, _) stake. saturating_add stake (entry_stake e)) cs s0) =
      min (unat s0 + (\<Sum>ec\<leftarrow>cs. unat (entry_stake (fst ec)))) u64_max" for s0 :: u64
  proof (induction cs arbitrary: s0)
    case Nil
    have "unat s0 \<le> u64_max" using unsigned_less [of s0, where ?'a = nat] by (simp add: u64_max_def)
    then show ?case by simp
  next
    case (Cons ec cs)
    then show ?case
      by (cases ec) (simp add: unat_saturating_add u64_max_def min_def)
  qed
  then show ?thesis by (simp add: sum_stakes_def)
qed

lemma distinct_map_filter_count:
  assumes "\<And>x. x \<in> set (filter P xs) \<Longrightarrow> count (mset (map f xs)) (f x) \<le> 1"
  shows "distinct (map f (filter P xs))"
  using assms
proof (induction xs)
  case (Cons x xs)
  have "distinct (map f (filter P xs))"
  proof (rule Cons.IH)
    fix y assume "y \<in> set (filter P xs)"
    then have "count (mset (map f (x # xs))) (f y) \<le> 1" by (intro Cons.prems) auto
    then show "count (mset (map f xs)) (f y) \<le> 1" by (simp split: if_splits)
  qed
  moreover have "f x \<notin> f ` set xs" if "P x"
    using Cons.prems [of x] that by (auto simp: count_eq_zero_iff)
  ultimately show ?case by auto
qed simp

lemma distinct_unique_candidates:
  "distinct (map snd (unique_candidates cs)) \<and> distinct (map (node_pubkey \<circ> fst) (unique_candidates cs))"
  unfolding unique_candidates_def counts_count by (intro conjI distinct_map_filter_count) auto

lemma mset_sort_key_unique:
  assumes "mset xs = mset ys" and "inj_on f (set xs)"
  shows "sort_key f xs = sort_key f ys"
proof -
  have sorted: "map f (sort_key f zs) = sort (map f zs)" for zs
    by (rule properties_for_sort [symmetric]) simp_all
  have "sort (map f xs) = sort (map f ys)"
    by (rule properties_for_sort) (simp_all add: assms(1))
  then have "map f (sort_key f xs) = map f (sort_key f ys)" by (simp add: sorted)
  moreover have "set xs = set ys" using assms(1) by (rule mset_eq_setD)
  ultimately show ?thesis using assms(2) by (simp add: inj_on_map_eq_map)
qed

lemma rank_key_inj: "inj_on rank_key (set (unique_candidates cs))"
  using conjunct1 [OF distinct_unique_candidates [of cs]]
  by (auto simp: inj_on_def rank_key_def distinct_map)

lemma new_rank_map_perm:
  assumes "mset accounts = mset accounts'"
  shows "new_rank_map de accounts = new_rank_map de accounts'"
proof -
  let ?kept = "\<lambda>as. unique_candidates (candidates de as)"
  have m: "mset (?kept accounts) = mset (?kept accounts')"
    using assms by (intro mset_unique_candidates mset_candidates)
  have "(\<Sum>ec\<leftarrow>cs. unat (entry_stake (fst ec))) = (\<Sum>ec\<in>#mset cs. unat (entry_stake (fst ec)))" for cs :: "candidate list"
    by (simp flip: sum_mset_sum_list)
  then have "sum_stakes (?kept accounts) = sum_stakes (?kept accounts')"
    by (simp add: word_unat_eq_iff sum_stakes_law m)
  moreover have "sort_key rank_key (?kept accounts) = sort_key rank_key (?kept accounts')"
    using m rank_key_inj by (rule mset_sort_key_unique)
  ultimately show ?thesis unfolding new_rank_map_def Let_def by metis
qed

lemma assign_ranks_fields:
  "sorted_pubkeys (assign_ranks r ecs m) = sorted_pubkeys m @ map fst ecs"
  "rank_total_stake (assign_ranks r ecs m) = rank_total_stake m"
  by (induction ecs arbitrary: r m) simp_all

lemma assign_ranks_other:
  "k \<notin> set (map (vote_account_pubkey \<circ> fst) ecs) \<Longrightarrow>
    vote_pubkey_to_rank (assign_ranks r ecs m) k = vote_pubkey_to_rank m k"
  "c \<notin> set (map snd ecs) \<Longrightarrow> rank_of_bls (assign_ranks r ecs m) c = rank_of_bls m c"
  by (induction ecs arbitrary: r m) auto

lemma assign_ranks_at:
  assumes "i < length ecs"
  shows "distinct (map (vote_account_pubkey \<circ> fst) ecs) \<Longrightarrow>
      vote_pubkey_to_rank (assign_ranks r ecs m) (vote_account_pubkey (fst (ecs ! i))) = Some (of_nat (r + i))"
    and "distinct (map snd ecs) \<Longrightarrow> rank_of_bls (assign_ranks r ecs m) (snd (ecs ! i)) = Some (of_nat (r + i))"
  using assms
proof (induction ecs arbitrary: r m i)
  case (Cons ec ecs)
  { case 1 then show ?case
      using Cons.IH(1) [of "i - 1" "r + 1"]
      by (cases i) (auto simp: assign_ranks_other) }
  { case 2 then show ?case
      using Cons.IH(2) [of "i - 1" "r + 1"]
      by (cases i) (auto simp: assign_ranks_other) }
qed simp_all

text \<open>What the clients of a rank map rely on.\<close>

definition rank_map_wf :: "rank_map \<Rightarrow> bool" where
  "rank_map_wf m \<longleftrightarrow> distinct (map vote_account_pubkey (sorted_pubkeys m)) \<and>
     (\<forall>e \<in> set (sorted_pubkeys m). entry_stake e \<noteq> 0) \<and>
     unat (rank_total_stake m) = min (\<Sum>e\<leftarrow>sorted_pubkeys m. unat (entry_stake e)) u64_max"

lemma candidate_of_SomeD:
  "candidate_of de (k, a) = Some (e, c) \<Longrightarrow>
    vote_account_pubkey e = k \<and> entry_stake e = account_stake a \<and> account_stake a \<noteq> 0"
  by (auto simp: candidate_of_def split: if_splits option.splits)

lemma candidates_simps [simp]:
  "candidates de [] = []"
  "candidates de (ka # kas) = (case candidate_of de ka of None \<Rightarrow> [] | Some ec \<Rightarrow> [ec]) @ candidates de kas"
  by (simp_all add: candidates_def List.map_filter_def split: option.split)

lemma mem_candidatesD:
  "ec \<in> set (candidates de accounts) \<Longrightarrow>
    entry_stake (fst ec) \<noteq> 0 \<and> (\<exists>a. (vote_account_pubkey (fst ec), a) \<in> set accounts \<and> account_stake a = entry_stake (fst ec))"
  by (induction accounts) (auto dest!: candidate_of_SomeD [OF sym] split: option.splits)

lemma distinct_candidates:
  "distinct (map fst accounts) \<Longrightarrow> distinct (map (vote_account_pubkey \<circ> fst) (candidates de accounts))"
proof (induction accounts)
  case (Cons ka accounts)
  show ?case
  proof (cases "candidate_of de ka")
    case (Some ec)
    then have "vote_account_pubkey (fst ec) = fst ka" by (cases ka; cases ec) (simp add: candidate_of_SomeD)
    moreover have "fst ka \<notin> (vote_account_pubkey \<circ> fst) ` set (candidates de accounts)"
    proof
      assume "fst ka \<in> (vote_account_pubkey \<circ> fst) ` set (candidates de accounts)"
      then obtain a where "(fst ka, a) \<in> set accounts" using mem_candidatesD by fastforce
      then have "fst ka \<in> fst ` set accounts" by (rule rev_image_eqI) simp
      with Cons.prems show False by simp
    qed
    ultimately show ?thesis using Cons Some by auto
  qed (use Cons in simp)
qed simp

lemma new_rank_map_fields:
  "sorted_pubkeys (new_rank_map de accounts) = map fst (sort_key rank_key (unique_candidates (candidates de accounts)))"
  "rank_total_stake (new_rank_map de accounts) = sum_stakes (unique_candidates (candidates de accounts))"
  by (simp_all add: new_rank_map_def Let_def assign_ranks_fields)

lemma new_rank_map_wf:
  assumes "distinct (map fst accounts)"
  shows "rank_map_wf (new_rank_map de accounts)"
proof -
  let ?kept = "unique_candidates (candidates de accounts)"
  have "distinct (map (vote_account_pubkey \<circ> fst) ?kept)"
    using distinct_candidates [OF assms] unfolding unique_candidates_def by (rule distinct_map_filter)
  then have "distinct (map vote_account_pubkey (map fst (sort_key rank_key ?kept)))"
    by (simp add: distinct_map comp_def)
  moreover have "set ?kept \<subseteq> set (candidates de accounts)" by (auto simp: unique_candidates_def)
  then have "\<forall>e \<in> set (map fst (sort_key rank_key ?kept)). entry_stake e \<noteq> 0"
    using mem_candidatesD by fastforce
  moreover have "(\<Sum>e\<leftarrow>map fst (sort_key rank_key ?kept). unat (entry_stake e)) = (\<Sum>ec\<leftarrow>?kept. unat (entry_stake (fst ec)))"
    by (simp add: comp_def flip: sum_mset_sum_list)
  ultimately show ?thesis
    unfolding rank_map_wf_def new_rank_map_fields sum_stakes_law by simp
qed

lemma rank_of_vote_pubkey:
  assumes "distinct (map fst accounts)" and "m = new_rank_map de accounts" and "rank_map_len m \<le> 2 ^ 16"
  shows "get_rank_for_vote_pubkey m k = Some r \<longleftrightarrow>
    unat r < rank_map_len m \<and> vote_account_pubkey (sorted_pubkeys m ! unat r) = k"
proof -
  let ?ecs = "sort_key rank_key (unique_candidates (candidates de accounts))"
  let ?keys = "map (vote_account_pubkey \<circ> fst) ?ecs"
  have sorted: "sorted_pubkeys m = map fst ?ecs" by (simp add: assms(2) new_rank_map_fields)
  have dist: "distinct ?keys"
    using new_rank_map_wf [OF assms(1), of de] by (simp add: rank_map_wf_def new_rank_map_fields comp_def)
  have len: "length ?ecs \<le> 2 ^ 16" using assms(3) by (simp add: rank_map_len_def sorted)
  have at: "get_rank_for_vote_pubkey m (?keys ! i) = Some (of_nat i)" if "i < length ?ecs" for i
    using assign_ranks_at(1) [OF that dist] that
    by (simp add: assms(2) get_rank_for_vote_pubkey_def new_rank_map_def Let_def)
  have none: "get_rank_for_vote_pubkey m k = None" if "k \<notin> set ?keys"
    using assign_ranks_other(1) [OF that] by (simp add: assms(2) get_rank_for_vote_pubkey_def new_rank_map_def Let_def)
  have idx: "unat (of_nat i :: u16) = i" if "i < length ?ecs" for i
    using that len by (simp add: unsigned_of_nat take_bit_nat_eq_self)
  show ?thesis
  proof
    assume r: "get_rank_for_vote_pubkey m k = Some r"
    then have "k \<in> set ?keys" using none by fastforce
    then obtain i where i: "i < length ?ecs" "?keys ! i = k"
      by (metis in_set_conv_nth length_map)
    then have "r = of_nat i" using at [of i] r by simp
    with i idx [of i] show "unat r < rank_map_len m \<and> vote_account_pubkey (sorted_pubkeys m ! unat r) = k"
      by (simp add: rank_map_len_def sorted)
  next
    assume "unat r < rank_map_len m \<and> vote_account_pubkey (sorted_pubkeys m ! unat r) = k"
    then have "unat r < length ?ecs" "?keys ! unat r = k" by (auto simp: rank_map_len_def sorted)
    then show "get_rank_for_vote_pubkey m k = Some r" using at [of "unat r"] by simp
  qed
qed


section \<open>Properties\<close>

text \<open>
  C18. Every validator computes the same ranks: the rank map does not depend on the order in which
  the hash map of vote accounts is iterated.
\<close>

theorem rank_map_is_order_independent:
  assumes "mset accounts = mset accounts'"
  shows "new_rank_map de accounts = new_rank_map de accounts'"
  using assms by (rule new_rank_map_perm)

definition demo_accounts :: "(pubkey \<times> vote_account) list" where
  "demo_accounts =
     [(1, \<lparr>account_stake = 10, account_node_pubkey = 11, account_bls_bytes = Some [1]\<rparr>),
      (2, \<lparr>account_stake = 20, account_node_pubkey = 12, account_bls_bytes = Some [2]\<rparr>),
      (3, \<lparr>account_stake = 0, account_node_pubkey = 13, account_bls_bytes = Some [3]\<rparr>)]"

definition demo_bls :: bls_decoder where
  "demo_bls bytes = (case bytes of [b] \<Rightarrow> Some (unat b, unat b) | _ \<Rightarrow> None)"

theorem rank_map_is_order_independent_witness:
  "new_rank_map demo_bls demo_accounts = new_rank_map demo_bls (rev demo_accounts) \<and>
   demo_accounts \<noteq> rev demo_accounts"
  using rank_map_is_order_independent [of demo_accounts "rev demo_accounts" demo_bls]
  by (simp add: demo_accounts_def)



end
