(* ===== verification/Vote_Pool.thy ===== *)
theory Vote_Pool
  imports Votor_Types Rank_Map
begin

text \<open>
  \<open>crates/consensus/votor/src/consensus_pool/vote_pool.rs\<close>: the two kinds of vote pools, which
  collect the votes of one type for one slot and keep the stake behind them.

  The contract of both is that of a tally: it never counts a validator twice for the same choice,
  and the stake it reports is the exact sum over the validators counted. It is stated once and
  proved for both pools; the certificates of the consensus pool rest on it.
\<close>

section \<open>Model\<close>

record simple_vote_pool =
  simple_votes :: "vote_message list"
  simple_total_stake :: stake
  prev_voted_validators :: "pubkey set"

definition default_simple_vote_pool :: simple_vote_pool where
  "default_simple_vote_pool = \<lparr>simple_votes = [], simple_total_stake = 0, prev_voted_validators = {}\<rparr>"

definition simple_add_vote ::
    "pubkey \<Rightarrow> stake \<Rightarrow> vote_message \<Rightarrow> simple_vote_pool \<Rightarrow> stake option \<times> simple_vote_pool" where
  "simple_add_vote key stake vote p =
     (if key \<in> prev_voted_validators p then (None, p)
      else let total = saturating_add (simple_total_stake p) stake in
        (Some total,
         p\<lparr>prev_voted_validators := insert key (prev_voted_validators p),
           simple_votes := simple_votes p @ [vote], simple_total_stake := total\<rparr>))"

definition simple_has_prev_validator_vote :: "pubkey \<Rightarrow> simple_vote_pool \<Rightarrow> bool" where
  "simple_has_prev_validator_vote key p \<longleftrightarrow> key \<in> prev_voted_validators p"

record vote_entry =
  entry_votes :: "vote_message list"
  total_stake_by_key :: stake

definition default_vote_entry :: vote_entry where
  "default_vote_entry = \<lparr>entry_votes = [], total_stake_by_key = 0\<rparr>"

record duplicate_block_vote_pool =
  max_entries_per_pubkey :: nat
  vote_entries :: "hash \<rightharpoonup> vote_entry"
  prev_voted_block_ids :: "pubkey \<rightharpoonup> hash set"

definition new_duplicate_pool :: "nat \<Rightarrow> duplicate_block_vote_pool" where
  "new_duplicate_pool n = \<lparr>max_entries_per_pubkey = n, vote_entries = Map.empty, prev_voted_block_ids = Map.empty\<rparr>"

text \<open>The first component is \<^term>\<open>None\<close> for the panic on a vote without a block id.\<close>

definition duplicate_add_vote ::
    "pubkey \<Rightarrow> stake \<Rightarrow> vote_message \<Rightarrow> duplicate_block_vote_pool \<Rightarrow>
     (stake option \<times> duplicate_block_vote_pool) option" where
  "duplicate_add_vote key stake vote p = do {
     block_id \<leftarrow> vote_block_id (msg_vote vote);
     let prev = (case prev_voted_block_ids p key of None \<Rightarrow> {} | Some s \<Rightarrow> s);
     if block_id \<in> prev \<or> card prev \<ge> max_entries_per_pubkey p
     then Some (None, p\<lparr>prev_voted_block_ids := (prev_voted_block_ids p)(key \<mapsto> prev)\<rparr>)
     else
       let entry = (case vote_entries p block_id of None \<Rightarrow> default_vote_entry | Some e \<Rightarrow> e);
           total = saturating_add (total_stake_by_key entry) stake
       in Some (Some total,
            p\<lparr>prev_voted_block_ids := (prev_voted_block_ids p)(key \<mapsto> insert block_id prev),
              vote_entries := (vote_entries p)(block_id \<mapsto>
                \<lparr>entry_votes = entry_votes entry @ [vote], total_stake_by_key = total\<rparr>)\<rparr>)
   }"

definition total_stake_by_block_id :: "hash \<Rightarrow> duplicate_block_vote_pool \<Rightarrow> stake" where
  "total_stake_by_block_id h p = (case vote_entries p h of None \<Rightarrow> 0 | Some e \<Rightarrow> total_stake_by_key e)"

definition duplicate_votes :: "hash \<Rightarrow> duplicate_block_vote_pool \<Rightarrow> vote_message list option" where
  "duplicate_votes h p = map_option entry_votes (vote_entries p h)"

definition has_prev_validator_vote_for_block :: "pubkey \<Rightarrow> hash \<Rightarrow> duplicate_block_vote_pool \<Rightarrow> bool" where
  "has_prev_validator_vote_for_block key h p \<longleftrightarrow>
     (case prev_voted_block_ids p key of None \<Rightarrow> False | Some vs \<Rightarrow> h \<in> vs)"

definition duplicate_has_prev_validator_vote :: "pubkey \<Rightarrow> duplicate_block_vote_pool \<Rightarrow> bool" where
  "duplicate_has_prev_validator_vote key p \<longleftrightarrow> prev_voted_block_ids p key \<noteq> None"

datatype vote_pool = SimpleVotePool simple_vote_pool | DuplicateBlockVotePool duplicate_block_vote_pool


section \<open>Stake of a set of validators\<close>

text \<open>
  \<open>stake_of m k\<close> is the stake of the validator with vote account \<open>k\<close>; \<open>stake_sum m K\<close> that of a set of
  validators. A set never has more than the total stake of the rank map, and disjoint sets have
  no more together: this is the whole arithmetic of quorums.
\<close>

definition voters :: "rank_map \<Rightarrow> pubkey set" where
  "voters m = vote_account_pubkey ` set (sorted_pubkeys m)"

definition stake_of :: "rank_map \<Rightarrow> pubkey \<Rightarrow> nat" where
  "stake_of m k = (\<Sum>e\<leftarrow>filter (\<lambda>e. vote_account_pubkey e = k) (sorted_pubkeys m). unat (entry_stake e))"

definition stake_sum :: "rank_map \<Rightarrow> pubkey set \<Rightarrow> nat" where
  "stake_sum m K = sum (stake_of m) K"

text \<open>The stakes of an epoch are lamports, of which there are fewer than \<open>2\<^sup>6\<^sup>4\<close>.\<close>

definition exact_rank_map :: "rank_map \<Rightarrow> bool" where
  "exact_rank_map m \<longleftrightarrow> rank_map_wf m \<and> (\<Sum>e\<leftarrow>sorted_pubkeys m. unat (entry_stake e)) \<le> u64_max"

lemma finite_voters [simp]: "finite (voters m)"
  by (simp add: voters_def)

lemma filter_distinct_key:
  "distinct (map f xs) \<Longrightarrow> x \<in> set xs \<Longrightarrow> filter (\<lambda>y. f y = f x) xs = [x]"
proof (induction xs)
  case (Cons a xs)
  show ?case
  proof (cases "x = a")
    case True
    have "filter (\<lambda>y. f y = f a) xs = []" using Cons.prems by (auto simp: filter_empty_conv image_iff)
    with True show ?thesis by simp
  next
    case False
    then have "f a \<noteq> f x" using Cons.prems by (auto simp: image_iff)
    with False Cons show ?thesis by simp
  qed
qed simp

lemma stake_of_entry:
  assumes "rank_map_wf m" and "e \<in> set (sorted_pubkeys m)"
  shows "stake_of m (vote_account_pubkey e) = unat (entry_stake e)"
  using filter_distinct_key [of vote_account_pubkey "sorted_pubkeys m" e] assms
  by (simp add: stake_of_def rank_map_wf_def)

lemma exact_total:
  assumes "exact_rank_map m"
  shows "unat (rank_total_stake m) = stake_sum m (voters m)"
proof -
  have wf: "rank_map_wf m" using assms by (simp add: exact_rank_map_def)
  then have dist: "distinct (map vote_account_pubkey (sorted_pubkeys m))" by (simp add: rank_map_wf_def)
  have "unat (rank_total_stake m) = (\<Sum>e\<leftarrow>sorted_pubkeys m. unat (entry_stake e))"
    using assms by (simp add: exact_rank_map_def rank_map_wf_def)
  also have "\<dots> = (\<Sum>e\<in>set (sorted_pubkeys m). unat (entry_stake e))"
    using dist by (simp add: sum_list_distinct_conv_sum_set distinct_map)
  also have "\<dots> = (\<Sum>e\<in>set (sorted_pubkeys m). stake_of m (vote_account_pubkey e))"
    by (simp add: stake_of_entry [OF wf])
  also have "\<dots> = stake_sum m (voters m)"
    using dist by (simp add: stake_sum_def voters_def sum.reindex distinct_map)
  finally show ?thesis .
qed

lemma stake_of_none: "k \<notin> voters m \<Longrightarrow> stake_of m k = 0"
  by (auto simp: stake_of_def voters_def image_iff)

lemma stake_sum_le_total:
  assumes "exact_rank_map m" and "finite K"
  shows "stake_sum m K \<le> unat (rank_total_stake m)"
proof -
  have "stake_sum m K = sum (stake_of m) (K \<inter> voters m)"
    unfolding stake_sum_def by (rule sum.mono_neutral_right) (use assms(2) in \<open>auto simp: stake_of_none\<close>)
  also have "\<dots> \<le> stake_sum m (voters m)"
    unfolding stake_sum_def by (rule sum_mono2) simp_all
  finally show ?thesis by (simp add: exact_total [OF assms(1)])
qed

lemma stake_sum_Un: "finite A \<Longrightarrow> finite B \<Longrightarrow> A \<inter> B = {} \<Longrightarrow> stake_sum m (A \<union> B) = stake_sum m A + stake_sum m B"
  by (simp add: stake_sum_def sum.union_disjoint)

lemma stake_sum_insert: "finite K \<Longrightarrow> k \<notin> K \<Longrightarrow> stake_sum m (insert k K) = stake_of m k + stake_sum m K"
  by (simp add: stake_sum_def)

lemma stake_sum_mono: "finite B \<Longrightarrow> A \<subseteq> B \<Longrightarrow> stake_sum m A \<le> stake_sum m B"
  unfolding stake_sum_def by (rule sum_mono2) simp_all

lemma stake_sum_empty [simp]: "stake_sum m {} = 0"
  by (simp add: stake_sum_def)


section \<open>Tallies\<close>

definition voter :: "rank_map \<Rightarrow> vote_message \<Rightarrow> pubkey" where
  "voter m msg = vote_account_pubkey (sorted_pubkeys m ! unat (msg_rank msg))"

text \<open>
  \<open>tallied m msgs tot K\<close>: the messages come from the distinct validators \<open>K\<close> and \<open>tot\<close> is their
  stake.
\<close>

definition tallied :: "rank_map \<Rightarrow> vote_message list \<Rightarrow> stake \<Rightarrow> pubkey set \<Rightarrow> bool" where
  "tallied m msgs tot K \<longleftrightarrow>
     (\<forall>msg \<in> set msgs. unat (msg_rank msg) < rank_map_len m) \<and>
     distinct (map (voter m) msgs) \<and> voter m ` set msgs = K \<and> unat tot = stake_sum m K"

lemma tallied_empty: "tallied m [] 0 {}"
  by (simp add: tallied_def)

lemma tallied_finite: "tallied m msgs tot K \<Longrightarrow> finite K"
  by (auto simp: tallied_def)

lemma tallied_push:
  assumes "exact_rank_map m" and "tallied m msgs tot K"
    and "get_pubkey_stake_entry m (unat (msg_rank msg)) = Some e" and "vote_account_pubkey e \<notin> K"
  shows "tallied m (msgs @ [msg]) (saturating_add tot (entry_stake e)) (insert (vote_account_pubkey e) K)"
proof -
  have r: "unat (msg_rank msg) < rank_map_len m" and e: "sorted_pubkeys m ! unat (msg_rank msg) = e"
    using assms(3) by (auto simp: get_pubkey_stake_entry_def rank_map_len_def split: if_splits)
  have "e \<in> set (sorted_pubkeys m)" using r e by (auto simp: rank_map_len_def)
  then have stake: "stake_of m (vote_account_pubkey e) = unat (entry_stake e)"
    using assms(1) by (simp add: stake_of_entry exact_rank_map_def)
  have fin: "finite K" using assms(2) by (rule tallied_finite)
  have sum: "stake_sum m (insert (vote_account_pubkey e) K) = unat tot + unat (entry_stake e)"
    using stake_sum_insert [OF fin assms(4), of m] assms(2) stake by (simp add: tallied_def)
  then have "unat tot + unat (entry_stake e) \<le> unat (rank_total_stake m)"
    using stake_sum_le_total [OF assms(1), of "insert (vote_account_pubkey e) K"] fin by simp
  also have "\<dots> < 2 ^ 64" using unsigned_less [of "rank_total_stake m", where ?'a = nat] by simp
  finally have "unat (saturating_add tot (entry_stake e)) = unat tot + unat (entry_stake e)"
    by (simp add: unat_saturating_add)
  moreover have "voter m msg = vote_account_pubkey e" by (simp add: voter_def e)
  ultimately show ?thesis using assms(2,4) r sum by (auto simp: tallied_def)
qed


section \<open>Both pools are tallies\<close>

text \<open>
  The contract the consensus pool relies on. \<open>counted p c\<close> are the validators counted for choice \<open>c\<close>,
  \<open>reported p c\<close> the stake and \<open>collected p c\<close> the messages; \<open>admits k c p\<close> is the condition for a new
  vote.
\<close>

locale tally =
  fixes counted :: "'p \<Rightarrow> 'c \<Rightarrow> pubkey set"
    and reported :: "'p \<Rightarrow> 'c \<Rightarrow> stake"
    and collected :: "'p \<Rightarrow> 'c \<Rightarrow> vote_message list"
    and choice :: "vote_message \<Rightarrow> 'c"
    and add :: "pubkey \<Rightarrow> stake \<Rightarrow> vote_message \<Rightarrow> 'p \<Rightarrow> stake option \<times> 'p"
  assumes refused: "add k s msg p = (None, p') \<Longrightarrow>
      counted p' c = counted p c \<and> reported p' c = reported p c \<and> collected p' c = collected p c"
    and accepted: "add k s msg p = (Some r, p') \<Longrightarrow>
      k \<notin> counted p (choice msg) \<and> r = reported p' (choice msg) \<and>
      counted p' c = (if c = choice msg then insert k (counted p c) else counted p c) \<and>
      reported p' c = (if c = choice msg then saturating_add (reported p c) s else reported p c) \<and>
      collected p' c = (if c = choice msg then collected p c @ [msg] else collected p c)"
begin

definition exact_tally :: "rank_map \<Rightarrow> 'p \<Rightarrow> bool" where
  "exact_tally m p \<longleftrightarrow> (\<forall>c. tallied m (collected p c) (reported p c) (counted p c))"

lemma exact_tally_add:
  assumes "exact_rank_map m" and "exact_tally m p"
    and "get_pubkey_stake_entry m (unat (msg_rank msg)) = Some e"
    and "add (vote_account_pubkey e) (entry_stake e) msg p = (r, p')"
  shows "exact_tally m p' \<and> (\<forall>s. r = Some s \<longrightarrow> unat s = stake_sum m (counted p' (choice msg)))"
proof (cases r)
  case None
  then show ?thesis using assms(2,4) refused by (simp add: exact_tally_def)
next
  case (Some s)
  note acc = accepted [OF assms(4) [unfolded Some]]
  have tal: "tallied m (collected p c) (reported p c) (counted p c)" for c using assms(2) by (simp add: exact_tally_def)
  have "tallied m (collected p' c) (reported p' c) (counted p' c)" for c
    using tallied_push [OF assms(1) tal assms(3)] acc [of c] tal [of c] by (cases "c = choice msg") auto
  note tal' = this
  have "s = reported p' (choice msg)" using acc by blast
  then have "unat s = stake_sum m (counted p' (choice msg))" using tal' [of "choice msg"] unfolding tallied_def by blast
  then show ?thesis using Some tal' by (simp add: exact_tally_def)
qed

lemma counted_grows: "add k s msg p = (r, p') \<Longrightarrow> counted p c \<subseteq> counted p' c"
  using refused accepted by (cases r) (auto split: if_splits)

end

definition simple_counted :: "simple_vote_pool \<Rightarrow> unit \<Rightarrow> pubkey set" where
  "simple_counted p _ = prev_voted_validators p"

definition duplicate_counted :: "duplicate_block_vote_pool \<Rightarrow> hash \<Rightarrow> pubkey set" where
  "duplicate_counted p h = {k. has_prev_validator_vote_for_block k h p}"

definition duplicate_collected :: "duplicate_block_vote_pool \<Rightarrow> hash \<Rightarrow> vote_message list" where
  "duplicate_collected p h = (case duplicate_votes h p of None \<Rightarrow> [] | Some vs \<Rightarrow> vs)"

text \<open>The block of a vote; the votes a duplicate-block pool gets have one.\<close>

definition voted_block :: "vote_message \<Rightarrow> hash" where
  "voted_block msg = (case vote_block_id (msg_vote msg) of None \<Rightarrow> 0 | Some h \<Rightarrow> h)"

definition duplicate_add ::
    "pubkey \<Rightarrow> stake \<Rightarrow> vote_message \<Rightarrow> duplicate_block_vote_pool \<Rightarrow> stake option \<times> duplicate_block_vote_pool" where
  "duplicate_add k s msg p = (case duplicate_add_vote k s msg p of None \<Rightarrow> (None, p) | Some r \<Rightarrow> r)"

interpretation st: tally simple_counted "\<lambda>p _. simple_total_stake p" "\<lambda>p _. simple_votes p" "\<lambda>_. ()" simple_add_vote
  by unfold_locales
    (auto simp: simple_add_vote_def simple_counted_def Let_def split: if_splits)

lemma duplicate_add_refused:
  assumes "duplicate_add k s msg p = (None, p')"
  shows "vote_entries p' = vote_entries p \<and>
    has_prev_validator_vote_for_block k' h p' = has_prev_validator_vote_for_block k' h p"
  using assms
  by (cases "vote_block_id (msg_vote msg)"; cases "prev_voted_block_ids p k")
    (auto simp: duplicate_add_def duplicate_add_vote_def has_prev_validator_vote_for_block_def Let_def split: if_splits)

lemma duplicate_add_accepted:
  assumes "duplicate_add k s msg p = (Some r, p')"
  shows "vote_block_id (msg_vote msg) = Some (voted_block msg)"
    and "\<not> has_prev_validator_vote_for_block k (voted_block msg) p"
    and "has_prev_validator_vote_for_block k' h p' \<longleftrightarrow>
      has_prev_validator_vote_for_block k' h p \<or> k' = k \<and> h = voted_block msg"
    and "r = saturating_add (total_stake_by_block_id (voted_block msg) p) s"
    and "vote_entries p' = (vote_entries p)(voted_block msg \<mapsto>
      \<lparr>entry_votes = duplicate_collected p (voted_block msg) @ [msg], total_stake_by_key = r\<rparr>)"
  using assms
  by (cases "vote_block_id (msg_vote msg)"; cases "prev_voted_block_ids p k";
      cases "vote_entries p (voted_block msg)";
      auto simp: duplicate_add_def duplicate_add_vote_def has_prev_validator_vote_for_block_def voted_block_def
        total_stake_by_block_id_def duplicate_collected_def duplicate_votes_def default_vote_entry_def Let_def
        split: if_splits)+

interpretation dt: tally duplicate_counted "\<lambda>p h. total_stake_by_block_id h p" duplicate_collected voted_block duplicate_add
proof
  fix k s msg p p' c
  assume "duplicate_add k s msg p = (None, p')"
  note dup = duplicate_add_refused [OF this]
  then show "duplicate_counted p' c = duplicate_counted p c \<and>
      total_stake_by_block_id c p' = total_stake_by_block_id c p \<and> duplicate_collected p' c = duplicate_collected p c"
    by (simp add: duplicate_counted_def total_stake_by_block_id_def duplicate_collected_def duplicate_votes_def)
next
  fix k s msg p r p' c
  assume "duplicate_add k s msg p = (Some r, p')"
  note dup = duplicate_add_accepted [OF this]
  show "k \<notin> duplicate_counted p (voted_block msg) \<and> r = total_stake_by_block_id (voted_block msg) p' \<and>
      duplicate_counted p' c = (if c = voted_block msg then insert k (duplicate_counted p c) else duplicate_counted p c) \<and>
      total_stake_by_block_id c p' = (if c = voted_block msg then saturating_add (total_stake_by_block_id c p) s
        else total_stake_by_block_id c p) \<and>
      duplicate_collected p' c = (if c = voted_block msg then duplicate_collected p c @ [msg] else duplicate_collected p c)"
    using dup(2,4) by (auto simp: duplicate_counted_def dup(3,5) total_stake_by_block_id_def duplicate_collected_def duplicate_votes_def)
qed


section \<open>How often one validator is counted\<close>

definition choices :: "duplicate_block_vote_pool \<Rightarrow> pubkey \<Rightarrow> hash set" where
  "choices p k = {h. has_prev_validator_vote_for_block k h p}"

definition within_entries :: "duplicate_block_vote_pool \<Rightarrow> bool" where
  "within_entries p \<longleftrightarrow> 1 \<le> max_entries_per_pubkey p \<and>
     (\<forall>k S. prev_voted_block_ids p k = Some S \<longrightarrow> S \<noteq> {} \<and> finite S \<and> card S \<le> max_entries_per_pubkey p)"

lemma within_entries_new: "1 \<le> n \<Longrightarrow> within_entries (new_duplicate_pool n)"
  by (simp add: within_entries_def new_duplicate_pool_def)

lemma within_entries_add:
  assumes "within_entries p" and "duplicate_add_vote k s msg p = Some (r, p')"
  shows "within_entries p' \<and> max_entries_per_pubkey p' = max_entries_per_pubkey p"
proof -
  obtain h where h: "vote_block_id (msg_vote msg) = Some h"
    using assms(2) by (cases "vote_block_id (msg_vote msg)") (simp_all add: duplicate_add_vote_def)
  have old: "S \<noteq> {} \<and> finite S \<and> card S \<le> max_entries_per_pubkey p" if "prev_voted_block_ids p k' = Some S" for k' S
    using assms(1) that by (simp add: within_entries_def)
  then show ?thesis
    using assms h
    by (cases "prev_voted_block_ids p k")
      (auto simp: within_entries_def duplicate_add_vote_def Let_def card_insert_if split: if_splits dest: old)
qed

lemma choices_eq: "choices p k = (case prev_voted_block_ids p k of None \<Rightarrow> {} | Some S \<Rightarrow> S)"
  by (auto simp: choices_def has_prev_validator_vote_for_block_def split: option.split)

lemma within_entriesD:
  assumes "within_entries p"
  shows "finite (choices p k) \<and> card (choices p k) \<le> max_entries_per_pubkey p \<and>
    (duplicate_has_prev_validator_vote k p \<longleftrightarrow> choices p k \<noteq> {})"
  using assms by (auto simp: within_entries_def choices_eq duplicate_has_prev_validator_vote_def split: option.split)

lemma duplicate_add_eq:
  "vote_block_id (msg_vote msg) = Some h \<Longrightarrow> duplicate_add_vote k s msg p = Some (duplicate_add k s msg p)"
  by (simp add: duplicate_add_def duplicate_add_vote_def Let_def)

end
