(* ===== verification/Stake_Counters.thy ===== *)
theory Stake_Counters
  imports Votor_Types
begin

text \<open>
  \<open>crates/consensus/votor/src/consensus_pool/slot_stake_counters.rs\<close>: the stake that voted to skip a
  slot and to notarize each of its blocks, from which the fallback conditions \<open>SafeToNotar\<close> and
  \<open>SafeToSkip\<close> are derived. The statistics counters are not modelled.
\<close>

section \<open>Model\<close>

record slot_stake_counters =
  my_first_vote :: "vote option"
  counters_total_stake :: stake
  skip_total :: stake
  notarize_total :: stake
  notarize_entry_total :: "(hash, stake) btree"
  top_notarized_stake :: stake
  safe_to_notar_sent :: "hash list"
  safe_to_skip_sent :: bool

definition new_slot_stake_counters :: "stake \<Rightarrow> slot_stake_counters" where
  "new_slot_stake_counters total_stake =
     \<lparr>my_first_vote = None, counters_total_stake = total_stake, skip_total = 0, notarize_total = 0,
      notarize_entry_total = [], top_notarized_stake = 0, safe_to_notar_sent = [], safe_to_skip_sent = False\<rparr>"

definition is_safe_to_notar :: "slot_stake_counters \<Rightarrow> hash \<Rightarrow> stake \<Rightarrow> bool option" where
  "is_safe_to_notar c block_id stake =
     (if (case my_first_vote c of Some (Notarize b) \<Rightarrow> block_hash b = block_id | _ \<Rightarrow> False) then Some False
      else do {
        plus \<leftarrow> checked_add (skip_total c) stake;
        let notarized_ratio = \<lparr>numerator = stake, denominator = counters_total_stake c\<rparr>;
        let notarized_plus_skip_ratio = \<lparr>numerator = plus, denominator = counters_total_stake c\<rparr>;
        Some (fraction_ge notarized_ratio safe_to_notar_min_notarize_only \<or>
          fraction_ge notarized_ratio safe_to_notar_min_notarize_for_notarize_or_skip \<and>
          fraction_ge notarized_plus_skip_ratio safe_to_notar_min_notarize_and_skip)
      })"

definition is_safe_to_skip :: "slot_stake_counters \<Rightarrow> bool" where
  "is_safe_to_skip c \<longleftrightarrow>
     (case my_first_vote c of
        Some (Notarize _) \<Rightarrow>
          fraction_ge
            \<lparr>numerator = saturating_add (skip_total c)
               (saturating_sub (notarize_total c) (top_notarized_stake c)),
             denominator = counters_total_stake c\<rparr> safe_to_skip_threshold
      | _ \<Rightarrow> False)"

text \<open>The body of the loop over \<open>notarize_entry_total\<close>, on the fields it changes.\<close>

definition check_entry ::
    "slot_stake_counters \<Rightarrow> slot \<Rightarrow> hash \<times> stake \<Rightarrow> hash list \<times> votor_event list \<times> block list \<Rightarrow>
     (hash list \<times> votor_event list \<times> block list) option" where
  "check_entry c slot e st =
     (let (sent, events, pending) = st; (block_id, stake) = e;
          is_first_in_leader_window = (slot mod num_consecutive_leader_slots = 0 \<or> slot = 1)
      in if block_id \<in> set sent then Some st
         else do {
           safe \<leftarrow> is_safe_to_notar c block_id stake;
           Some (if safe
             then (sent @ [block_id],
               if is_first_in_leader_window then events @ [SafeToNotar (Block slot block_id)] else events,
               if is_first_in_leader_window then pending else pending @ [Block slot block_id])
             else st)
         })"

definition record_stake :: "vote \<Rightarrow> stake \<Rightarrow> slot_stake_counters \<Rightarrow> slot_stake_counters option" where
  "record_stake vote entry_stake c =
     (case vote of
        Skip _ \<Rightarrow> Some (c\<lparr>skip_total := entry_stake\<rparr>)
      | Notarize b \<Rightarrow>
          let old = (case bt_get (notarize_entry_total c) (block_hash b) of None \<Rightarrow> 0 | Some s \<Rightarrow> s)
          in Some (c\<lparr>notarize_entry_total := bt_insert (block_hash b) entry_stake (notarize_entry_total c),
               notarize_total := saturating_add (saturating_sub (notarize_total c) old) entry_stake,
               top_notarized_stake := max (top_notarized_stake c) entry_stake\<rparr>)
      | _ \<Rightarrow> None)"

definition counters_add_vote ::
    "vote \<Rightarrow> stake \<Rightarrow> bool \<Rightarrow> votor_event list \<Rightarrow> block list \<Rightarrow> slot_stake_counters \<Rightarrow>
     (slot_stake_counters \<times> votor_event list \<times> block list) option" where
  "counters_add_vote vote entry_stake is_my_own_vote events pending c =
     (case record_stake vote entry_stake c of
        None \<Rightarrow> Some (c, events, pending)
      | Some c1 \<Rightarrow>
          let c2 = (if my_first_vote c1 = None \<and> is_my_own_vote then c1\<lparr>my_first_vote := Some vote\<rparr> else c1)
          in if my_first_vote c2 = None then Some (c2, events, pending)
             else do {
               (sent, events', pending') \<leftarrow>
                 foldM (check_entry c2 (vote_slot vote)) (notarize_entry_total c2) (safe_to_notar_sent c2, events, pending);
               let c3 = c2\<lparr>safe_to_notar_sent := sent\<rparr>;
               Some (if \<not> safe_to_skip_sent c3 \<and> is_safe_to_skip c3
                 then (c3\<lparr>safe_to_skip_sent := True\<rparr>, events' @ [SafeToSkip (vote_slot vote)], pending')
                 else (c3, events', pending'))
             })"


section \<open>The conditions of the protocol\<close>

text \<open>
  With \<open>T\<close> the total stake, \<open>S\<close> the stake that voted skip, \<open>N h\<close> the stake that voted to notarize the
  block \<open>h\<close> and \<open>own\<close> the first vote of this node.
\<close>

definition notar_condition :: "nat \<Rightarrow> nat \<Rightarrow> (hash \<Rightarrow> nat) \<Rightarrow> vote option \<Rightarrow> hash \<Rightarrow> bool" where
  "notar_condition T S N own h \<longleftrightarrow>
     (case own of None \<Rightarrow> False | Some (Notarize b) \<Rightarrow> block_hash b \<noteq> h | Some _ \<Rightarrow> True) \<and>
     (40 * T \<le> 100 * N h \<or> 20 * T \<le> 100 * N h \<and> 60 * T \<le> 100 * (S + N h))"

definition support :: "(hash \<Rightarrow> nat) \<Rightarrow> hash set" where
  "support N = {h. N h \<noteq> 0}"

definition others :: "(hash \<Rightarrow> nat) \<Rightarrow> nat" where
  "others N = sum N (support N) - Max (insert 0 (N ` support N))"

definition skip_condition :: "nat \<Rightarrow> nat \<Rightarrow> (hash \<Rightarrow> nat) \<Rightarrow> vote option \<Rightarrow> bool" where
  "skip_condition T S N own \<longleftrightarrow>
     (case own of Some (Notarize _) \<Rightarrow> 40 * T \<le> 100 * (S + others N) | _ \<Rightarrow> False)"

definition counters_rep :: "nat \<Rightarrow> nat \<Rightarrow> (hash \<Rightarrow> nat) \<Rightarrow> slot_stake_counters \<Rightarrow> bool" where
  "counters_rep T S N c \<longleftrightarrow> unat (counters_total_stake c) = T \<and> unat (skip_total c) = S \<and>
     bt_wf (notarize_entry_total c) \<and> finite (support N) \<and>
     (\<forall>h. case bt_get (notarize_entry_total c) h of None \<Rightarrow> N h = 0 | Some s \<Rightarrow> N h = unat s) \<and>
     unat (notarize_total c) = sum N (support N) \<and>
     unat (top_notarized_stake c) = Max (insert 0 (N ` support N)) \<and>
     S + sum N (support N) \<le> T \<and> T < 2 ^ 64"

lemmas thresholds =
  fraction_ge_percentage [of 40, simplified] fraction_ge_percentage [of 20, simplified]
  fraction_ge_percentage [of 60, simplified]
  safe_to_notar_min_notarize_only_def safe_to_notar_min_notarize_for_notarize_or_skip_def
  safe_to_notar_min_notarize_and_skip_def safe_to_skip_threshold_def

lemma member_le_sum_support: "finite (support N) \<Longrightarrow> N h \<le> sum N (support N)"
  by (cases "h \<in> support N") (auto simp: support_def intro: member_le_sum)

lemma is_safe_to_notar_law:
  assumes "counters_rep T S N c" and "bt_get (notarize_entry_total c) h = Some s" and "my_first_vote c \<noteq> None"
  shows "is_safe_to_notar c h s = Some (notar_condition T S N (my_first_vote c) h)"
proof -
  have s: "N h = unat s" using assms(1,2) by (auto simp: counters_rep_def dest: spec [of _ h])
  then have "unat (skip_total c) + unat s < 2 ^ 64"
    using assms(1) member_le_sum_support [of N h] by (simp add: counters_rep_def)
  then obtain plus where "checked_add (skip_total c) s = Some plus" "unat plus = S + N h"
    using checked_add_fits [of "skip_total c" s] assms(1) s by (auto simp: counters_rep_def dest: unat_checked_add)
  with assms s show ?thesis
    by (auto simp: is_safe_to_notar_def notar_condition_def thresholds counters_rep_def split: option.splits vote.splits)
qed

lemma is_safe_to_skip_law:
  assumes "counters_rep T S N c"
  shows "is_safe_to_skip c \<longleftrightarrow> skip_condition T S N (my_first_vote c)"
proof -
  have "unat (saturating_sub (notarize_total c) (top_notarized_stake c)) = others N"
    using assms by (simp add: counters_rep_def others_def unat_saturating_sub)
  moreover have "unat (skip_total c) + others N < 2 ^ 64"
    using assms by (auto simp: counters_rep_def others_def)
  ultimately have "unat (saturating_add (skip_total c) (saturating_sub (notarize_total c) (top_notarized_stake c))) = S + others N"
    using assms by (simp add: unat_saturating_add counters_rep_def)
  with assms show ?thesis
    by (auto simp: is_safe_to_skip_def skip_condition_def thresholds counters_rep_def split: option.splits vote.splits)
qed


section \<open>Recording a vote\<close>

definition top_stake :: "(hash \<Rightarrow> nat) \<Rightarrow> nat" where
  "top_stake N = Max (insert 0 (N ` support N))"

lemma top_ge: "finite (support N) \<Longrightarrow> N h \<le> top_stake N"
  unfolding top_stake_def by (cases "N h = 0") (auto simp: support_def intro!: Max_ge)

lemma top_attained: "finite (support N) \<Longrightarrow> top_stake N = 0 \<or> (\<exists>h. N h = top_stake N)"
  unfolding top_stake_def using Max_in [of "insert 0 (N ` support N)"] by auto

lemma support_upd: "finite (support N) \<Longrightarrow> finite (support (N(h := v)))"
  by (rule finite_subset [of _ "insert h (support N)"]) (auto simp: support_def)

lemma sum_support_mono: "finite A \<Longrightarrow> support N \<subseteq> A \<Longrightarrow> sum N (support N) = sum N A"
  by (rule sum.mono_neutral_left) (auto simp: support_def)

lemma sum_support_upd:
  assumes "finite (support N)"
  shows "sum (N(h := v)) (support (N(h := v))) + N h = sum N (support N) + v"
proof -
  let ?A = "insert h (support N)"
  have "sum (N(h := v)) (support (N(h := v))) = sum (N(h := v)) ?A"
    using assms by (intro sum_support_mono) (auto simp: support_def)
  also have "\<dots> = v + sum N (support N - {h})"
    using assms by (simp add: sum.insert_remove)
  finally show ?thesis
    using assms sum.remove [of "support N" h N] by (cases "h \<in> support N") (auto simp: support_def)
qed

lemma top_upd:
  assumes "finite (support N)" and "N h \<le> v"
  shows "top_stake (N(h := v)) = max (top_stake N) v"
proof (rule antisym)
  have fin: "finite (support (N(h := v)))" using assms(1) by (rule support_upd)
  show "top_stake (N(h := v)) \<le> max (top_stake N) v"
  proof (cases "top_stake (N(h := v)) = 0")
    case False
    then obtain h' where "(N(h := v)) h' = top_stake (N(h := v))" using top_attained [OF fin] by metis
    then show ?thesis using top_ge [OF assms(1), of h'] by (cases "h' = h") auto
  qed simp
  have "v \<le> top_stake (N(h := v))" using top_ge [OF fin, of h] by simp
  moreover have "N h' \<le> top_stake (N(h := v))" for h'
    using top_ge [OF fin, of h'] assms(2) calculation by (cases "h' = h") auto
  then have "top_stake N \<le> top_stake (N(h := v))" using top_attained [OF assms(1)] by (metis zero_le)
  ultimately show "max (top_stake N) v \<le> top_stake (N(h := v))" by simp
qed

lemma others_upd:
  assumes "finite (support N)" and "N h \<le> v"
  shows "others N \<le> others (N(h := v))"
  using sum_support_upd [OF assms(1), of h v] top_upd [OF assms] top_ge [OF assms(1), of h]
    member_le_sum_support [OF assms(1), of h] assms(2)
  unfolding others_def top_stake_def [symmetric] by linarith

lemma record_skip_law:
  "counters_rep T S N c \<Longrightarrow> unat st + sum N (support N) \<le> T \<Longrightarrow> counters_rep T (unat st) N (c\<lparr>skip_total := st\<rparr>)"
  by (simp add: counters_rep_def)

lemma record_notarize_law:
  assumes rep: "counters_rep T S N c" and grow: "N h \<le> unat st"
    and fits: "S + sum (N(h := unat st)) (support (N(h := unat st))) \<le> T" and h: "block_hash b = h"
  shows "\<exists>c'. record_stake (Notarize b) st c = Some c' \<and> counters_rep T S (N(h := unat st)) c' \<and>
    my_first_vote c' = my_first_vote c \<and> safe_to_notar_sent c' = safe_to_notar_sent c \<and>
    safe_to_skip_sent c' = safe_to_skip_sent c"
proof -
  let ?old = "case bt_get (notarize_entry_total c) h of None \<Rightarrow> 0 | Some s \<Rightarrow> s"
  define N' where "N' = N(h := unat st)"
  have fin: "finite (support N)" and wf: "bt_wf (notarize_entry_total c)"
    and total: "unat (notarize_total c) = sum N (support N)" and topc: "unat (top_notarized_stake c) = top_stake N"
    using rep by (simp_all add: counters_rep_def top_stake_def)
  have old: "unat ?old = N h" using rep by (auto simp: counters_rep_def dest: spec [of _ h] split: option.splits)
  have "sum N' (support N') + N h = sum N (support N) + unat st" unfolding N'_def using fin by (rule sum_support_upd)
  moreover have "sum N' (support N') < 2 ^ 64" using fits rep by (simp add: counters_rep_def flip: N'_def)
  moreover have "N h \<le> sum N (support N)" using fin by (rule member_le_sum_support)
  ultimately have new_total: "unat (saturating_add (saturating_sub (notarize_total c) ?old) st) = sum N' (support N')"
    by (simp add: unat_saturating_add unat_saturating_sub total old)
  have new_top: "unat (max (top_notarized_stake c) st) = top_stake N'"
    using top_upd [OF fin grow] topc by (simp add: max_def word_le_nat_alt flip: N'_def)
  have "case ((bt_get (notarize_entry_total c))(h \<mapsto> st)) h' of None \<Rightarrow> N' h' = 0 | Some s \<Rightarrow> N' h' = unat s" for h'
    unfolding N'_def using rep by (auto simp: counters_rep_def dest: spec [of _ h'] split: option.split)
  with rep fits new_total new_top support_upd [OF fin, of h "unat st"]
  have "counters_rep T S N' (c\<lparr>notarize_entry_total := bt_insert h st (notarize_entry_total c),
      notarize_total := saturating_add (saturating_sub (notarize_total c) ?old) st,
      top_notarized_stake := max (top_notarized_stake c) st\<rparr>)"
    unfolding counters_rep_def top_stake_def N'_def [symmetric] by (simp add: bt_get_insert wf)
  then show ?thesis
    unfolding record_stake_def Let_def N'_def [symmetric] by (simp add: h)
qed


section \<open>The loop over the notarized blocks\<close>

definition is_window_start :: "slot \<Rightarrow> bool" where
  "is_window_start s \<longleftrightarrow> s mod num_consecutive_leader_slots = 0 \<or> s = 1"

text \<open>The new blocks are announced at once in the first slot of a window, and set aside otherwise.\<close>

definition announce :: "slot \<Rightarrow> hash list \<Rightarrow> votor_event list" where
  "announce s hs = (if is_window_start s then map (\<lambda>h. SafeToNotar (Block s h)) hs else [])"

definition set_aside :: "slot \<Rightarrow> hash list \<Rightarrow> block list" where
  "set_aside s hs = (if is_window_start s then [] else map (Block s) hs)"

lemma check_entries_law:
  assumes "\<And>h st. (h, st) \<in> set es \<Longrightarrow> is_safe_to_notar c h st = Some (P h)" and "distinct (map fst es)"
  shows "foldM (check_entry c s) es (sent, events, pending) =
    (let new = filter (\<lambda>h. P h \<and> h \<notin> set sent) (map fst es)
     in Some (sent @ new, events @ announce s new, pending @ set_aside s new))"
  using assms
proof (induction es arbitrary: sent events pending)
  case Nil
  then show ?case by (simp add: announce_def set_aside_def)
next
  case (Cons e es)
  obtain h st where e: "e = (h, st)" by (cases e)
  have safe: "is_safe_to_notar c h st = Some (P h)" using Cons.prems(1) [of h st] e by simp
  let ?go = "P h \<and> h \<notin> set sent"
  let ?sent = "if ?go then sent @ [h] else sent"
  have "filter (\<lambda>h. P h \<and> h \<notin> set ?sent) (map fst es) = filter (\<lambda>h. P h \<and> h \<notin> set sent) (map fst es)"
    using Cons.prems(2) e by (intro filter_cong) (auto simp: image_iff)
  moreover have "check_entry c s e (sent, events, pending) =
      Some (?sent, if ?go then events @ announce s [h] else events, if ?go then pending @ set_aside s [h] else pending)"
    using safe by (auto simp: check_entry_def e announce_def set_aside_def is_window_start_def Let_def)
  ultimately show ?case
    using Cons.IH [of ?sent] Cons.prems e by (simp add: Let_def announce_def set_aside_def)
qed

lemma notar_condition_voted:
  "0 < T \<Longrightarrow> counters_rep T S N c \<Longrightarrow> notar_condition T S N own h \<Longrightarrow> h \<in> set (map fst (notarize_entry_total c))"
  by (cases "bt_get (notarize_entry_total c) h")
    (auto simp: notar_condition_def counters_rep_def dest: spec [of _ h] bt_get_Some_in_set intro: rev_image_eqI)

text \<open>
  The part of \<open>add_vote\<close> after the stakes are recorded: everything whose condition holds has been sent
  afterwards, and nothing else is sent.
\<close>

definition sent_exactly :: "nat \<Rightarrow> nat \<Rightarrow> (hash \<Rightarrow> nat) \<Rightarrow> slot_stake_counters \<Rightarrow> bool" where
  "sent_exactly T S N c \<longleftrightarrow> distinct (safe_to_notar_sent c) \<and>
     set (safe_to_notar_sent c) = {h. notar_condition T S N (my_first_vote c) h} \<and>
     safe_to_skip_sent c = skip_condition T S N (my_first_vote c)"

lemma emit_law:
  assumes rep: "counters_rep T S N c" and T: "0 < T" and own: "my_first_vote c \<noteq> None"
    and sub: "set (safe_to_notar_sent c) \<subseteq> {h. notar_condition T S N (my_first_vote c) h}"
    and dist: "distinct (safe_to_notar_sent c)"
    and skip: "safe_to_skip_sent c \<longrightarrow> skip_condition T S N (my_first_vote c)"
  shows "\<exists>new. foldM (check_entry c s) (notarize_entry_total c) (safe_to_notar_sent c, events, pending) =
      Some (safe_to_notar_sent c @ new, events @ announce s new, pending @ set_aside s new) \<and>
    distinct (safe_to_notar_sent c @ new) \<and>
    set (safe_to_notar_sent c @ new) = {h. notar_condition T S N (my_first_vote c) h}"
proof -
  let ?P = "notar_condition T S N (my_first_vote c)"
  let ?new = "filter (\<lambda>h. ?P h \<and> h \<notin> set (safe_to_notar_sent c)) (map fst (notarize_entry_total c))"
  have wf: "bt_wf (notarize_entry_total c)" using rep by (simp add: counters_rep_def)
  have "is_safe_to_notar c h st = Some (?P h)" if "(h, st) \<in> set (notarize_entry_total c)" for h st
    using is_safe_to_notar_law [OF rep bt_get_in_set [OF wf that] own] .
  then have "foldM (check_entry c s) (notarize_entry_total c) (safe_to_notar_sent c, events, pending) =
      Some (safe_to_notar_sent c @ ?new, events @ announce s ?new, pending @ set_aside s ?new)"
    using check_entries_law [of "notarize_entry_total c" c ?P s] bt_wf_distinct [OF wf] by (simp add: Let_def)
  moreover have "distinct (safe_to_notar_sent c @ ?new)" using dist bt_wf_distinct [OF wf] by auto
  moreover have "set (safe_to_notar_sent c @ ?new) = {h. ?P h}"
    using sub notar_condition_voted [OF T rep, of "my_first_vote c"] by auto
  ultimately show ?thesis by blast
qed


section \<open>Processing a vote\<close>

text \<open>What a vote with entry stake \<open>n\<close> does to the stakes, when they may grow and when they fit.\<close>

definition tally_step :: "vote \<Rightarrow> nat \<Rightarrow> nat \<times> (hash \<Rightarrow> nat) \<Rightarrow> nat \<times> (hash \<Rightarrow> nat)" where
  "tally_step v n SN = (case v of
      Skip _ \<Rightarrow> (n, snd SN) | Notarize b \<Rightarrow> (fst SN, (snd SN)(block_hash b := n)) | _ \<Rightarrow> SN)"

definition stakes_grow :: "nat \<times> (hash \<Rightarrow> nat) \<Rightarrow> nat \<times> (hash \<Rightarrow> nat) \<Rightarrow> bool" where
  "stakes_grow SN SN' \<longleftrightarrow> fst SN \<le> fst SN' \<and> (\<forall>h. snd SN h \<le> snd SN' h)"

definition stakes_fit :: "nat \<Rightarrow> nat \<times> (hash \<Rightarrow> nat) \<Rightarrow> bool" where
  "stakes_fit T SN \<longleftrightarrow> fst SN + sum (snd SN) (support (snd SN)) \<le> T"

lemma notar_condition_mono:
  "notar_condition T S N own h \<Longrightarrow> S \<le> S' \<Longrightarrow> N h \<le> N' h \<Longrightarrow> notar_condition T S' N' own h"
  by (auto simp: notar_condition_def)

lemma skip_condition_mono:
  "skip_condition T S N own \<Longrightarrow> S \<le> S' \<Longrightarrow> others N \<le> others N' \<Longrightarrow> skip_condition T S' N' own"
  by (auto simp: skip_condition_def split: option.splits vote.splits)

lemma record_stake_law:
  assumes rep: "counters_rep T S N c" and step: "tally_step v (unat st) (S, N) = (S', N')"
    and grow: "stakes_grow (S, N) (S', N')" and fit: "stakes_fit T (S', N')"
  shows "case record_stake v st c of
      None \<Rightarrow> (S', N') = (S, N)
    | Some c' \<Rightarrow> counters_rep T S' N' c' \<and> my_first_vote c' = my_first_vote c \<and>
        safe_to_notar_sent c' = safe_to_notar_sent c \<and> safe_to_skip_sent c' = safe_to_skip_sent c \<and> others N \<le> others N'"
proof (cases v)
  case (Notarize b)
  then have N': "N' = N(block_hash b := unat st)" "S' = S" using step by (auto simp: tally_step_def)
  then have "N (block_hash b) \<le> unat st" using grow by (auto simp: stakes_grow_def dest: spec [of _ "block_hash b"])
  moreover have "finite (support N)" using rep by (simp add: counters_rep_def)
  ultimately show ?thesis
    using record_notarize_law [OF rep, of "block_hash b" st b] others_upd [of N "block_hash b" "unat st"] fit N' Notarize
    by (auto simp: stakes_fit_def)
qed (use step record_skip_law [OF rep, of st] fit in \<open>auto simp: record_stake_def tally_step_def stakes_fit_def\<close>)

text \<open>\<open>my_first_vote\<close> records first votes only.\<close>

lemma record_stake_first: "record_stake v st c = None \<longleftrightarrow> \<not> is_first_vote v"
  by (cases v) (simp_all add: record_stake_def Let_def)

lemma counters_add_vote_law:
  assumes rep: "counters_rep T S N c" and sent: "sent_exactly T S N c" and T: "0 < T"
    and step: "tally_step v (unat st) (S, N) = (S', N')"
    and grow: "stakes_grow (S, N) (S', N')" and fit: "stakes_fit T (S', N')"
  shows "\<exists>c' new. counters_add_vote v st own events pending c =
      Some (c', events @ announce (vote_slot v) new @
          (if safe_to_skip_sent c' \<and> \<not> safe_to_skip_sent c then [SafeToSkip (vote_slot v)] else []),
        pending @ set_aside (vote_slot v) new) \<and>
    counters_rep T S' N' c' \<and> sent_exactly T S' N' c' \<and> safe_to_notar_sent c' = safe_to_notar_sent c @ new \<and>
    (safe_to_skip_sent c \<longrightarrow> safe_to_skip_sent c') \<and>
    my_first_vote c' = (if my_first_vote c = None \<and> own \<and> is_first_vote v then Some v else my_first_vote c)"
proof (cases "record_stake v st c")
  case None
  then have "(S', N') = (S, N)" using record_stake_law [OF rep step grow fit] by simp
  then show ?thesis
    using None rep sent record_stake_first [of v st c]
    by (intro exI [of _ c] exI [of _ "[]"]) (simp add: counters_add_vote_def announce_def set_aside_def)
next
  case (Some c1)
  define c2 where "c2 = (if my_first_vote c1 = None \<and> own then c1\<lparr>my_first_vote := Some v\<rparr> else c1)"
  note law = record_stake_law [OF rep step grow fit, unfolded Some, simplified]
  have rep2: "counters_rep T S' N' c2" and same: "safe_to_notar_sent c2 = safe_to_notar_sent c"
    "safe_to_skip_sent c2 = safe_to_skip_sent c" and keep: "my_first_vote c \<noteq> None \<Longrightarrow> my_first_vote c2 = my_first_vote c"
    using law by (auto simp: c2_def counters_rep_def)
  have first: "my_first_vote c2 = (if my_first_vote c = None \<and> own \<and> is_first_vote v then Some v else my_first_vote c)"
    using law record_stake_first [of v st c] Some by (simp add: c2_def)
  have mono: "S \<le> S'" "N h \<le> N' h" "others N \<le> others N'" for h using grow law by (auto simp: stakes_grow_def)
  have sub: "set (safe_to_notar_sent c2) \<subseteq> {h. notar_condition T S' N' (my_first_vote c2) h}"
  proof (cases "my_first_vote c")
    case None
    then show ?thesis using sent by (simp add: sent_exactly_def same notar_condition_def)
  next
    case (Some w)
    then show ?thesis
      using sent keep notar_condition_mono [of T S N "my_first_vote c" _ S' N'] mono by (auto simp: sent_exactly_def same)
  qed
  have skip: "safe_to_skip_sent c2 \<longrightarrow> skip_condition T S' N' (my_first_vote c2)"
  proof (cases "my_first_vote c")
    case None
    then show ?thesis using sent by (simp add: sent_exactly_def same skip_condition_def)
  next
    case (Some w)
    then show ?thesis
      using sent keep skip_condition_mono [OF _ mono(1,3), of T "my_first_vote c"] by (simp add: sent_exactly_def same)
  qed
  show ?thesis
  proof (cases "my_first_vote c2")
    case None
    then have "sent_exactly T S' N' c2"
      using sub skip sent by (auto simp: sent_exactly_def notar_condition_def skip_condition_def same)
    then show ?thesis
      using None Some rep2 same first
      by (auto simp: counters_add_vote_def announce_def set_aside_def simp flip: c2_def intro!: exI [of _ c2] exI [of _ "[]"])
  next
    case own2: (Some w)
    have "distinct (safe_to_notar_sent c2)" using sent by (simp add: sent_exactly_def same)
    then obtain new where new: "foldM (check_entry c2 (vote_slot v)) (notarize_entry_total c2) (safe_to_notar_sent c2, events, pending) =
        Some (safe_to_notar_sent c2 @ new, events @ announce (vote_slot v) new, pending @ set_aside (vote_slot v) new)"
      "distinct (safe_to_notar_sent c2 @ new)"
      "set (safe_to_notar_sent c2 @ new) = {h. notar_condition T S' N' (my_first_vote c2) h}"
      using emit_law [OF rep2 T _ sub _ skip] own2 by blast
    define c3 where "c3 = c2\<lparr>safe_to_notar_sent := safe_to_notar_sent c2 @ new\<rparr>"
    have rep3: "counters_rep T S' N' c3" using rep2 by (simp add: c3_def counters_rep_def)
    define c4 where "c4 = (if \<not> safe_to_skip_sent c3 \<and> is_safe_to_skip c3 then c3\<lparr>safe_to_skip_sent := True\<rparr> else c3)"
    have "counters_rep T S' N' c4" using rep3 by (simp add: c4_def counters_rep_def)
    moreover have "sent_exactly T S' N' c4"
      using new(2,3) skip is_safe_to_skip_law [OF rep3] by (auto simp: c4_def c3_def sent_exactly_def)
    moreover have "counters_add_vote v st own events pending c =
      Some (c4, events @ announce (vote_slot v) new @
          (if safe_to_skip_sent c4 \<and> \<not> safe_to_skip_sent c then [SafeToSkip (vote_slot v)] else []),
        pending @ set_aside (vote_slot v) new)"
      using Some own2 new(1) same(2) unfolding counters_add_vote_def
      by (auto simp: Let_def c4_def c3_def simp flip: c2_def)
    ultimately show ?thesis
      using same first by (intro exI [of _ c4] exI [of _ new]) (simp add: c4_def c3_def)
  qed
qed


section \<open>Runs\<close>

text \<open>
  The votes of a slot in the order the pool counts them, each with the stake of its vote pool entry and
  whether it is this node's own.
\<close>

type_synonym casts = "(vote \<times> stake \<times> bool) list"

definition count_votes :: "stake \<Rightarrow> casts \<Rightarrow> (slot_stake_counters \<times> votor_event list \<times> block list) option" where
  "count_votes total_stake cs =
     foldM (\<lambda>(v, st, own) (c, events, pending). counters_add_vote v st own events pending c) cs
       (new_slot_stake_counters total_stake, [], [])"

fun stakes_after :: "nat \<times> (hash \<Rightarrow> nat) \<Rightarrow> casts \<Rightarrow> nat \<times> (hash \<Rightarrow> nat)" where
  "stakes_after SN [] = SN"
| "stakes_after SN ((v, st, _) # cs) = stakes_after (tally_step v (unat st) SN) cs"

fun first_own :: "casts \<Rightarrow> vote option" where
  "first_own [] = None"
| "first_own ((v, _, own) # cs) = (if own \<and> is_first_vote v then Some v else first_own cs)"

text \<open>The stakes of a pool: an entry's stake only grows, and a validator has one first vote.\<close>

fun casts_ok :: "nat \<Rightarrow> slot \<Rightarrow> nat \<times> (hash \<Rightarrow> nat) \<Rightarrow> casts \<Rightarrow> bool" where
  "casts_ok T s SN [] \<longleftrightarrow> True"
| "casts_ok T s SN ((v, st, _) # cs) \<longleftrightarrow>
     vote_slot v = s \<and> stakes_grow SN (tally_step v (unat st) SN) \<and>
     stakes_fit T (tally_step v (unat st) SN) \<and> casts_ok T s (tally_step v (unat st) SN) cs"

definition logged :: "slot \<Rightarrow> slot_stake_counters \<Rightarrow> votor_event list \<Rightarrow> block list \<Rightarrow> bool" where
  "logged s c events pending \<longleftrightarrow> distinct events \<and> pending = set_aside s (safe_to_notar_sent c) \<and>
     set events = set (announce s (safe_to_notar_sent c)) \<union> (if safe_to_skip_sent c then {SafeToSkip s} else {})"

lemma logged_step:
  assumes "logged s c events pending" and "safe_to_notar_sent c' = safe_to_notar_sent c @ new"
    and "distinct (safe_to_notar_sent c')" and "safe_to_skip_sent c \<longrightarrow> safe_to_skip_sent c'"
  shows "logged s c' (events @ announce s new @
      (if safe_to_skip_sent c' \<and> \<not> safe_to_skip_sent c then [SafeToSkip s] else [])) (pending @ set_aside s new)"
  using assms by (auto simp: logged_def announce_def set_aside_def distinct_map inj_on_def)

lemma count_votes_law:
  assumes "counters_rep T S N c" and "sent_exactly T S N c" and T: "0 < T" and "logged s c events pending"
    and "casts_ok T s (S, N) cs"
  shows "\<exists>c' events' pending'.
    foldM (\<lambda>(v, st, own) (c, events, pending). counters_add_vote v st own events pending c) cs (c, events, pending) =
      Some (c', events', pending') \<and>
    sent_exactly T (fst (stakes_after (S, N) cs)) (snd (stakes_after (S, N) cs)) c' \<and> logged s c' events' pending' \<and>
    my_first_vote c' = (if my_first_vote c = None then first_own cs else my_first_vote c)"
  using assms(1,2,4,5)
proof (induction cs arbitrary: S N c events pending)
  case (Cons cast cs)
  obtain v st own where cast: "cast = (v, st, own)" by (cases cast)
  obtain S' N' where step: "tally_step v (unat st) (S, N) = (S', N')" by fastforce
  have ok: "stakes_grow (S, N) (S', N')" "stakes_fit T (S', N')" "casts_ok T s (S', N') cs" and s: "vote_slot v = s"
    using Cons.prems(4) by (auto simp: cast step)
  from counters_add_vote_law [OF Cons.prems(1,2) T step ok(1,2), of own events pending] s
  obtain c' new where run: "counters_add_vote v st own events pending c =
      Some (c', events @ announce s new @
          (if safe_to_skip_sent c' \<and> \<not> safe_to_skip_sent c then [SafeToSkip s] else []), pending @ set_aside s new)"
    and rep': "counters_rep T S' N' c'" and sent': "sent_exactly T S' N' c'"
    and app: "safe_to_notar_sent c' = safe_to_notar_sent c @ new" "safe_to_skip_sent c \<longrightarrow> safe_to_skip_sent c'"
    and first: "my_first_vote c' = (if my_first_vote c = None \<and> own \<and> is_first_vote v then Some v else my_first_vote c)"
    by blast
  have "distinct (safe_to_notar_sent c')" using sent' by (simp add: sent_exactly_def)
  note Cons.IH [OF rep' sent' logged_step [OF Cons.prems(3) app(1) this app(2)] ok(3)]
  moreover have "(if my_first_vote c' = None then first_own cs else my_first_vote c') =
      (if my_first_vote c = None then first_own (cast # cs) else my_first_vote c)"
    using first by (auto simp: cast)
  ultimately show ?case
    by (simp only: cast step run foldM.simps stakes_after.simps prod.case Option.bind.bind_lunit)
qed simp

lemma counters_start:
  "counters_rep (unat T) 0 (\<lambda>_. 0) (new_slot_stake_counters T)"
  "0 < unat T \<Longrightarrow> sent_exactly (unat T) 0 (\<lambda>_. 0) (new_slot_stake_counters T)"
  "logged s (new_slot_stake_counters T) [] []"
  using unsigned_less [of T, where ?'a = nat]
  by (simp_all add: counters_rep_def sent_exactly_def logged_def new_slot_stake_counters_def support_def bt_wf_def
      announce_def set_aside_def notar_condition_def skip_condition_def)

text \<open>
  C17: the fallback events follow the conditions of the protocol exactly. Count the votes of a slot in any
  order. No vote panics, and when they are counted the blocks announced as safe to notarize (at once in
  the first slot of a leader window, set aside for the parent check elsewhere) are exactly those with 40%
  of the stake, or 20% and 60% together with skip, provided this node has voted but not for that block;
  \<open>SafeToSkip\<close> has been sent exactly if this node notarized and 40% of the stake is on skip or outside
  the most notarized block. Each is sent once, whatever the order of the votes.
\<close>

theorem fallback_events_follow_the_protocol:
  assumes "0 < unat T" and "casts_ok (unat T) s (0, \<lambda>_. 0) cs"
  shows "\<exists>c events pending. count_votes T cs = Some (c, events, pending) \<and> distinct events \<and> distinct pending \<and>
    (let (S, N) = stakes_after (0, \<lambda>_. 0) cs; own = first_own cs;
         safe = Block s ` {h. notar_condition (unat T) S N own h}
     in set events = (if is_window_start s then SafeToNotar ` safe else {}) \<union>
          (if skip_condition (unat T) S N own then {SafeToSkip s} else {}) \<and>
        set pending = (if is_window_start s then {} else safe))"
proof -
  from count_votes_law [OF counters_start(1) counters_start(2) assms(1) counters_start(3) assms(2)] assms(1)
  obtain c events pending where
    "count_votes T cs = Some (c, events, pending)" and
    sent: "sent_exactly (unat T) (fst (stakes_after (0, \<lambda>_. 0) cs)) (snd (stakes_after (0, \<lambda>_. 0) cs)) c" and
    log: "logged s c events pending" and own: "my_first_vote c = first_own cs"
    by (auto simp: count_votes_def new_slot_stake_counters_def)
  moreover have "distinct pending" using sent log by (auto simp: sent_exactly_def logged_def set_aside_def distinct_map inj_on_def)
  ultimately show ?thesis
    by (intro exI [of _ c] exI [of _ events] exI [of _ pending])
      (auto simp: sent_exactly_def logged_def set_aside_def announce_def image_image split: prod.split)
qed

theorem fallback_events_follow_the_protocol_witness:
  "\<exists>c. count_votes 100 [(Skip 8, 25, True), (Notarize (Block 8 5), 40, False), (Skip 8, 60, False)] =
     Some (c, [SafeToNotar (Block 8 5)], [])"
proof -
  have supp: "support ((\<lambda>_. 0)(5 := 40)) = {5}" "support (\<lambda>_. 0) = {}" by (auto simp: support_def)
  have "casts_ok (unat (100 :: stake)) 8 (0, \<lambda>_. 0) [(Skip 8, 25, True), (Notarize (Block 8 5), 40, False), (Skip 8, 60, False)]"
    by (simp add: stakes_grow_def tally_step_def stakes_fit_def supp)
  from fallback_events_follow_the_protocol [OF _ this]
  obtain c events pending where run: "count_votes 100 [(Skip 8, 25, True), (Notarize (Block 8 5), 40, False), (Skip 8, 60, False)] =
      Some (c, events, pending)" and d: "distinct events"
    and ev: "set events = SafeToNotar ` Block 8 ` {h. notar_condition 100 60 ((\<lambda>_. 0)(5 := 40)) (Some (Skip 8)) h}" and "pending = []"
    by (auto simp: tally_step_def is_window_start_def num_consecutive_leader_slots_def skip_condition_def)
  moreover have "{h. notar_condition 100 60 ((\<lambda>_. 0)(5 := 40)) (Some (Skip 8)) h} = {5}"
    by (auto simp: notar_condition_def)
  ultimately have "set events = {SafeToNotar (Block 8 5)}" by simp
  then have "events = [SafeToNotar (Block 8 5)]" using d
    by (cases events) (auto simp: subset_singleton_iff)
  then show ?thesis using run \<open>pending = []\<close> by simp
qed

end
