(* ===== verification/Certificate_Builder.thy ===== *)
theory Certificate_Builder
  imports Votor_Types Rank_Map "HOL-Library.Sublist"
begin

text \<open>
  \<open>crates/consensus/votor/src/consensus_pool/certificate_builder.rs\<close>: the builder that aggregates vote
  messages into a certificate, whose bitmap names the ranks of the signers.

  Signature aggregation (\<open>solana-bls-signatures\<close>) and the bitmap format (\<open>solana-signer-store\<close>) are
  the parameter \<open>lib\<close>. A point and its compressed or affine form are the same opaque number.
\<close>

section \<open>Model\<close>

subsection \<open>The libraries\<close>

type_synonym bls_error = nat
type_synonym encode_error = nat
type_synonym decode_error = nat
type_synonym bitvec = "bool list"

datatype decoded = Base2 bitvec | Base3 bitvec bitvec

record crypto_library =
  sig_identity :: bls_signature
  aggregate_with :: "bls_signature \<Rightarrow> bls_signature list \<Rightarrow> bls_error + bls_signature"
  pubkeys_aggregate :: "bls_pubkey_affine list \<Rightarrow> bls_error + bls_pubkey_affine"
  pubkeys_par_aggregate :: "bls_pubkey_affine list \<Rightarrow> bls_error + bls_pubkey_affine"
  verify_signature :: "bls_pubkey_affine \<Rightarrow> bls_signature \<Rightarrow> u8 list \<Rightarrow> bls_error + unit"
  verify_distinct_aggregated :: "bls_pubkey_affine list \<Rightarrow> bls_signature \<Rightarrow> u8 list list \<Rightarrow> bls_error + unit"
  par_verify_distinct_aggregated :: "bls_pubkey_affine list \<Rightarrow> bls_signature \<Rightarrow> u8 list list \<Rightarrow> bls_error + unit"
  compress_signature :: "bls_signature \<Rightarrow> bls_error + bls_signature"
  uncompress_signature :: "bls_signature \<Rightarrow> bls_error + bls_signature"
  current_num_threads :: nat
  serialize_vote :: "vote \<Rightarrow> u8 list"
  encode_base2 :: "bitvec \<Rightarrow> encode_error + u8 list"
  encode_base3 :: "bitvec \<Rightarrow> bitvec \<Rightarrow> encode_error + u8 list"
  decode :: "u8 list \<Rightarrow> nat \<Rightarrow> decode_error + decoded"

subsection \<open>Bit vectors\<close>

definition iter_ones :: "bitvec \<Rightarrow> nat list" where
  "iter_ones bs = filter (\<lambda>i. bs ! i) [0..<length bs]"

definition last_one :: "bitvec \<Rightarrow> nat option" where
  "last_one bs = (let is = iter_ones bs in if is = [] then None else Some (last is))"

definition resize :: "nat \<Rightarrow> bitvec \<Rightarrow> bitvec" where
  "resize n bs = take n bs @ replicate (n - length bs) False"

definition used_length :: "bitvec \<Rightarrow> nat" where
  "used_length bs = (case last_one bs of None \<Rightarrow> 0 | Some i \<Rightarrow> i + 1)"

subsection \<open>The builder\<close>

definition maximum_validators :: nat where
  "maximum_validators = 4096"

datatype aggregate_error = AggregateBls bls_error | InvalidRank u16 | ValidatorAlreadyIncluded

datatype build_error = Encode encode_error | BuildBls bls_error

definition default_bitvec :: bitvec where
  "default_bitvec = replicate maximum_validators False"

definition build_cert_from_bitmap ::
    "crypto_library \<Rightarrow> certificate_type \<Rightarrow> bls_signature \<Rightarrow> bitvec \<Rightarrow> encode_error + certificate" where
  "build_cert_from_bitmap lib ct sig bitmap =
     (let bitmap = resize (used_length bitmap) bitmap in
      case encode_base2 lib bitmap of
        Inl e \<Rightarrow> Inl e
      | Inr bytes \<Rightarrow> Inr \<lparr>cert_type = ct, cert_signature = sig, cert_bitmap = bytes\<rparr>)"

definition build_cert_from_bitmaps ::
    "crypto_library \<Rightarrow> certificate_type \<Rightarrow> bls_signature \<Rightarrow> bitvec \<Rightarrow> bitvec \<Rightarrow> encode_error + certificate" where
  "build_cert_from_bitmaps lib ct sig bitmap0 bitmap1 =
     (let new_length = max (used_length bitmap0) (used_length bitmap1);
          bitmap0 = resize new_length bitmap0; bitmap1 = resize new_length bitmap1 in
      case encode_base3 lib bitmap0 bitmap1 of
        Inl e \<Rightarrow> Inl e
      | Inr bytes \<Rightarrow> Inr \<lparr>cert_type = ct, cert_signature = sig, cert_bitmap = bytes\<rparr>)"

definition try_set_bitmap :: "bitvec \<Rightarrow> u16 \<Rightarrow> aggregate_error + bitvec" where
  "try_set_bitmap bitmap rank =
     (if length bitmap \<le> unat rank then Inl (InvalidRank rank)
      else if bitmap ! unat rank then Inl ValidatorAlreadyIncluded
      else Inr (bitmap[unat rank := True]))"

datatype builder_type =
    SingleVote bls_signature bitvec
  | DoubleVote bls_signature bitvec "bitvec option"

definition new_builder_type :: "crypto_library \<Rightarrow> certificate_type \<Rightarrow> builder_type" where
  "new_builder_type lib ct =
     (case ct of
        SkipC _ \<Rightarrow> DoubleVote (sig_identity lib) default_bitvec None
      | NotarizeFallbackC _ \<Rightarrow> DoubleVote (sig_identity lib) default_bitvec None
      | _ \<Rightarrow> SingleVote (sig_identity lib) default_bitvec)"

text \<open>
  The loops over the messages. The outer option is the panic of an assertion; an error ends the loop.
\<close>

fun set_double ::
    "vote_type \<Rightarrow> vote_type \<Rightarrow> vote_message list \<Rightarrow> bitvec \<Rightarrow> bitvec option \<Rightarrow>
     (aggregate_error + bitvec \<times> bitvec option) option" where
  "set_double t0 t1 [] bitmap0 bitmap1 = Some (Inr (bitmap0, bitmap1))"
| "set_double t0 t1 (msg # msgs) bitmap0 bitmap1 =
     (if get_type (msg_vote msg) = t0
      then (case try_set_bitmap bitmap0 (msg_rank msg) of
          Inl e \<Rightarrow> Some (Inl e)
        | Inr bitmap0' \<Rightarrow> set_double t0 t1 msgs bitmap0' bitmap1)
      else if get_type (msg_vote msg) \<noteq> t1 then None
      else (case try_set_bitmap (case bitmap1 of None \<Rightarrow> default_bitvec | Some b \<Rightarrow> b) (msg_rank msg) of
          Inl e \<Rightarrow> Some (Inl e)
        | Inr bitmap1' \<Rightarrow> set_double t0 t1 msgs bitmap0 (Some bitmap1')))"

fun set_single :: "vote_type \<Rightarrow> vote_message list \<Rightarrow> bitvec \<Rightarrow> (aggregate_error + bitvec) option" where
  "set_single t [] bitmap = Some (Inr bitmap)"
| "set_single t (msg # msgs) bitmap =
     (if get_type (msg_vote msg) \<noteq> t then None
      else (case try_set_bitmap bitmap (msg_rank msg) of
          Inl e \<Rightarrow> Some (Inl e)
        | Inr bitmap' \<Rightarrow> set_single t msgs bitmap'))"

text \<open>
  A builder whose \<open>aggregate\<close> fails is not used again (the callers unwrap the result), so the failing
  branches do not return it.
\<close>

definition builder_aggregate ::
    "crypto_library \<Rightarrow> certificate_type \<Rightarrow> vote_message list \<Rightarrow> builder_type \<Rightarrow>
     (aggregate_error + builder_type) option" where
  "builder_aggregate lib ct msgs b =
     (let vote_types = snd (limits_and_vote_types ct) in
      case b of
        DoubleVote sig bitmap0 bitmap1 \<Rightarrow> do {
          ensure (length vote_types = 2);
          r \<leftarrow> set_double (vote_types ! 0) (vote_types ! 1) msgs bitmap0 bitmap1;
          Some (case r of
              Inl e \<Rightarrow> Inl e
            | Inr (b0, b1) \<Rightarrow> (case aggregate_with lib sig (map msg_signature msgs) of
                  Inl e \<Rightarrow> Inl (AggregateBls e) | Inr sig' \<Rightarrow> Inr (DoubleVote sig' b0 b1)))
        }
      | SingleVote sig bitmap \<Rightarrow> do {
          ensure (length vote_types = 1);
          r \<leftarrow> set_single (vote_types ! 0) msgs bitmap;
          Some (case r of
              Inl e \<Rightarrow> Inl e
            | Inr bm \<Rightarrow> (case aggregate_with lib sig (map msg_signature msgs) of
                  Inl e \<Rightarrow> Inl (AggregateBls e) | Inr sig' \<Rightarrow> Inr (SingleVote sig' bm)))
        })"

definition map_encode_error :: "encode_error + certificate \<Rightarrow> build_error + certificate" where
  "map_encode_error r = (case r of Inl e \<Rightarrow> Inl (Encode e) | Inr c \<Rightarrow> Inr c)"

definition builder_build :: "crypto_library \<Rightarrow> certificate_type \<Rightarrow> builder_type \<Rightarrow> build_error + certificate" where
  "builder_build lib ct b =
     map_encode_error (case b of
        SingleVote sig bitmap \<Rightarrow> build_cert_from_bitmap lib ct sig bitmap
      | DoubleVote sig bitmap0 None \<Rightarrow> build_cert_from_bitmap lib ct sig bitmap0
      | DoubleVote sig bitmap0 (Some bitmap1) \<Rightarrow> build_cert_from_bitmaps lib ct sig bitmap0 bitmap1)"

record certificate_builder =
  cb_builder_type :: builder_type
  cb_cert_type :: certificate_type

definition new_certificate_builder :: "crypto_library \<Rightarrow> certificate_type \<Rightarrow> certificate_builder" where
  "new_certificate_builder lib ct = \<lparr>cb_builder_type = new_builder_type lib ct, cb_cert_type = ct\<rparr>"

definition certificate_aggregate ::
    "crypto_library \<Rightarrow> vote_message list \<Rightarrow> certificate_builder \<Rightarrow> (aggregate_error + certificate_builder) option" where
  "certificate_aggregate lib msgs cb = do {
     r \<leftarrow> builder_aggregate lib (cb_cert_type cb) msgs (cb_builder_type cb);
     Some (case r of Inl e \<Rightarrow> Inl e | Inr b \<Rightarrow> Inr (cb\<lparr>cb_builder_type := b\<rparr>))
   }"

definition certificate_build :: "crypto_library \<Rightarrow> certificate_builder \<Rightarrow> build_error + certificate" where
  "certificate_build lib cb = builder_build lib (cb_cert_type cb) (cb_builder_type cb)"

text \<open>The callers' \<open>aggregate(..).unwrap()\<close>.\<close>

definition aggregate_unwrap ::
    "crypto_library \<Rightarrow> vote_message list \<Rightarrow> certificate_builder \<Rightarrow> certificate_builder option" where
  "aggregate_unwrap lib msgs cb = do {
     r \<leftarrow> certificate_aggregate lib msgs cb;
     (case r of Inl _ \<Rightarrow> None | Inr cb' \<Rightarrow> Some cb')
   }"


section \<open>Bitmaps as sets of ranks\<close>

definition bits :: "nat set \<Rightarrow> bitvec" where
  "bits R = map (\<lambda>i. i \<in> R) [0..<maximum_validators]"

abbreviation ranks :: "vote_message list \<Rightarrow> nat list" where
  "ranks msgs \<equiv> map (unat \<circ> msg_rank) msgs"

lemma default_bits: "default_bitvec = bits {}"
  by (simp add: default_bitvec_def bits_def map_replicate_const)

lemma length_bits [simp]: "length (bits R) = maximum_validators"
  by (simp add: bits_def)

lemma nth_bits [simp]: "i < maximum_validators \<Longrightarrow> bits R ! i \<longleftrightarrow> i \<in> R"
  by (simp add: bits_def)

lemma try_set_bits:
  "try_set_bitmap (bits R) r =
     (if maximum_validators \<le> unat r then Inl (InvalidRank r)
      else if unat r \<in> R then Inl ValidatorAlreadyIncluded
      else Inr (bits (insert (unat r) R)))"
proof -
  have "(bits R)[unat r := True] = bits (insert (unat r) R)" if "unat r < maximum_validators"
    by (rule nth_equalityI) (use that in \<open>auto simp: nth_list_update\<close>)
  then show ?thesis by (simp add: try_set_bitmap_def)
qed

text \<open>The messages a bitmap accepts: new ranks below the maximum, no rank twice.\<close>

definition fresh_ranks :: "nat set \<Rightarrow> vote_message list \<Rightarrow> bool" where
  "fresh_ranks R msgs \<longleftrightarrow> distinct (ranks msgs) \<and> R \<inter> set (ranks msgs) = {} \<and>
     (\<forall>r \<in> set (ranks msgs). r < maximum_validators)"

lemma fresh_ranks_Cons:
  "fresh_ranks R (msg # msgs) \<longleftrightarrow> unat (msg_rank msg) < maximum_validators \<and> unat (msg_rank msg) \<notin> R \<and>
     fresh_ranks (insert (unat (msg_rank msg)) R) msgs"
  by (auto simp: fresh_ranks_def)

lemma set_single_law:
  assumes "\<forall>msg \<in> set msgs. get_type (msg_vote msg) = t"
  shows "(\<exists>bm. set_single t msgs (bits R) = Some (Inr bm)) \<longleftrightarrow> fresh_ranks R msgs"
    "fresh_ranks R msgs \<Longrightarrow> set_single t msgs (bits R) = Some (Inr (bits (R \<union> set (ranks msgs))))"
  using assms
  by (induction msgs arbitrary: R) (auto simp: try_set_bits fresh_ranks_Cons fresh_ranks_def [of _ "[]"])

lemma set_double_first:
  assumes "\<forall>msg \<in> set msgs. get_type (msg_vote msg) = t0" and "fresh_ranks R msgs"
  shows "set_double t0 t1 msgs (bits R) b1 = Some (Inr (bits (R \<union> set (ranks msgs)), b1))"
  using assms by (induction msgs arbitrary: R) (auto simp: try_set_bits fresh_ranks_Cons)

lemma set_double_second:
  assumes "\<forall>msg \<in> set msgs. get_type (msg_vote msg) = t1" and "t0 \<noteq> t1" and "fresh_ranks R msgs" and "msgs \<noteq> []"
    and "(case b1 of None \<Rightarrow> default_bitvec | Some b \<Rightarrow> b) = bits R"
  shows "set_double t0 t1 msgs b0 b1 = Some (Inr (b0, Some (bits (R \<union> set (ranks msgs)))))"
  using assms
proof (induction msgs arbitrary: R b1)
  case (Cons msg msgs)
  then show ?case
    by (cases "msgs = []") (auto simp: try_set_bits fresh_ranks_Cons)
qed simp


section \<open>Trimming keeps the ones\<close>

lemma mem_iter_ones: "i \<in> set (iter_ones bs) \<longleftrightarrow> i < length bs \<and> bs ! i"
  by (auto simp: iter_ones_def)

lemma iter_ones_sorted: "sorted_wrt (<) (iter_ones bs)"
  unfolding iter_ones_def by (rule sorted_wrt_filter) simp

lemma iter_ones_eqI:
  assumes "\<And>i. i < length as \<and> as ! i \<longleftrightarrow> i < length bs \<and> bs ! i"
  shows "iter_ones as = iter_ones bs"
proof (rule strict_sorted_equal)
  show "set (iter_ones as) = set (iter_ones bs)" by (rule set_eqI) (simp only: mem_iter_ones assms)
qed (rule iter_ones_sorted)+

lemma sorted_le_last:
  assumes "sorted_wrt (<) xs" and "(x :: nat) \<in> set xs"
  shows "x \<le> last xs"
proof -
  obtain j where j: "j < length xs" "x = xs ! j" using assms(2) by (auto simp: in_set_conv_nth)
  then have "last xs = xs ! (length xs - 1)" by (intro last_conv_nth) auto
  moreover have "xs ! j \<le> xs ! (length xs - 1)"
    using j(1) sorted_wrt_nth_less [OF assms(1), of j "length xs - 1"] by (cases "j = length xs - 1") (auto intro: less_imp_le)
  ultimately show ?thesis using j(2) by simp
qed

lemma used_length_eq: "used_length bs = (if iter_ones bs = [] then 0 else last (iter_ones bs) + 1)"
  by (simp add: used_length_def last_one_def Let_def)

lemma used_length_bounds:
  "i < length bs \<Longrightarrow> bs ! i \<Longrightarrow> i < used_length bs"
  "used_length bs \<le> length bs"
proof -
  assume "i < length bs" and "bs ! i"
  then have mem: "i \<in> set (iter_ones bs)" by (simp add: mem_iter_ones)
  then have "i \<le> last (iter_ones bs)" by (rule sorted_le_last [OF iter_ones_sorted])
  with mem show "i < used_length bs" by (auto simp: used_length_eq)
next
  have "iter_ones bs \<noteq> [] \<Longrightarrow> last (iter_ones bs) < length bs"
    using last_in_set [of "iter_ones bs"] unfolding mem_iter_ones by blast
  then show "used_length bs \<le> length bs" by (simp add: used_length_eq Suc_le_eq)
qed

lemma iter_ones_resize:
  assumes "used_length bs \<le> n" and "n \<le> length bs"
  shows "iter_ones (resize n bs @ replicate k False) = iter_ones bs"
proof (rule iter_ones_eqI)
  fix i
  show "i < length (resize n bs @ replicate k False) \<and> (resize n bs @ replicate k False) ! i \<longleftrightarrow> i < length bs \<and> bs ! i"
    using used_length_bounds(1) [of i bs] assms by (auto simp: resize_def nth_append)
qed

lemma ones_bits: "R \<subseteq> {..<maximum_validators} \<Longrightarrow> set (iter_ones (bits R)) = R"
  by (auto simp: mem_iter_ones)

lemma used_length_bits:
  assumes "R \<subseteq> {..<maximum_validators}"
  shows "used_length (bits R) \<le> n \<longleftrightarrow> (\<forall>r \<in> R. r < n)"
proof
  assume "used_length (bits R) \<le> n"
  then show "\<forall>r \<in> R. r < n" using used_length_bounds(1) [of _ "bits R"] assms by fastforce
next
  assume "\<forall>r \<in> R. r < n"
  moreover have "iter_ones (bits R) \<noteq> [] \<Longrightarrow> last (iter_ones (bits R)) \<in> R"
    using ones_bits [OF assms] last_in_set [of "iter_ones (bits R)"] by simp
  ultimately show "used_length (bits R) \<le> n"
    by (auto simp: used_length_eq Suc_le_eq)
qed


section \<open>What a certificate names\<close>

text \<open>
  The documented behaviour of the bitmap format: a vector encodes, and decoding gives it back, up to
  trailing zeros, when it is not longer than the limit. A pair of vectors must be of one length and
  disjoint.
\<close>

definition codec_ok :: "crypto_library \<Rightarrow> bool" where
  "codec_ok lib \<longleftrightarrow>
     (\<forall>bs. bs \<noteq> [] \<and> length bs \<le> maximum_validators \<longrightarrow>
        (\<exists>bytes. encode_base2 lib bs = Inr bytes \<and>
          (\<forall>n \<ge> length bs. \<exists>k. decode lib bytes n = Inr (Base2 (bs @ replicate k False))))) \<and>
     (\<forall>b0 b1. b0 \<noteq> [] \<and> length b0 = length b1 \<and> length b0 \<le> maximum_validators \<and>
        set (iter_ones b0) \<inter> set (iter_ones b1) = {} \<longrightarrow>
        (\<exists>bytes. encode_base3 lib b0 b1 = Inr bytes \<and>
          (\<forall>n \<ge> length b0. \<exists>k. decode lib bytes n = Inr (Base3 (b0 @ replicate k False) (b1 @ replicate k False)))))"

lemma codec_base2:
  assumes "codec_ok lib" and "bs \<noteq> []" and "length bs \<le> maximum_validators"
  obtains bytes where "encode_base2 lib bs = Inr bytes"
    and "\<And>n. length bs \<le> n \<Longrightarrow> \<exists>k. decode lib bytes n = Inr (Base2 (bs @ replicate k False))"
  using assms unfolding codec_ok_def by blast

lemma codec_base3:
  assumes "codec_ok lib" and "b0 \<noteq> []" and "length b0 = length b1" and "length b0 \<le> maximum_validators"
    and "set (iter_ones b0) \<inter> set (iter_ones b1) = {}"
  obtains bytes where "encode_base3 lib b0 b1 = Inr bytes"
    and "\<And>n. length b0 \<le> n \<Longrightarrow> \<exists>k. decode lib bytes n = Inr (Base3 (b0 @ replicate k False) (b1 @ replicate k False))"
  using assms unfolding codec_ok_def by blast

text \<open>
  \<open>names_signers lib cert n P F\<close>: for a set of \<open>n\<close> validators the bitmap decodes to the ranks \<open>P\<close> of the
  primary and \<open>F\<close> of the fallback votes.
\<close>

definition names_signers :: "crypto_library \<Rightarrow> certificate \<Rightarrow> nat \<Rightarrow> nat set \<Rightarrow> nat set \<Rightarrow> bool" where
  "names_signers lib cert n P F \<longleftrightarrow>
     (case decode lib (cert_bitmap cert) n of
        Inl _ \<Rightarrow> False
      | Inr (Base2 bs) \<Rightarrow> set (iter_ones bs) = P \<and> F = {}
      | Inr (Base3 b0 b1) \<Rightarrow> length b0 = length b1 \<and> set (iter_ones b0) = P \<and> set (iter_ones b1) = F \<and> F \<noteq> {})"

definition within :: "nat \<Rightarrow> nat set \<Rightarrow> bool" where
  "within n R \<longleftrightarrow> (\<forall>r \<in> R. r < n)"

lemma resize_bits:
  assumes "within maximum_validators R" and "used_length (bits R) \<le> n" and "n \<le> maximum_validators"
  shows "set (iter_ones (resize n (bits R) @ replicate k False)) = R" "length (resize n (bits R)) = n"
    "set (iter_ones (resize n (bits R))) = R"
proof -
  have R: "R \<subseteq> {..<maximum_validators}" using assms(1) by (auto simp: within_def)
  show "set (iter_ones (resize n (bits R) @ replicate k False)) = R" for k
    using iter_ones_resize [of "bits R" n k] ones_bits [OF R] assms(2,3) by simp
  from this [of 0] show "set (iter_ones (resize n (bits R))) = R" by simp
  show "length (resize n (bits R)) = n" using assms(3) by (simp add: resize_def)
qed

lemma within_used: "within maximum_validators R \<Longrightarrow> within n R \<longleftrightarrow> used_length (bits R) \<le> n"
  by (subst used_length_bits) (auto simp: within_def)

lemma build_base2_law:
  assumes "codec_ok lib" and R: "within maximum_validators R" and "R \<noteq> {}"
  shows "\<exists>cert. build_cert_from_bitmap lib ct sig (bits R) = Inr cert \<and> cert_type cert = ct \<and>
    cert_signature cert = sig \<and> (\<forall>n. within n R \<longrightarrow> names_signers lib cert n R {})"
proof -
  let ?n = "used_length (bits R)"
  have n: "?n \<le> maximum_validators" using used_length_bounds(2) [of "bits R"] by simp
  note rb = resize_bits [OF R order_refl n]
  have "resize ?n (bits R) \<noteq> []" using rb(3) assms(3) by (intro notI) (simp add: iter_ones_def)
  moreover have "length (resize ?n (bits R)) \<le> maximum_validators" using n rb(2) by simp
  ultimately obtain bytes where enc: "encode_base2 lib (resize ?n (bits R)) = Inr bytes"
    and dec: "\<And>m. length (resize ?n (bits R)) \<le> m \<Longrightarrow>
      \<exists>k. decode lib bytes m = Inr (Base2 (resize ?n (bits R) @ replicate k False))"
    by (rule codec_base2 [OF assms(1)]) blast
  have "names_signers lib \<lparr>cert_type = ct, cert_signature = sig, cert_bitmap = bytes\<rparr> m R {}" if "within m R" for m
  proof -
    have "length (resize ?n (bits R)) \<le> m" using that within_used [OF R, of m] rb(2) by simp
    from dec [OF this] obtain k where "decode lib bytes m = Inr (Base2 (resize ?n (bits R) @ replicate k False))" ..
    then show ?thesis using rb(1) [of k] by (simp add: names_signers_def)
  qed
  then show ?thesis using enc by (simp add: build_cert_from_bitmap_def)
qed

lemma build_base3_law:
  assumes "codec_ok lib" and P: "within maximum_validators P" and F: "within maximum_validators F" and "F \<noteq> {}"
    and "P \<inter> F = {}"
  shows "\<exists>cert. build_cert_from_bitmaps lib ct sig (bits P) (bits F) = Inr cert \<and> cert_type cert = ct \<and>
    cert_signature cert = sig \<and> (\<forall>n. within n (P \<union> F) \<longrightarrow> names_signers lib cert n P F)"
proof -
  let ?n = "max (used_length (bits P)) (used_length (bits F))"
  have n: "?n \<le> maximum_validators" using used_length_bounds(2) [of "bits P"] used_length_bounds(2) [of "bits F"] by simp
  note rp = resize_bits [OF P max.cobounded1 n] and rf = resize_bits [OF F max.cobounded2 n]
  have "length (resize ?n (bits P)) = length (resize ?n (bits F))" using rp(2) rf(2) by simp
  moreover from this have "resize ?n (bits P) \<noteq> []" using rf(3) assms(4) by (intro notI) (simp add: iter_ones_def)
  ultimately obtain bytes where enc: "encode_base3 lib (resize ?n (bits P)) (resize ?n (bits F)) = Inr bytes"
    and dec: "\<And>m. length (resize ?n (bits P)) \<le> m \<Longrightarrow> \<exists>k. decode lib bytes m =
      Inr (Base3 (resize ?n (bits P) @ replicate k False) (resize ?n (bits F) @ replicate k False))"
    using codec_base3 [OF assms(1), of "resize ?n (bits P)" "resize ?n (bits F)"] n assms(5) rp(2,3) rf(3) by metis
  have "names_signers lib \<lparr>cert_type = ct, cert_signature = sig, cert_bitmap = bytes\<rparr> m P F" if "within m (P \<union> F)" for m
  proof -
    have "length (resize ?n (bits P)) \<le> m"
      using that within_used [OF P, of m] within_used [OF F, of m] rp(2) by (simp add: within_def)
    from dec [OF this] obtain k where "decode lib bytes m =
      Inr (Base3 (resize ?n (bits P) @ replicate k False) (resize ?n (bits F) @ replicate k False))" ..
    then show ?thesis using rp(1) [of k] rf(1) [of k] rp(2) rf(2) assms(4) by (simp add: names_signers_def)
  qed
  then show ?thesis using enc by (simp add: build_cert_from_bitmaps_def)
qed


section \<open>Building from the votes of each type\<close>

text \<open>
  The votes go into the builder in groups, one per vote type of the certificate, as far as there are any.
\<close>

type_synonym groups = "(vote_type \<times> vote_message list) list"

definition contributes :: "certificate_type \<Rightarrow> groups \<Rightarrow> bool" where
  "contributes ct gs \<longleftrightarrow> gs \<noteq> [] \<and> subseq (map fst gs) (snd (limits_and_vote_types ct)) \<and>
     (\<forall>(t, msgs) \<in> set gs. msgs \<noteq> [] \<and> (\<forall>msg \<in> set msgs. get_type (msg_vote msg) = t) \<and> fresh_ranks {} msgs)"

definition group_ranks :: "groups \<Rightarrow> vote_type \<Rightarrow> nat set" where
  "group_ranks gs t = (case map_of gs t of None \<Rightarrow> {} | Some msgs \<Rightarrow> set (ranks msgs))"

definition primary_ranks :: "certificate_type \<Rightarrow> groups \<Rightarrow> nat set" where
  "primary_ranks ct gs = group_ranks gs (get_type (to_source_vote ct))"

definition fallback_ranks :: "certificate_type \<Rightarrow> groups \<Rightarrow> nat set" where
  "fallback_ranks ct gs = (case to_source_votes ct of None \<Rightarrow> {} | Some (_, v) \<Rightarrow> group_ranks gs (get_type v))"

definition aggregate_signatures ::
    "crypto_library \<Rightarrow> bls_signature \<Rightarrow> vote_message list list \<Rightarrow> bls_signature option" where
  "aggregate_signatures lib sig mss = foldM (\<lambda>msgs s.
     case aggregate_with lib s (map msg_signature msgs) of Inl _ \<Rightarrow> None | Inr s' \<Rightarrow> Some s') mss sig"

definition finished_builder :: "certificate_type \<Rightarrow> bls_signature \<Rightarrow> nat set \<Rightarrow> nat set \<Rightarrow> certificate_builder" where
  "finished_builder ct sig P F =
     \<lparr>cb_builder_type = (if to_source_votes ct = None then SingleVote sig (bits P)
        else DoubleVote sig (bits P) (if F = {} then None else Some (bits F))), cb_cert_type = ct\<rparr>"

lemma subseq_short: "xs \<noteq> [] \<Longrightarrow> subseq xs [a] \<longleftrightarrow> xs = [a]"
  "xs \<noteq> [] \<Longrightarrow> subseq xs [a, b] \<longleftrightarrow> xs = [a] \<or> xs = [b] \<or> xs = [a, b]"
  by (auto simp del: in_set_subseqs simp flip: in_set_subseqs simp: Let_def)

lemma aggregate_single:
  assumes "to_source_votes ct = None" and "snd (limits_and_vote_types ct) = [t]"
    and "\<forall>msg \<in> set msgs. get_type (msg_vote msg) = t" and "fresh_ranks P msgs"
    and "aggregate_with lib sig (map msg_signature msgs) = Inr sig'"
  shows "aggregate_unwrap lib msgs (finished_builder ct sig P {}) = Some (finished_builder ct sig' (P \<union> set (ranks msgs)) {})"
  using set_single_law(2) [OF assms(3,4)] assms(1,2,5)
  by (simp add: aggregate_unwrap_def certificate_aggregate_def builder_aggregate_def finished_builder_def ensure_def Let_def)

lemma aggregate_double:
  assumes "to_source_votes ct \<noteq> None" and types: "snd (limits_and_vote_types ct) = [t0, t1]" "t0 \<noteq> t1"
    and "msgs \<noteq> []" and "aggregate_with lib sig (map msg_signature msgs) = Inr sig'"
  shows "\<forall>msg \<in> set msgs. get_type (msg_vote msg) = t0 \<Longrightarrow> fresh_ranks P msgs \<Longrightarrow>
      aggregate_unwrap lib msgs (finished_builder ct sig P F) = Some (finished_builder ct sig' (P \<union> set (ranks msgs)) F)"
    "\<forall>msg \<in> set msgs. get_type (msg_vote msg) = t1 \<Longrightarrow> fresh_ranks F msgs \<Longrightarrow>
      aggregate_unwrap lib msgs (finished_builder ct sig P F) = Some (finished_builder ct sig' P (F \<union> set (ranks msgs)))"
proof -
  let ?b1 = "if F = {} then None else Some (bits F)"
  have b1: "(case ?b1 of None \<Rightarrow> default_bitvec | Some b \<Rightarrow> b) = bits F" by (simp add: default_bits)
  note defs = aggregate_unwrap_def certificate_aggregate_def builder_aggregate_def finished_builder_def ensure_def Let_def
  show "aggregate_unwrap lib msgs (finished_builder ct sig P F) = Some (finished_builder ct sig' (P \<union> set (ranks msgs)) F)"
    if "\<forall>msg \<in> set msgs. get_type (msg_vote msg) = t0" and "fresh_ranks P msgs"
    using set_double_first [OF that, of t1 ?b1] assms by (simp add: defs)
  show "aggregate_unwrap lib msgs (finished_builder ct sig P F) = Some (finished_builder ct sig' P (F \<union> set (ranks msgs)))"
    if "\<forall>msg \<in> set msgs. get_type (msg_vote msg) = t1" and "fresh_ranks F msgs"
    using set_double_second [OF that(1) types(2) that(2) assms(4) b1, of "bits P"] assms by (simp add: defs)
qed


lemma new_builder_empty: "new_certificate_builder lib ct = finished_builder ct (sig_identity lib) {} {}"
  by (cases ct) (simp_all add: new_certificate_builder_def new_builder_type_def finished_builder_def default_bits)

lemma source_types:
  "to_source_votes ct = None \<Longrightarrow> snd (limits_and_vote_types ct) = [get_type (to_source_vote ct)]"
  "to_source_votes ct = Some (v, v') \<Longrightarrow> v = to_source_vote ct \<and> get_type v \<noteq> get_type v' \<and>
     snd (limits_and_vote_types ct) = [get_type v, get_type v']"
  by (cases ct; auto)+

lemma aggregate_groups:
  assumes "contributes ct gs" and "aggregate_signatures lib (sig_identity lib) (map snd gs) = Some sig"
  shows "foldM (aggregate_unwrap lib) (map snd gs) (new_certificate_builder lib ct) =
    Some (finished_builder ct sig (primary_ranks ct gs) (fallback_ranks ct gs))"
proof (cases "to_source_votes ct")
  case None
  let ?t = "get_type (to_source_vote ct)"
  have "map fst gs = [?t]"
    using assms(1) source_types(1) [OF None] subseq_short(1) [of "map fst gs"] by (auto simp: contributes_def)
  then obtain msgs where gs: "gs = [(?t, msgs)]" by (cases gs) auto
  then show ?thesis
    using assms aggregate_single [OF None source_types(1) [OF None], of msgs "{}" lib "sig_identity lib"]
    by (auto simp: new_builder_empty contributes_def aggregate_signatures_def primary_ranks_def fallback_ranks_def
        group_ranks_def None split: sum.splits)
next
  case (Some vs)
  obtain v v' where vs: "to_source_votes ct = Some (v, v')" using Some by (cases vs) simp
  have v: "to_source_vote ct = v" and ne: "get_type v \<noteq> get_type v'" "get_type v' \<noteq> get_type v"
    and types: "snd (limits_and_vote_types ct) = [get_type v, get_type v']"
    using source_types(2) [OF vs] by auto
  have ts: "map fst gs = [get_type v] \<or> map fst gs = [get_type v'] \<or> map fst gs = [get_type v, get_type v']"
    using assms(1) types subseq_short(2) [of "map fst gs"] by (auto simp: contributes_def)
  have dbl: "to_source_votes ct \<noteq> None" using vs by simp
  note add = aggregate_double [OF dbl types ne(1)]
  note defs = new_builder_empty contributes_def aggregate_signatures_def primary_ranks_def fallback_ranks_def group_ranks_def
  consider (prim) m where "gs = [(get_type v, m)]" | (fall) m where "gs = [(get_type v', m)]"
    | (both) m m' where "gs = [(get_type v, m), (get_type v', m')]"
    using ts by (auto simp: map_eq_Cons_conv)
  then show ?thesis
  proof cases
    case prim
    then have "aggregate_with lib (sig_identity lib) (map msg_signature m) = Inr sig"
      using assms(2) by (auto simp: aggregate_signatures_def split: sum.splits)
    then show ?thesis using assms(1) add(1) [of m lib "sig_identity lib"] ne by (simp add: prim defs vs v)
  next
    case fall
    then have "aggregate_with lib (sig_identity lib) (map msg_signature m) = Inr sig"
      using assms(2) by (auto simp: aggregate_signatures_def split: sum.splits)
    then show ?thesis using assms(1) add(2) [of m lib "sig_identity lib"] ne by (simp add: fall defs vs v)
  next
    case both
    obtain s where s: "aggregate_with lib (sig_identity lib) (map msg_signature m) = Inr s"
      and sig: "aggregate_with lib s (map msg_signature m') = Inr sig"
      using assms(2) both by (auto simp: aggregate_signatures_def split: sum.splits)
    then show ?thesis
      using assms(1) add(1) [of m lib "sig_identity lib" s "{}"] add(2) [of m' lib s sig "{}"] ne
      by (simp add: both defs vs v)
  qed
qed

lemma contributes_within:
  assumes "contributes ct gs"
  shows "within maximum_validators (primary_ranks ct gs)" "within maximum_validators (fallback_ranks ct gs)"
    "primary_ranks ct gs \<union> fallback_ranks ct gs \<noteq> {}"
proof -
  have fresh: "fresh_ranks {} msgs \<and> msgs \<noteq> []" if "map_of gs t = Some msgs" for t msgs
    using assms map_of_SomeD [OF that] by (auto simp: contributes_def)
  then have "within maximum_validators (group_ranks gs t)" for t
    by (auto simp: group_ranks_def within_def fresh_ranks_def split: option.split)
  then show "within maximum_validators (primary_ranks ct gs)" "within maximum_validators (fallback_ranks ct gs)"
    by (auto simp: primary_ranks_def fallback_ranks_def within_def split: option.split prod.split)
  obtain t msgs where g: "(t, msgs) \<in> set gs" using assms by (cases gs) (auto simp: contributes_def)
  moreover have sub: "subseq (map fst gs) (snd (limits_and_vote_types ct))" using assms by (simp add: contributes_def)
  ultimately have t: "t \<in> set (snd (limits_and_vote_types ct))"
    using list_emb_set [OF sub, of t] by (metis fst_conv image_eqI list.set_map)
  obtain msgs' where "map_of gs t = Some msgs'" using g by (metis weak_map_of_SomeI)
  then have "group_ranks gs t \<noteq> {}" using fresh [of t msgs'] by (simp add: group_ranks_def)
  moreover have "group_ranks gs t = primary_ranks ct gs \<or> group_ranks gs t = fallback_ranks ct gs"
  proof (cases "to_source_votes ct")
    case None
    then show ?thesis using t source_types(1) by (simp add: primary_ranks_def)
  next
    case (Some vs)
    then show ?thesis using t source_types(2) [of ct "fst vs" "snd vs"]
      by (auto simp: primary_ranks_def fallback_ranks_def split: prod.split)
  qed
  ultimately show "primary_ranks ct gs \<union> fallback_ranks ct gs \<noteq> {}" by auto
qed


lemma build_groups:
  assumes "codec_ok lib" and "contributes ct gs" and "primary_ranks ct gs \<inter> fallback_ranks ct gs = {}"
  shows "\<exists>cert. certificate_build lib (finished_builder ct sig (primary_ranks ct gs) (fallback_ranks ct gs)) = Inr cert \<and>
    cert_type cert = ct \<and> cert_signature cert = sig \<and>
    (\<forall>n. within n (primary_ranks ct gs \<union> fallback_ranks ct gs) \<longrightarrow>
      names_signers lib cert n (primary_ranks ct gs) (fallback_ranks ct gs))"
proof -
  let ?P = "primary_ranks ct gs" and ?F = "fallback_ranks ct gs"
  note w = contributes_within [OF assms(2)]
  note defs = certificate_build_def builder_build_def map_encode_error_def finished_builder_def
  show ?thesis
  proof (cases "?F = {}")
    case True
    then show ?thesis using build_base2_law [OF assms(1) w(1), of ct sig] w(3) by (auto simp: defs)
  next
    case False
    then have "to_source_votes ct \<noteq> None" by (cases "to_source_votes ct") (auto simp: fallback_ranks_def)
    then show ?thesis using False build_base3_law [OF assms(1) w(1,2) False assms(3), of ct sig] by (auto simp: defs)
  qed
qed

text \<open>
  A concrete library for the examples: signatures and keys are numbers, a signature is the key times a
  number derived from the message, aggregation is addition; bitmaps are stored one digit per byte.
\<close>

definition message_weight :: "u8 list \<Rightarrow> nat" where
  "message_weight p = 1 + (\<Sum>b\<leftarrow>p. unat b)"

definition check :: "bool \<Rightarrow> bls_error + unit" where
  "check b = (if b then Inr () else Inl 0)"

definition demo_decode :: "u8 list \<Rightarrow> nat \<Rightarrow> decode_error + decoded" where
  "demo_decode bytes n =
     (case bytes of
        [] \<Rightarrow> Inl 0
      | base # ds \<Rightarrow> if n < length ds then Inl 1
          else if base = 2 then Inr (Base2 (map (\<lambda>d. d = 1) ds))
          else Inr (Base3 (map (\<lambda>d. d = 1) ds) (map (\<lambda>d. d = 2) ds)))"

definition demo_library :: crypto_library where
  "demo_library =
     \<lparr>sig_identity = 0, aggregate_with = \<lambda>s ss. Inr (s + sum_list ss),
      pubkeys_aggregate = \<lambda>ks. Inr (sum_list ks), pubkeys_par_aggregate = \<lambda>ks. Inr (sum_list ks),
      verify_signature = \<lambda>k s p. check (s = k * message_weight p),
      verify_distinct_aggregated = \<lambda>ks s ps. check (s = (\<Sum>(k, p)\<leftarrow>zip ks ps. k * message_weight p)),
      par_verify_distinct_aggregated = \<lambda>ks s ps. check (s = (\<Sum>(k, p)\<leftarrow>zip ks ps. k * message_weight p)),
      compress_signature = Inr, uncompress_signature = Inr, current_num_threads = 1,
      serialize_vote = \<lambda>v. [of_nat (vote_type_rank (get_type v)), of_nat (vote_slot v)],
      encode_base2 = \<lambda>bs. Inr (2 # map (\<lambda>b. if b then 1 else 0) bs),
      encode_base3 = \<lambda>b0 b1. Inr (3 # map (\<lambda>(x, y). if x then 1 else if y then 2 else 0) (zip b0 b1)),
      decode = demo_decode\<rparr>"

lemma demo_codec_ok: "codec_ok demo_library"
proof -
  have "map (\<lambda>d :: u8. d = 1) (map (\<lambda>b. if b then 1 else 0) bs) = bs" for bs by (induction bs) auto
  moreover have "map (\<lambda>d :: u8. d = 1) (map (\<lambda>(x, y). if x then 1 else if y then 2 else 0) (zip b0 b1)) = b0 \<and>
      map (\<lambda>d :: u8. d = 2) (map (\<lambda>(x, y). if x then 1 else if y then 2 else 0) (zip b0 b1)) = b1"
    if "length b0 = length b1" and "set (iter_ones b0) \<inter> set (iter_ones b1) = {}" for b0 b1
  proof -
    have "\<not> (b0 ! i \<and> b1 ! i)" if "i < length b0" for i
      using that \<open>length b0 = length b1\<close> \<open>set (iter_ones b0) \<inter> set (iter_ones b1) = {}\<close>
      by (auto simp: disjoint_iff mem_iter_ones)
    then show ?thesis using that(1) by (auto simp: list_eq_iff_nth_eq)
  qed
  ultimately show ?thesis by (auto simp: codec_ok_def demo_library_def demo_decode_def intro: exI [of _ 0])
qed

text \<open>
  C26: a certificate names exactly its signers. Aggregating the groups of votes of a certificate, each
  with distinct ranks below the maximum, and building it panics nowhere and fails nowhere; the bitmap of
  the result decodes, for every validator set it fits into, to exactly the ranks of the primary and of
  the fallback votes, although the builder cuts the tails of its bitmaps.
\<close>

theorem certificate_names_its_signers:
  assumes "codec_ok lib" and "contributes ct gs" and "primary_ranks ct gs \<inter> fallback_ranks ct gs = {}"
    and "aggregate_signatures lib (sig_identity lib) (map snd gs) = Some sig"
  shows "\<exists>cb cert. foldM (aggregate_unwrap lib) (map snd gs) (new_certificate_builder lib ct) = Some cb \<and>
    certificate_build lib cb = Inr cert \<and> cert_type cert = ct \<and> cert_signature cert = sig \<and>
    (\<forall>n. within n (primary_ranks ct gs \<union> fallback_ranks ct gs) \<longrightarrow>
      names_signers lib cert n (primary_ranks ct gs) (fallback_ranks ct gs))"
  using aggregate_groups [OF assms(2,4)] build_groups [OF assms(1-3), of sig] by blast

definition demo_skips :: groups where
  "demo_skips = [(SkipT, [\<lparr>msg_vote = Skip 9, msg_signature = 5, msg_rank = 2\<rparr>]),
     (SkipFallbackT, [\<lparr>msg_vote = SkipFallback 9, msg_signature = 6, msg_rank = 0\<rparr>,
       \<lparr>msg_vote = SkipFallback 9, msg_signature = 7, msg_rank = 4\<rparr>])]"

theorem certificate_names_its_signers_witness:
  "\<exists>cb cert. foldM (aggregate_unwrap demo_library) (map snd demo_skips) (new_certificate_builder demo_library (SkipC 9)) = Some cb \<and>
    certificate_build demo_library cb = Inr cert \<and> cert_signature cert = 18 \<and> names_signers demo_library cert 5 {2} {0, 4}"
proof -
  have gs: "contributes (SkipC 9) demo_skips"
    by (simp add: contributes_def demo_skips_def fresh_ranks_def maximum_validators_def)
  have P: "primary_ranks (SkipC 9) demo_skips = {2}" and F: "fallback_ranks (SkipC 9) demo_skips = {0, 4}"
    by (simp_all add: primary_ranks_def fallback_ranks_def group_ranks_def demo_skips_def)
  have "aggregate_signatures demo_library (sig_identity demo_library) (map snd demo_skips) = Some 18"
    by (simp add: aggregate_signatures_def demo_library_def demo_skips_def)
  from certificate_names_its_signers [OF demo_codec_ok gs _ this] show ?thesis
    by (auto simp: P F within_def)
qed

end
