(* ===== verification/Cert_Verify.thy ===== *)
theory Cert_Verify
  imports Certificate_Builder Vote_Pool
begin

text \<open>
  \<open>crates/crypto/bls-cert-verify/src/cert_verify.rs\<close>: the check of a certificate received from the
  network, and \<open>Bank::verify_certificate\<close>, which calls it with the stakes of the epoch.

  The closure that accumulates the stake of the signers is the accumulator of \<open>collect_pubkeys\<close>. The
  contract with the builder is shown at the end: what the builder makes of enough verified votes is
  accepted, and what is accepted has the stake of distinct validators behind it.
\<close>

section \<open>Model\<close>

datatype verify_error =
    MissingRank
  | MissingRankMap
  | VerifySig bls_error
  | Decode decode_error
  | WrongEncoding
  | BitmapOverlap
  | NotEnoughStake stake fraction fraction

type_synonym rank_lookup = "nat \<Rightarrow> (stake \<times> bls_pubkey_affine) option"

definition thread_pool_threshold :: nat where
  "thread_pool_threshold = 4"

definition verify_stake :: "certificate \<Rightarrow> stake \<Rightarrow> stake \<Rightarrow> verify_error + unit" where
  "verify_stake cert aggregate_stake total_stake =
     (let required_fraction = fst (limits_and_vote_types (cert_type cert));
          cert_fraction = \<lparr>numerator = aggregate_stake, denominator = total_stake\<rparr>
      in if fraction_ge cert_fraction required_fraction then Inr ()
         else Inl (NotEnoughStake aggregate_stake cert_fraction required_fraction))"

primrec get_vote_payloads :: "certificate_type \<Rightarrow> vote \<times> vote option" where
  "get_vote_payloads (NotarizeC b) = (Notarize b, None)"
| "get_vote_payloads (FinalizeFastC b) = (Notarize b, None)"
| "get_vote_payloads (FinalizeC s) = (Finalize s, None)"
| "get_vote_payloads (GenesisC b) = (Genesis b, None)"
| "get_vote_payloads (NotarizeFallbackC b) = (Notarize b, Some (NotarizeFallback b))"
| "get_vote_payloads (SkipC s) = (Skip s, Some (SkipFallback s))"

fun collect_ranks ::
    "rank_lookup \<Rightarrow> nat list \<Rightarrow> bls_pubkey_affine list \<Rightarrow> stake \<Rightarrow> verify_error + bls_pubkey_affine list \<times> stake" where
  "collect_ranks rank_map [] pubkeys aggregate_stake = Inr (pubkeys, aggregate_stake)"
| "collect_ranks rank_map (rank # rs) pubkeys aggregate_stake =
     (case rank_map rank of
        None \<Rightarrow> Inl MissingRank
      | Some (stake, pubkey) \<Rightarrow> collect_ranks rank_map rs (pubkeys @ [pubkey]) (saturating_add aggregate_stake stake))"

definition collect_pubkeys ::
    "rank_lookup \<Rightarrow> bitvec \<Rightarrow> stake \<Rightarrow> verify_error + bls_pubkey_affine list \<times> stake" where
  "collect_pubkeys rank_map bs aggregate_stake = collect_ranks rank_map (iter_ones bs) [] aggregate_stake"

definition aggregate_pubkeys :: "crypto_library \<Rightarrow> bls_pubkey_affine list \<Rightarrow> verify_error + bls_pubkey_affine" where
  "aggregate_pubkeys lib pubkeys =
     (case (if current_num_threads lib < thread_pool_threshold then pubkeys_aggregate lib pubkeys
            else pubkeys_par_aggregate lib pubkeys) of
        Inl e \<Rightarrow> Inl (VerifySig e) | Inr k \<Rightarrow> Inr k)"

definition check_signature ::
    "crypto_library \<Rightarrow> bls_pubkey_affine list \<Rightarrow> bls_signature \<Rightarrow> u8 list \<Rightarrow> verify_error + unit" where
  "check_signature lib pubkeys sig payload =
     (case aggregate_pubkeys lib pubkeys of
        Inl e \<Rightarrow> Inl e
      | Inr k \<Rightarrow> (case verify_signature lib k sig payload of Inl e \<Rightarrow> Inl (VerifySig e) | Inr u \<Rightarrow> Inr u))"

definition verify_single_vote_signature ::
    "crypto_library \<Rightarrow> u8 list \<Rightarrow> bls_signature \<Rightarrow> bitvec \<Rightarrow> rank_lookup \<Rightarrow> stake \<Rightarrow> verify_error + stake" where
  "verify_single_vote_signature lib payload sig bs rank_map acc =
     (case collect_pubkeys rank_map bs acc of
        Inl e \<Rightarrow> Inl e
      | Inr (pubkeys, acc') \<Rightarrow> (case check_signature lib pubkeys sig payload of Inl e \<Rightarrow> Inl e | Inr _ \<Rightarrow> Inr acc'))"

definition verify_base2 ::
    "crypto_library \<Rightarrow> u8 list \<Rightarrow> bls_signature \<Rightarrow> u8 list \<Rightarrow> nat \<Rightarrow> rank_lookup \<Rightarrow> stake \<Rightarrow> verify_error + stake" where
  "verify_base2 lib payload sig bitmap max_validators rank_map acc =
     (case decode lib bitmap max_validators of
        Inl e \<Rightarrow> Inl (Decode e)
      | Inr (Base2 bs) \<Rightarrow> verify_single_vote_signature lib payload sig bs rank_map acc
      | Inr (Base3 _ _) \<Rightarrow> Inl WrongEncoding)"

definition check_disjoint :: "bitvec \<Rightarrow> bitvec \<Rightarrow> verify_error + unit" where
  "check_disjoint b0 b1 =
     (if length b0 \<noteq> length b1 then Inl WrongEncoding
      else if list_ex (\<lambda>i. b1 ! i) (iter_ones b0) then Inl BitmapOverlap
      else Inr ())"

definition check_two_signatures ::
    "crypto_library \<Rightarrow> bls_pubkey_affine list \<Rightarrow> bls_pubkey_affine list \<Rightarrow> bls_signature \<Rightarrow> u8 list \<Rightarrow> u8 list \<Rightarrow>
     verify_error + unit" where
  "check_two_signatures lib primary fallback sig payload fallback_payload =
     (if primary = [] then check_signature lib fallback sig fallback_payload
      else if fallback = [] then check_signature lib primary sig payload
      else (case aggregate_pubkeys lib primary of
          Inl e \<Rightarrow> Inl e
        | Inr k0 \<Rightarrow> (case aggregate_pubkeys lib fallback of
            Inl e \<Rightarrow> Inl e
          | Inr k1 \<Rightarrow> (case (if current_num_threads lib < thread_pool_threshold
                then verify_distinct_aggregated lib [k0, k1] sig [payload, fallback_payload]
                else par_verify_distinct_aggregated lib [k0, k1] sig [payload, fallback_payload]) of
              Inl e \<Rightarrow> Inl (VerifySig e) | Inr u \<Rightarrow> Inr u))))"

definition verify_base3 ::
    "crypto_library \<Rightarrow> u8 list \<Rightarrow> u8 list \<Rightarrow> bls_signature \<Rightarrow> u8 list \<Rightarrow> nat \<Rightarrow> rank_lookup \<Rightarrow> stake \<Rightarrow>
     verify_error + stake" where
  "verify_base3 lib payload fallback_payload sig bitmap max_validators rank_map acc =
     (case decode lib bitmap max_validators of
        Inl e \<Rightarrow> Inl (Decode e)
      | Inr (Base2 bs) \<Rightarrow> verify_single_vote_signature lib payload sig bs rank_map acc
      | Inr (Base3 b0 b1) \<Rightarrow> (case check_disjoint b0 b1 of
          Inl e \<Rightarrow> Inl e
        | Inr _ \<Rightarrow> (case collect_pubkeys rank_map b0 acc of
            Inl e \<Rightarrow> Inl e
          | Inr (primary, acc1) \<Rightarrow> (case collect_pubkeys rank_map b1 acc1 of
              Inl e \<Rightarrow> Inl e
            | Inr (fallback, acc2) \<Rightarrow>
                (case check_two_signatures lib primary fallback sig payload fallback_payload of
                   Inl e \<Rightarrow> Inl e | Inr _ \<Rightarrow> Inr acc2)))))"

definition verify_certificate ::
    "crypto_library \<Rightarrow> certificate \<Rightarrow> nat \<Rightarrow> stake \<Rightarrow> rank_lookup \<Rightarrow> verify_error + unit" where
  "verify_certificate lib cert max_validators total_stake rank_map =
     (let (primary_vote, fallback_vote) = get_vote_payloads (cert_type cert);
          primary_payload = serialize_vote lib primary_vote in
      case (case fallback_vote of
          Some v \<Rightarrow> verify_base3 lib primary_payload (serialize_vote lib v) (cert_signature cert)
              (cert_bitmap cert) max_validators rank_map 0
        | None \<Rightarrow> verify_base2 lib primary_payload (cert_signature cert) (cert_bitmap cert) max_validators rank_map 0) of
        Inl e \<Rightarrow> Inl e
      | Inr aggregate_stake \<Rightarrow> verify_stake cert aggregate_stake total_stake)"

text \<open>
  \<open>Bank::verify_certificate\<close>; \<open>epoch_stakes\<close> is the bank's look-up of the rank map of a slot's epoch.
\<close>

definition stake_lookup :: "rank_map \<Rightarrow> rank_lookup" where
  "stake_lookup m rank = map_option (\<lambda>e. (entry_stake e, bls_pubkey e)) (get_pubkey_stake_entry m rank)"

definition bank_verify_certificate ::
    "crypto_library \<Rightarrow> (slot \<Rightarrow> rank_map option) \<Rightarrow> certificate \<Rightarrow> (verify_error + unit) option" where
  "bank_verify_certificate lib epoch_stakes cert =
     (case epoch_stakes (cert_slot (cert_type cert)) of
        None \<Rightarrow> Some (Inl MissingRankMap)
      | Some m \<Rightarrow> do {
          ensure (rank_total_stake m \<noteq> 0);
          Some (verify_certificate lib cert (rank_map_len m) (rank_total_stake m) (stake_lookup m))
        })"


section \<open>The stake of the signers\<close>

definition rank_entry :: "rank_map \<Rightarrow> nat \<Rightarrow> bls_pubkey_stake_entry" where
  "rank_entry m r = sorted_pubkeys m ! r"

definition signers :: "rank_map \<Rightarrow> nat set \<Rightarrow> pubkey set" where
  "signers m R = (\<lambda>r. vote_account_pubkey (rank_entry m r)) ` R"

definition signer_key :: "rank_map \<Rightarrow> nat \<Rightarrow> bls_pubkey_affine" where
  "signer_key m r = bls_pubkey (rank_entry m r)"

lemma stake_lookup_Some:
  "stake_lookup m r = (if r < rank_map_len m then Some (entry_stake (rank_entry m r), signer_key m r) else None)"
  by (simp add: stake_lookup_def get_pubkey_stake_entry_def rank_map_len_def rank_entry_def signer_key_def)

lemma signers_inj: "rank_map_wf m \<Longrightarrow> inj_on (\<lambda>r. vote_account_pubkey (rank_entry m r)) {..<rank_map_len m}"
  by (auto simp: inj_on_def rank_map_wf_def rank_map_len_def rank_entry_def distinct_conv_nth)

lemma stake_sum_signers:
  assumes "rank_map_wf m" and "within (rank_map_len m) R"
  shows "stake_sum m (signers m R) = (\<Sum>r\<in>R. unat (entry_stake (rank_entry m r)))"
proof -
  have R: "R \<subseteq> {..<rank_map_len m}" using assms(2) by (auto simp: within_def)
  have "stake_sum m (signers m R) = (\<Sum>r\<in>R. stake_of m (vote_account_pubkey (rank_entry m r)))"
    unfolding stake_sum_def signers_def using inj_on_subset [OF signers_inj [OF assms(1)] R] by (simp add: sum.reindex)
  also have "\<dots> = (\<Sum>r\<in>R. unat (entry_stake (rank_entry m r)))"
    by (rule sum.cong) (use R in \<open>auto simp: rank_entry_def rank_map_len_def intro!: stake_of_entry [OF assms(1)]\<close>)
  finally show ?thesis .
qed

lemma within_finite: "within n R \<Longrightarrow> finite R"
  by (rule finite_subset [of _ "{..<n}"]) (auto simp: within_def)

lemma signers_le_total:
  "exact_rank_map m \<Longrightarrow> within (rank_map_len m) R \<Longrightarrow> stake_sum m (signers m R) \<le> unat (rank_total_stake m)"
  by (rule stake_sum_le_total) (auto simp: signers_def dest: within_finite)

text \<open>
  Collecting the keys of distinct ranks after those of \<open>R\<close>: the accumulator is the exact stake of all of
  them, since it cannot exceed the total.
\<close>

lemma collect_ranks_law:
  assumes "exact_rank_map m" and "distinct rs" and "set rs \<inter> R = {}" and "within (rank_map_len m) R"
    and "unat acc = stake_sum m (signers m R)"
  shows "collect_ranks (stake_lookup m) rs ks acc =
      (if within (rank_map_len m) (set rs)
       then Inr (ks @ map (signer_key m) rs, word_of_nat (stake_sum m (signers m (R \<union> set rs)))) else Inl MissingRank) \<and>
    (within (rank_map_len m) (set rs) \<longrightarrow> stake_sum m (signers m (R \<union> set rs)) < 2 ^ 64)"
  using assms(2-)
proof (induction rs arbitrary: R ks acc)
  case Nil
  then show ?case using unsigned_less [of acc, where ?'a = nat] by (simp add: within_def flip: Nil.prems(4))
next
  case (Cons r rs)
  have wf: "rank_map_wf m" using assms(1) by (simp add: exact_rank_map_def)
  show ?case
  proof (cases "r < rank_map_len m")
    case True
    have R': "within (rank_map_len m) (insert r R)" using True Cons.prems(3) by (auto simp: within_def)
    have fin: "finite R" using Cons.prems(3) by (rule within_finite)
    have sum: "stake_sum m (signers m (insert r R)) = unat acc + unat (entry_stake (rank_entry m r))"
      using stake_sum_signers [OF wf R'] stake_sum_signers [OF wf Cons.prems(3)] fin Cons.prems(2,4) by simp
    also have "\<dots> < 2 ^ 64"
      using signers_le_total [OF assms(1) R'] sum unsigned_less [of "rank_total_stake m", where ?'a = nat] by simp
    finally have "unat (saturating_add acc (entry_stake (rank_entry m r))) = stake_sum m (signers m (insert r R))"
      using sum by (simp add: unat_saturating_add)
    from Cons.IH [OF _ _ R' this, of "ks @ [signer_key m r]"] show ?thesis
      using Cons.prems(1,2) True by (simp add: stake_lookup_Some within_def)
  next
    case False
    then show ?thesis by (simp add: stake_lookup_Some within_def)
  qed
qed

lemma iter_ones_distinct: "distinct (iter_ones bs)"
  by (simp add: iter_ones_def)

lemma collect_pubkeys_law:
  assumes "exact_rank_map m" and "set (iter_ones bs) \<inter> R = {}" and "within (rank_map_len m) R"
    and "unat acc = stake_sum m (signers m R)"
  shows "collect_pubkeys (stake_lookup m) bs acc =
      (if within (rank_map_len m) (set (iter_ones bs))
       then Inr (map (signer_key m) (iter_ones bs), word_of_nat (stake_sum m (signers m (R \<union> set (iter_ones bs)))))
       else Inl MissingRank)"
    and "within (rank_map_len m) (set (iter_ones bs)) \<Longrightarrow>
      unat (word_of_nat (stake_sum m (signers m (R \<union> set (iter_ones bs)))) :: stake) = stake_sum m (signers m (R \<union> set (iter_ones bs)))"
  using collect_ranks_law [OF assms(1) iter_ones_distinct assms(2-4), of "[]"]
  by (simp_all add: collect_pubkeys_def unsigned_of_nat take_bit_nat_eq_self)


section \<open>Accepted certificates\<close>

lemma get_vote_payloads_sync:
  "get_vote_payloads ct = (to_source_vote ct, map_option snd (to_source_votes ct))"
  by (cases ct) simp_all

lemma verify_stake_iff:
  "verify_stake cert acc tot = Inr () \<longleftrightarrow> cert_percent (cert_type cert) * unat tot \<le> 100 * unat acc"
  by (simp add: verify_stake_def fraction_limit Let_def)

lemma single_vote_law:
  assumes "exact_rank_map m"
  shows "verify_single_vote_signature lib payload sig bs (stake_lookup m) 0 = Inr acc \<longleftrightarrow>
    within (rank_map_len m) (set (iter_ones bs)) \<and>
    check_signature lib (map (signer_key m) (iter_ones bs)) sig payload = Inr () \<and>
    unat acc = stake_sum m (signers m (set (iter_ones bs)))"
  using collect_pubkeys_law [OF assms, of bs "{}" 0]
  by (auto simp: verify_single_vote_signature_def within_def signers_def word_unat_eq_iff split: sum.split)

lemma check_disjoint_iff:
  "check_disjoint b0 b1 = Inr () \<longleftrightarrow> length b0 = length b1 \<and> set (iter_ones b0) \<inter> set (iter_ones b1) = {}"
  by (auto simp: check_disjoint_def list_ex_iff mem_iter_ones)

lemma verify_base3_law:
  assumes "exact_rank_map m" and "decode lib bitmap (rank_map_len m) = Inr (Base3 b0 b1)"
  shows "verify_base3 lib p0 p1 sig bitmap (rank_map_len m) (stake_lookup m) 0 = Inr acc \<longleftrightarrow>
    length b0 = length b1 \<and> set (iter_ones b0) \<inter> set (iter_ones b1) = {} \<and>
    within (rank_map_len m) (set (iter_ones b0) \<union> set (iter_ones b1)) \<and>
    check_two_signatures lib (map (signer_key m) (iter_ones b0)) (map (signer_key m) (iter_ones b1)) sig p0 p1 = Inr () \<and>
    unat acc = stake_sum m (signers m (set (iter_ones b0) \<union> set (iter_ones b1)))"
proof (cases "length b0 = length b1 \<and> set (iter_ones b0) \<inter> set (iter_ones b1) = {} \<and>
    within (rank_map_len m) (set (iter_ones b0))")
  case True
  have none: "within (rank_map_len m) {}" "unat (0 :: stake) = stake_sum m (signers m {})"
    by (simp_all add: within_def signers_def)
  note first = collect_pubkeys_law [OF assms(1) _ none, of b0, simplified]
  note second = collect_pubkeys_law [OF assms(1), of b1 "set (iter_ones b0)"]
  have w: "within n (A \<union> B) \<longleftrightarrow> within n A \<and> within n B" for n A B by (auto simp: within_def)
  from True show ?thesis
    using first second check_disjoint_iff [of b0 b1]
    by (auto simp: verify_base3_def assms(2) w Int_commute word_unat_eq_iff split: sum.split)
next
  case False
  have none: "within (rank_map_len m) {}" "unat (0 :: stake) = stake_sum m (signers m {})"
    by (simp_all add: within_def signers_def)
  from False show ?thesis
    using check_disjoint_iff [of b0 b1] collect_pubkeys_law(1) [OF assms(1) _ none, of b0, simplified]
    by (cases "check_disjoint b0 b1") (auto simp: verify_base3_def assms(2) within_def split: sum.split)
qed

lemma verify_certificate_quorum:
  assumes "exact_rank_map m"
    and ok: "verify_certificate lib cert (rank_map_len m) (rank_total_stake m) (stake_lookup m) = Inr ()"
  shows "\<exists>P F. (case decode lib (cert_bitmap cert) (rank_map_len m) of
        Inl _ \<Rightarrow> False
      | Inr (Base2 bs) \<Rightarrow> P = set (iter_ones bs) \<and> F = {}
      | Inr (Base3 b0 b1) \<Rightarrow> P = set (iter_ones b0) \<and> F = set (iter_ones b1) \<and> to_source_votes (cert_type cert) \<noteq> None) \<and>
    P \<inter> F = {} \<and> within (rank_map_len m) (P \<union> F) \<and>
    cert_percent (cert_type cert) * unat (rank_total_stake m) \<le> 100 * stake_sum m (signers m (P \<union> F))"
proof -
  let ?ct = "cert_type cert"
  note single = single_vote_law [OF assms(1)] and base3 = verify_base3_law [OF assms(1)]
  have stake: "cert_percent ?ct * unat (rank_total_stake m) \<le> 100 * unat acc"
    if "verify_stake cert acc (rank_total_stake m) = Inr ()" for acc
    using that by (simp add: verify_stake_iff)
  show ?thesis
  proof (cases "decode lib (cert_bitmap cert) (rank_map_len m)")
    case (Inl e)
    then show ?thesis using ok
      by (cases "to_source_votes ?ct")
        (auto simp: verify_certificate_def get_vote_payloads_sync verify_base2_def verify_base3_def)
  next
    case (Inr d)
    show ?thesis
    proof (cases d)
      case (Base2 bs)
      obtain acc payload where "verify_single_vote_signature lib payload (cert_signature cert) bs (stake_lookup m) 0 = Inr acc"
        "verify_stake cert acc (rank_total_stake m) = Inr ()"
        using ok Inr Base2
        by (cases "to_source_votes ?ct")
          (auto simp: verify_certificate_def get_vote_payloads_sync verify_base2_def verify_base3_def split: sum.splits)
      then show ?thesis using Inr Base2 stake [of acc] by (auto simp: single)
    next
      case (Base3 b0 b1)
      then have dec: "decode lib (cert_bitmap cert) (rank_map_len m) = Inr (Base3 b0 b1)" using Inr by simp
      obtain v v' where vs: "to_source_votes ?ct = Some (v, v')"
        using ok dec by (cases "to_source_votes ?ct")
          (auto simp: verify_certificate_def get_vote_payloads_sync verify_base2_def)
      obtain acc p0 p1 where "verify_base3 lib p0 p1 (cert_signature cert) (cert_bitmap cert) (rank_map_len m) (stake_lookup m) 0 = Inr acc"
        "verify_stake cert acc (rank_total_stake m) = Inr ()"
        using ok vs by (auto simp: verify_certificate_def get_vote_payloads_sync Let_def split: sum.splits)
      then show ?thesis using dec vs stake [of acc] unfolding base3 [OF dec] by auto
    qed
  qed
qed


lemma bank_verify_accepts:
  assumes "epoch_stakes (cert_slot (cert_type cert)) = Some m"
  shows "bank_verify_certificate lib epoch_stakes cert = Some (Inr ()) \<longleftrightarrow> rank_total_stake m \<noteq> 0 \<and>
    verify_certificate lib cert (rank_map_len m) (rank_total_stake m) (stake_lookup m) = Inr ()"
  by (simp add: bank_verify_certificate_def assms ensure_def)


definition demo_ranks :: rank_map where
  "demo_ranks = \<lparr>rank_of_bls = [11 \<mapsto> 0, 12 \<mapsto> 1, 13 \<mapsto> 2], vote_pubkey_to_rank = [101 \<mapsto> 0, 102 \<mapsto> 1, 103 \<mapsto> 2],
     sorted_pubkeys =
       [\<lparr>vote_account_pubkey = 101, node_pubkey = 201, bls_pubkey = 11, entry_stake = 50\<rparr>,
        \<lparr>vote_account_pubkey = 102, node_pubkey = 202, bls_pubkey = 12, entry_stake = 30\<rparr>,
        \<lparr>vote_account_pubkey = 103, node_pubkey = 203, bls_pubkey = 13, entry_stake = 20\<rparr>],
     rank_total_stake = 100\<rparr>"

lemma demo_ranks_exact: "exact_rank_map demo_ranks"
  by (simp add: exact_rank_map_def rank_map_wf_def demo_ranks_def u64_max_def)

definition demo_skip_cert :: certificate where
  "demo_skip_cert = \<lparr>cert_type = SkipC 9, cert_signature = 325, cert_bitmap = [3, 1, 0, 2]\<rparr>"



section \<open>Built certificates are accepted\<close>

text \<open>
  The documented behaviour of aggregate signatures. \<open>covers s M\<close> says that the signature \<open>s\<close> aggregates one
  signature for every pair of key and message in \<open>M\<close>: the identity covers nothing, aggregating verified
  signatures adds their pairs, and a signature is verified against the aggregate of the keys of each
  message. The parallel variants compute the same.
\<close>

definition bls_ok :: "crypto_library \<Rightarrow> (bls_signature \<Rightarrow> (bls_pubkey_affine \<times> u8 list) multiset \<Rightarrow> bool) \<Rightarrow> bool" where
  "bls_ok lib covers \<longleftrightarrow> covers (sig_identity lib) {#} \<and>
     (\<forall>s M kps sigs. covers s M \<and> sigs \<noteq> [] \<and>
        list_all2 (\<lambda>(k, p) sg. verify_signature lib k sg p = Inr ()) kps sigs \<longrightarrow>
        (\<exists>s'. aggregate_with lib s sigs = Inr s' \<and> covers s' (M + mset kps))) \<and>
     (\<forall>s ks p. ks \<noteq> [] \<and> covers s (mset (map (\<lambda>k. (k, p)) ks)) \<longrightarrow>
        (\<exists>k. pubkeys_aggregate lib ks = Inr k \<and> verify_signature lib k s p = Inr ())) \<and>
     (\<forall>s ks0 p0 ks1 p1. ks0 \<noteq> [] \<and> ks1 \<noteq> [] \<and>
        covers s (mset (map (\<lambda>k. (k, p0)) ks0) + mset (map (\<lambda>k. (k, p1)) ks1)) \<longrightarrow>
        (\<exists>k0 k1. pubkeys_aggregate lib ks0 = Inr k0 \<and> pubkeys_aggregate lib ks1 = Inr k1 \<and>
          verify_distinct_aggregated lib [k0, k1] s [p0, p1] = Inr ())) \<and>
     pubkeys_par_aggregate lib = pubkeys_aggregate lib \<and>
     par_verify_distinct_aggregated lib = verify_distinct_aggregated lib"

lemma bls_okD:
  assumes "bls_ok lib covers"
  shows "covers s M \<Longrightarrow> sigs \<noteq> [] \<Longrightarrow>
      list_all2 (\<lambda>(k, p) sg. verify_signature lib k sg p = Inr ()) kps sigs \<Longrightarrow>
      \<exists>s'. aggregate_with lib s sigs = Inr s' \<and> covers s' (M + mset kps)"
    and "ks \<noteq> [] \<Longrightarrow> covers s (mset (map (\<lambda>k. (k, p)) ks)) \<Longrightarrow>
      \<exists>k. pubkeys_aggregate lib ks = Inr k \<and> verify_signature lib k s p = Inr ()"
    and "ks0 \<noteq> [] \<Longrightarrow> ks1 \<noteq> [] \<Longrightarrow> covers s (mset (map (\<lambda>k. (k, p0)) ks0) + mset (map (\<lambda>k. (k, p1)) ks1)) \<Longrightarrow>
      \<exists>k0 k1. pubkeys_aggregate lib ks0 = Inr k0 \<and> pubkeys_aggregate lib ks1 = Inr k1 \<and>
        verify_distinct_aggregated lib [k0, k1] s [p0, p1] = Inr ()"
    and "pubkeys_par_aggregate lib = pubkeys_aggregate lib"
    and "par_verify_distinct_aggregated lib = verify_distinct_aggregated lib"
    and "covers (sig_identity lib) {#}"
  using assms unfolding bls_ok_def by simp_all

lemma check_signature_covered:
  assumes "bls_ok lib covers" and "ks \<noteq> []" and "covers s (mset (map (\<lambda>k. (k, p)) ks))"
  shows "check_signature lib ks s p = Inr ()"
proof -
  obtain k where "pubkeys_aggregate lib ks = Inr k" "verify_signature lib k s p = Inr ()"
    using bls_okD(2) [OF assms] by auto
  then show ?thesis by (simp add: check_signature_def aggregate_pubkeys_def bls_okD(4) [OF assms(1)])
qed

lemma check_two_signatures_covered:
  assumes "bls_ok lib covers" and "covers s (mset (map (\<lambda>k. (k, p0)) ks0) + mset (map (\<lambda>k. (k, p1)) ks1))"
    and "ks0 \<noteq> [] \<or> ks1 \<noteq> []"
  shows "check_two_signatures lib ks0 ks1 s p0 p1 = Inr ()"
proof (cases "ks0 = [] \<or> ks1 = []")
  case True
  then show ?thesis
    using assms check_signature_covered [OF assms(1), of ks0 s p0] check_signature_covered [OF assms(1), of ks1 s p1]
    by (auto simp: check_two_signatures_def)
next
  case False
  then obtain k0 k1 where "pubkeys_aggregate lib ks0 = Inr k0" "pubkeys_aggregate lib ks1 = Inr k1"
    "verify_distinct_aggregated lib [k0, k1] s [p0, p1] = Inr ()"
    using bls_okD(3) [OF assms(1) _ _ assms(2)] by auto
  then show ?thesis
    using False by (simp add: check_two_signatures_def aggregate_pubkeys_def bls_okD(4,5) [OF assms(1)])
qed

definition key_payload :: "crypto_library \<Rightarrow> rank_map \<Rightarrow> vote_message \<Rightarrow> bls_pubkey_affine \<times> u8 list" where
  "key_payload lib m msg = (signer_key m (unat (msg_rank msg)), serialize_vote lib (msg_vote msg))"

text \<open>A vote message whose signature the signature verifier has checked.\<close>

definition verified_message :: "crypto_library \<Rightarrow> rank_map \<Rightarrow> vote_message \<Rightarrow> bool" where
  "verified_message lib m msg \<longleftrightarrow>
     verify_signature lib (signer_key m (unat (msg_rank msg))) (msg_signature msg) (serialize_vote lib (msg_vote msg)) = Inr ()"

lemma aggregate_signatures_covered:
  assumes "bls_ok lib covers" and "covers s M" and "\<forall>msgs \<in> set mss. msgs \<noteq> []"
    and "\<forall>msg \<in> set (concat mss). verified_message lib m msg"
  shows "\<exists>sig. aggregate_signatures lib s mss = Some sig \<and> covers sig (M + mset (map (key_payload lib m) (concat mss)))"
  using assms(2-)
proof (induction mss arbitrary: s M)
  case Nil
  then show ?case by (simp add: aggregate_signatures_def)
next
  case (Cons msgs mss)
  have "list_all2 (\<lambda>(k, p) sg. verify_signature lib k sg p = Inr ()) (map (key_payload lib m) msgs) (map msg_signature msgs)"
    using Cons.prems(3) by (auto simp: list_all2_conv_all_nth key_payload_def verified_message_def)
  moreover have "map msg_signature msgs \<noteq> []" using Cons.prems(2) by simp
  ultimately obtain s' where s': "aggregate_with lib s (map msg_signature msgs) = Inr s'"
    and cov: "covers s' (M + mset (map (key_payload lib m) msgs))"
    using bls_okD(1) [OF assms(1) Cons.prems(1)] by blast
  from Cons.IH [OF cov] Cons.prems(2,3) show ?case
    by (simp add: aggregate_signatures_def s' ac_simps)
qed

definition signed_by :: "crypto_library \<Rightarrow> rank_map \<Rightarrow> vote \<Rightarrow> nat set \<Rightarrow> (bls_pubkey_affine \<times> u8 list) multiset" where
  "signed_by lib m v R = image_mset (\<lambda>r. (signer_key m r, serialize_vote lib v)) (mset_set R)"

lemma signed_ones:
  "mset (map (\<lambda>k. (k, serialize_vote lib v)) (map (signer_key m) (iter_ones bs))) = signed_by lib m v (set (iter_ones bs))"
  by (simp add: signed_by_def mset_set_set [OF iter_ones_distinct] image_mset.compositionality comp_def)

lemma signed_group:
  assumes "distinct (ranks msgs)" and "\<forall>msg \<in> set msgs. msg_vote msg = v"
  shows "mset (map (key_payload lib m) msgs) = signed_by lib m v (set (ranks msgs))"
proof -
  have "map (key_payload lib m) msgs = map (\<lambda>r. (signer_key m r, serialize_vote lib v)) (ranks msgs)"
    using assms(2) by (simp add: key_payload_def)
  then show ?thesis by (simp only: signed_by_def mset_set_set [OF assms(1)] mset_map)
qed

lemma signed_empty [simp]: "signed_by lib m v {} = {#}"
  by (simp add: signed_by_def)

text \<open>The votes of the groups are the votes the certificate stands for.\<close>

definition votes_match :: "certificate_type \<Rightarrow> groups \<Rightarrow> bool" where
  "votes_match ct gs \<longleftrightarrow> (\<forall>msg \<in> set (concat (map snd gs)).
     (get_type (msg_vote msg) = get_type (to_source_vote ct) \<longrightarrow> msg_vote msg = to_source_vote ct) \<and>
     (\<forall>v v'. to_source_votes ct = Some (v, v') \<longrightarrow> get_type (msg_vote msg) = get_type v' \<longrightarrow> msg_vote msg = v'))"

definition fallback_signed :: "crypto_library \<Rightarrow> rank_map \<Rightarrow> certificate_type \<Rightarrow> groups \<Rightarrow> (bls_pubkey_affine \<times> u8 list) multiset" where
  "fallback_signed lib m ct gs =
     (case to_source_votes ct of None \<Rightarrow> {#} | Some (_, v) \<Rightarrow> signed_by lib m v (fallback_ranks ct gs))"

lemma signed_groups:
  assumes "contributes ct gs" and "votes_match ct gs"
  shows "mset (map (key_payload lib m) (concat (map snd gs))) =
    signed_by lib m (to_source_vote ct) (primary_ranks ct gs) + fallback_signed lib m ct gs"
proof -
  have group: "mset (map (key_payload lib m) msgs) = signed_by lib m v (set (ranks msgs))"
    if "(get_type v, msgs) \<in> set gs" and "v = to_source_vote ct \<or> (\<exists>u. to_source_votes ct = Some (u, v))" for v msgs
  proof (rule signed_group)
    have "(\<forall>msg \<in> set msgs. get_type (msg_vote msg) = get_type v) \<and> fresh_ranks {} msgs"
      using assms(1) that(1) by (auto simp: contributes_def)
    moreover have "set msgs \<subseteq> set (concat (map snd gs))" using that(1) by force
    ultimately show "distinct (ranks msgs)" "\<forall>msg \<in> set msgs. msg_vote msg = v"
      using assms(2) that(2) by (auto simp: fresh_ranks_def votes_match_def)
  qed
  show ?thesis
  proof (cases "to_source_votes ct")
    case None
    have "map fst gs = [get_type (to_source_vote ct)]"
      using assms(1) source_types(1) [OF None] subseq_short(1) [of "map fst gs"] by (auto simp: contributes_def)
    then obtain msgs where gs: "gs = [(get_type (to_source_vote ct), msgs)]" by (cases gs) auto
    with group [of "to_source_vote ct" msgs] show ?thesis
      by (simp add: fallback_signed_def None primary_ranks_def group_ranks_def)
  next
    case (Some vs)
    obtain v v' where vs: "to_source_votes ct = Some (v, v')" using Some by (cases vs) simp
    have v: "to_source_vote ct = v" and ne: "get_type v \<noteq> get_type v'" "get_type v' \<noteq> get_type v"
      and types: "snd (limits_and_vote_types ct) = [get_type v, get_type v']"
      using source_types(2) [OF vs] by auto
    have "map fst gs = [get_type v] \<or> map fst gs = [get_type v'] \<or> map fst gs = [get_type v, get_type v']"
      using assms(1) types subseq_short(2) [of "map fst gs"] by (auto simp: contributes_def)
    then consider (prim) msgs where "gs = [(get_type v, msgs)]" | (fall) msgs where "gs = [(get_type v', msgs)]"
      | (both) msgs msgs' where "gs = [(get_type v, msgs), (get_type v', msgs')]"
      by (auto simp: map_eq_Cons_conv)
    note cases = this
    note defs = fallback_signed_def vs v ne primary_ranks_def fallback_ranks_def group_ranks_def
    from cases show ?thesis
    proof cases
      case prim
      then show ?thesis using group [of v msgs] v by (simp add: defs)
    next
      case fall
      then show ?thesis using group [of v' msgs] vs by (simp add: defs)
    next
      case both
      then show ?thesis using group [of v msgs] group [of v' msgs'] v vs by (simp add: defs)
    qed
  qed
qed

lemma finite_group_ranks:
  "contributes ct gs \<Longrightarrow> finite (primary_ranks ct gs) \<and> finite (fallback_ranks ct gs)"
  using contributes_within(1,2) within_finite by blast

lemma covered_certificate_verifies:
  assumes m: "exact_rank_map m" and "bls_ok lib covers" and "contributes (cert_type cert) gs"
    and names: "names_signers lib cert (rank_map_len m) (primary_ranks (cert_type cert) gs) (fallback_ranks (cert_type cert) gs)"
    and "within (rank_map_len m) (primary_ranks (cert_type cert) gs \<union> fallback_ranks (cert_type cert) gs)"
    and disj: "primary_ranks (cert_type cert) gs \<inter> fallback_ranks (cert_type cert) gs = {}"
    and cov: "covers (cert_signature cert)
      (signed_by lib m (to_source_vote (cert_type cert)) (primary_ranks (cert_type cert) gs) + fallback_signed lib m (cert_type cert) gs)"
    and "cert_percent (cert_type cert) * unat (rank_total_stake m) \<le>
      100 * stake_sum m (signers m (primary_ranks (cert_type cert) gs \<union> fallback_ranks (cert_type cert) gs))"
  shows "verify_certificate lib cert (rank_map_len m) (rank_total_stake m) (stake_lookup m) = Inr ()"
proof -
  let ?ct = "cert_type cert"
  let ?P = "primary_ranks ?ct gs" and ?F = "fallback_ranks ?ct gs"
  have small: "stake_sum m (signers m (?P \<union> ?F)) < 2 ^ 64"
    using signers_le_total [OF m assms(5)] unsigned_less [of "rank_total_stake m", where ?'a = nat] by simp
  then have acc: "unat (word_of_nat (stake_sum m (signers m (?P \<union> ?F))) :: stake) = stake_sum m (signers m (?P \<union> ?F))"
    by (simp add: unsigned_of_nat take_bit_nat_eq_self)
  show ?thesis
  proof (cases "?F = {}")
    case True
    then obtain bs where dec: "decode lib (cert_bitmap cert) (rank_map_len m) = Inr (Base2 bs)" and bs: "set (iter_ones bs) = ?P"
      using names by (auto simp: names_signers_def split: sum.splits decoded.splits)
    have "iter_ones bs \<noteq> []" using bs True contributes_within(3) [OF assms(3)] by auto
    moreover have "covers (cert_signature cert)
        (mset (map (\<lambda>k. (k, serialize_vote lib (to_source_vote ?ct))) (map (signer_key m) (iter_ones bs))))"
      using cov True by (simp only: signed_ones bs) (simp add: fallback_signed_def split: option.splits prod.splits)
    ultimately have "check_signature lib (map (signer_key m) (iter_ones bs)) (cert_signature cert)
        (serialize_vote lib (to_source_vote ?ct)) = Inr ()"
      by (intro check_signature_covered [OF assms(2)]) simp_all
    then have "verify_single_vote_signature lib (serialize_vote lib (to_source_vote ?ct)) (cert_signature cert) bs (stake_lookup m) 0 =
        Inr (word_of_nat (stake_sum m (signers m (?P \<union> ?F))))"
      using assms(5) acc True by (simp add: single_vote_law [OF m] bs)
    then show ?thesis
      using dec assms(8) acc
      by (cases "to_source_votes ?ct")
        (auto simp: verify_certificate_def get_vote_payloads_sync verify_base2_def verify_base3_def verify_stake_iff)
  next
    case False
    then obtain v v' where vs: "to_source_votes ?ct = Some (v, v')"
      by (cases "to_source_votes ?ct") (auto simp: fallback_ranks_def)
    obtain b0 b1 where dec: "decode lib (cert_bitmap cert) (rank_map_len m) = Inr (Base3 b0 b1)"
      and b: "length b0 = length b1" "set (iter_ones b0) = ?P" "set (iter_ones b1) = ?F"
      using names False by (auto simp: names_signers_def split: sum.splits decoded.splits)
    have "iter_ones b1 \<noteq> []" using b(3) False by auto
    moreover have "covers (cert_signature cert)
        (mset (map (\<lambda>k. (k, serialize_vote lib (to_source_vote ?ct))) (map (signer_key m) (iter_ones b0))) +
         mset (map (\<lambda>k. (k, serialize_vote lib v')) (map (signer_key m) (iter_ones b1))))"
      using cov unfolding signed_ones b by (simp add: fallback_signed_def vs)
    ultimately have "check_two_signatures lib (map (signer_key m) (iter_ones b0)) (map (signer_key m) (iter_ones b1))
        (cert_signature cert) (serialize_vote lib (to_source_vote ?ct)) (serialize_vote lib v') = Inr ()"
      by (intro check_two_signatures_covered [OF assms(2)]) simp_all
    then have "verify_base3 lib (serialize_vote lib (to_source_vote ?ct)) (serialize_vote lib v') (cert_signature cert)
        (cert_bitmap cert) (rank_map_len m) (stake_lookup m) 0 = Inr (word_of_nat (stake_sum m (signers m (?P \<union> ?F))))"
      using assms(5) acc disj b by (simp add: verify_base3_law [OF m dec])
    then show ?thesis
      using assms(8) acc by (simp add: verify_certificate_def get_vote_payloads_sync vs verify_stake_iff)
  qed
qed

lemma built_certificate_verifies:
  assumes "codec_ok lib" and bls: "bls_ok lib covers" and "exact_rank_map m" and "rank_total_stake m \<noteq> 0"
    and "epoch_stakes (cert_slot ct) = Some m" and gs: "contributes ct gs" "votes_match ct gs"
    and "\<forall>msg \<in> set (concat (map snd gs)). verified_message lib m msg"
    and "within (rank_map_len m) (primary_ranks ct gs \<union> fallback_ranks ct gs)"
    and "primary_ranks ct gs \<inter> fallback_ranks ct gs = {}"
    and "cert_percent ct * unat (rank_total_stake m) \<le> 100 * stake_sum m (signers m (primary_ranks ct gs \<union> fallback_ranks ct gs))"
  shows "\<exists>cb cert. foldM (aggregate_unwrap lib) (map snd gs) (new_certificate_builder lib ct) = Some cb \<and>
    certificate_build lib cb = Inr cert \<and> cert_type cert = ct \<and>
    names_signers lib cert (rank_map_len m) (primary_ranks ct gs) (fallback_ranks ct gs) \<and>
    bank_verify_certificate lib epoch_stakes cert = Some (Inr ())"
proof -
  have "\<forall>msgs \<in> set (map snd gs). msgs \<noteq> []" using gs(1) by (auto simp: contributes_def)
  from aggregate_signatures_covered [OF bls bls_okD(6) [OF bls] this assms(8)]
  obtain sig where sig: "aggregate_signatures lib (sig_identity lib) (map snd gs) = Some sig"
    and cov: "covers sig (signed_by lib m (to_source_vote ct) (primary_ranks ct gs) + fallback_signed lib m ct gs)"
    unfolding signed_groups [OF gs] by auto
  obtain cert where cert: "certificate_build lib (finished_builder ct sig (primary_ranks ct gs) (fallback_ranks ct gs)) = Inr cert"
    "cert_type cert = ct" "cert_signature cert = sig"
    "names_signers lib cert (rank_map_len m) (primary_ranks ct gs) (fallback_ranks ct gs)"
    using build_groups [OF assms(1) gs(1) assms(10), of sig] assms(9) by blast
  then have "verify_certificate lib cert (rank_map_len m) (rank_total_stake m) (stake_lookup m) = Inr ()"
    using covered_certificate_verifies [OF assms(3) bls, of cert gs] gs(1) cov assms(9-11) by simp
  then have "bank_verify_certificate lib epoch_stakes cert = Some (Inr ())"
    using assms(4,5) cert(2) by (simp add: bank_verify_certificate_def ensure_def)
  then show ?thesis using aggregate_groups [OF gs(1) sig] cert by blast
qed

definition demo_covers :: "bls_signature \<Rightarrow> (bls_pubkey_affine \<times> u8 list) multiset \<Rightarrow> bool" where
  "demo_covers s M \<longleftrightarrow> s = (\<Sum>(k, p) \<in># M. k * message_weight p)"

lemma demo_bls_ok: "bls_ok demo_library demo_covers"
proof -
  have check: "check b = Inr () \<longleftrightarrow> b" for b by (simp add: check_def)
  have sums: "(\<Sum>k\<leftarrow>ks. k * w) = sum_list ks * w" for ks and w :: nat by (induction ks) (simp_all add: distrib_right)
  have "sum_list sigs = (\<Sum>(k, p)\<leftarrow>kps. k * message_weight p)"
    if "list_all2 (\<lambda>(k, p) sg. sg = k * message_weight p) kps sigs" for kps sigs
    using that by (induction rule: list_all2_induct) auto
  then show ?thesis
    by (auto simp: bls_ok_def demo_library_def demo_covers_def check comp_def case_prod_unfold sums
        sum_mset_sum_list simp flip: mset_map)
qed

end
