(* ===== verification/Block_Finalization.thy ===== *)
theory Block_Finalization
  imports Cert_Verify
begin

text \<open>
  \<open>crates/runtime/runtime/src/validated_block_finalization.rs\<close>: the proof that a block is finalized, a
  fast-finalization certificate or a finalization certificate with the notarization of the block, and its
  way through the footer of a block (\<open>VotesAggregate\<close> and \<open>BlockFinalizationCert\<close> of
  \<open>crates/runtime/entry/src/block_component.rs\<close>).

  \<open>epoch_stakes\<close> is the look-up of the bank. The wire format of the footer is not modelled.
\<close>

section \<open>Model\<close>

record votes_aggregate =
  va_signature :: bls_signature
  va_bitmap :: "u8 list"

record block_final_cert =
  bfc_slot :: slot
  bfc_block_id :: hash
  final_aggregate :: votes_aggregate
  notar_aggregate :: "votes_aggregate option"

definition from_certificate :: "crypto_library \<Rightarrow> certificate \<Rightarrow> votes_aggregate option" where
  "from_certificate lib cert =
     (case compress_signature lib (cert_signature cert) of
        Inl _ \<Rightarrow> None
      | Inr sig \<Rightarrow> Some \<lparr>va_signature = sig, va_bitmap = cert_bitmap cert\<rparr>)"

datatype finalization_cert_error =
    FinalizationBlsError certificate_type bls_error
  | CertificateVerificationFailed certificate_type
  | MissingEpochStakes certificate_type
  | Base3Finalization certificate_type
  | FinalizationDecodeError certificate_type decode_error

datatype finalization_kind =
    FinalizeK (finalize_cert: certificate) (notarize_cert: certificate)
  | FastFinalizeK (fast_finalize_cert: certificate)

record validated_finalization =
  vf_kind :: finalization_kind
  vf_signers :: "pubkey set"

type_synonym epoch_lookup = "slot \<Rightarrow> rank_map option"

definition signers_of :: "rank_map \<Rightarrow> bitvec \<Rightarrow> pubkey set" where
  "signers_of m bs = vote_account_pubkey ` set (List.map_filter (get_pubkey_stake_entry m) (iter_ones bs))"

definition extract_signers ::
    "crypto_library \<Rightarrow> epoch_lookup \<Rightarrow> certificate \<Rightarrow> finalization_cert_error + pubkey set" where
  "extract_signers lib epoch_stakes cert =
     (case epoch_stakes (cert_slot (cert_type cert)) of
        None \<Rightarrow> Inl (MissingEpochStakes (cert_type cert))
      | Some m \<Rightarrow> (case decode lib (cert_bitmap cert) (rank_map_len m) of
          Inl e \<Rightarrow> Inl (FinalizationDecodeError (cert_type cert) e)
        | Inr (Base3 _ _) \<Rightarrow> Inl (Base3Finalization (cert_type cert))
        | Inr (Base2 bs) \<Rightarrow> Inr (signers_of m bs)))"

text \<open>\<^term>\<open>None\<close> is the panic inside \<open>Bank::verify_certificate\<close>.\<close>

definition finalization_verify ::
    "crypto_library \<Rightarrow> epoch_lookup \<Rightarrow> certificate \<Rightarrow> (finalization_cert_error + unit) option" where
  "finalization_verify lib epoch_stakes cert =
     map_option (\<lambda>r. case r of Inl _ \<Rightarrow> Inl (CertificateVerificationFailed (cert_type cert)) | Inr u \<Rightarrow> Inr u)
       (bank_verify_certificate lib epoch_stakes cert)"

definition uncompress ::
    "crypto_library \<Rightarrow> certificate_type \<Rightarrow> votes_aggregate \<Rightarrow> finalization_cert_error + certificate" where
  "uncompress lib ct va =
     (case uncompress_signature lib (va_signature va) of
        Inl e \<Rightarrow> Inl (FinalizationBlsError ct e)
      | Inr sig \<Rightarrow> Inr \<lparr>cert_type = ct, cert_signature = sig, cert_bitmap = va_bitmap va\<rparr>)"

definition try_from_footer ::
    "crypto_library \<Rightarrow> epoch_lookup \<Rightarrow> block_final_cert \<Rightarrow> (finalization_cert_error + validated_finalization) option" where
  "try_from_footer lib epoch_stakes bfc =
     (let block = Block (bfc_slot bfc) (bfc_block_id bfc) in
      case notar_aggregate bfc of
        Some notar \<Rightarrow>
          (case uncompress lib (NotarizeC block) notar of
             Inl e \<Rightarrow> Some (Inl e)
           | Inr notarize \<Rightarrow> (case uncompress lib (FinalizeC (block_slot block)) (final_aggregate bfc) of
               Inl e \<Rightarrow> Some (Inl e)
             | Inr finalize \<Rightarrow> do {
                 v1 \<leftarrow> finalization_verify lib epoch_stakes notarize;
                 (case v1 of Inl e \<Rightarrow> Some (Inl e)
                  | Inr _ \<Rightarrow> do {
                      v2 \<leftarrow> finalization_verify lib epoch_stakes finalize;
                      (case v2 of Inl e \<Rightarrow> Some (Inl e)
                       | Inr _ \<Rightarrow> Some (case extract_signers lib epoch_stakes finalize of
                           Inl e \<Rightarrow> Inl e
                         | Inr s \<Rightarrow> Inr \<lparr>vf_kind = FinalizeK finalize notarize, vf_signers = s\<rparr>))
                    })
               }))
      | None \<Rightarrow>
          (case uncompress lib (FinalizeFastC block) (final_aggregate bfc) of
             Inl e \<Rightarrow> Some (Inl e)
           | Inr fast \<Rightarrow> do {
               v \<leftarrow> finalization_verify lib epoch_stakes fast;
               (case v of Inl e \<Rightarrow> Some (Inl e)
                | Inr _ \<Rightarrow> Some (case extract_signers lib epoch_stakes fast of
                    Inl e \<Rightarrow> Inl e
                  | Inr s \<Rightarrow> Inr \<lparr>vf_kind = FastFinalizeK fast, vf_signers = s\<rparr>))
             }))"

definition from_validated_slow ::
    "crypto_library \<Rightarrow> epoch_lookup \<Rightarrow> certificate \<Rightarrow> certificate \<Rightarrow> validated_finalization option" where
  "from_validated_slow lib epoch_stakes finalize notarize =
     (case extract_signers lib epoch_stakes finalize of
        Inl _ \<Rightarrow> None
      | Inr s \<Rightarrow> Some \<lparr>vf_kind = FinalizeK finalize notarize, vf_signers = s\<rparr>)"

definition from_validated_fast ::
    "crypto_library \<Rightarrow> epoch_lookup \<Rightarrow> certificate \<Rightarrow> validated_finalization option" where
  "from_validated_fast lib epoch_stakes cert =
     (case extract_signers lib epoch_stakes cert of
        Inl _ \<Rightarrow> None
      | Inr s \<Rightarrow> Some \<lparr>vf_kind = FastFinalizeK cert, vf_signers = s\<rparr>)"

definition vf_slot :: "validated_finalization \<Rightarrow> slot" where
  "vf_slot vf =
     (case vf_kind vf of
        FinalizeK finalize _ \<Rightarrow> cert_slot (cert_type finalize)
      | FastFinalizeK cert \<Rightarrow> cert_slot (cert_type cert))"

definition vf_block :: "validated_finalization \<Rightarrow> block option" where
  "vf_block vf =
     (case vf_kind vf of
        FinalizeK _ notarize \<Rightarrow> to_block (cert_type notarize)
      | FastFinalizeK cert \<Rightarrow> to_block (cert_type cert))"

definition is_fast :: "validated_finalization \<Rightarrow> bool" where
  "is_fast vf \<longleftrightarrow> (case vf_kind vf of FastFinalizeK _ \<Rightarrow> True | _ \<Rightarrow> False)"

definition clone_certificates :: "validated_finalization \<Rightarrow> certificate list" where
  "clone_certificates vf =
     (case vf_kind vf of FinalizeK finalize notarize \<Rightarrow> [finalize, notarize] | FastFinalizeK cert \<Rightarrow> [cert])"

definition vote_rewards_input :: "validated_finalization \<Rightarrow> pubkey set \<times> slot" where
  "vote_rewards_input vf = (vf_signers vf, vf_slot vf)"

definition into_parts :: "validated_finalization \<Rightarrow> pubkey set \<times> certificate \<times> certificate option" where
  "into_parts vf =
     (case vf_kind vf of
        FinalizeK finalize notarize \<Rightarrow> (vf_signers vf, finalize, Some notarize)
      | FastFinalizeK cert \<Rightarrow> (vf_signers vf, cert, None))"

definition to_block_final_cert :: "crypto_library \<Rightarrow> validated_finalization \<Rightarrow> block_final_cert option" where
  "to_block_final_cert lib vf =
     (case vf_kind vf of
        FinalizeK finalize notarize \<Rightarrow> do {
          block \<leftarrow> to_block (cert_type notarize);
          final \<leftarrow> from_certificate lib finalize;
          notar \<leftarrow> from_certificate lib notarize;
          Some \<lparr>bfc_slot = cert_slot (cert_type finalize), bfc_block_id = block_hash block,
            final_aggregate = final, notar_aggregate = Some notar\<rparr>
        }
      | FastFinalizeK cert \<Rightarrow> do {
          block \<leftarrow> to_block (cert_type cert);
          final \<leftarrow> from_certificate lib cert;
          Some \<lparr>bfc_slot = block_slot block, bfc_block_id = block_hash block,
            final_aggregate = final, notar_aggregate = None\<rparr>
        })"


section \<open>Valid proofs\<close>

text \<open>
  What the constructors establish: the certificates are of the right types, for one slot, and accepted
  by the bank, and the signers are the validators that signed the finalization.
\<close>

definition valid_finalization :: "crypto_library \<Rightarrow> epoch_lookup \<Rightarrow> validated_finalization \<Rightarrow> bool" where
  "valid_finalization lib epoch_stakes vf \<longleftrightarrow>
     (\<forall>cert \<in> set (clone_certificates vf). bank_verify_certificate lib epoch_stakes cert = Some (Inr ())) \<and>
     (case vf_kind vf of
        FinalizeK finalize notarize \<Rightarrow>
          (\<exists>b. cert_type notarize = NotarizeC b \<and> cert_type finalize = FinalizeC (block_slot b)) \<and>
          extract_signers lib epoch_stakes finalize = Inr (vf_signers vf)
      | FastFinalizeK cert \<Rightarrow>
          (\<exists>b. cert_type cert = FinalizeFastC b) \<and> extract_signers lib epoch_stakes cert = Inr (vf_signers vf))"

lemma finalization_verify_iff:
  "finalization_verify lib E cert = Some (Inr ()) \<longleftrightarrow> bank_verify_certificate lib E cert = Some (Inr ())"
proof (cases "bank_verify_certificate lib E cert")
  case (Some r)
  then show ?thesis by (cases r) (simp_all add: finalization_verify_def)
qed (simp add: finalization_verify_def)

lemma accepted_has_stakes:
  "bank_verify_certificate lib E cert = Some (Inr ()) \<Longrightarrow> \<exists>m. E (cert_slot (cert_type cert)) = Some m"
  by (auto simp: bank_verify_certificate_def split: option.splits)

text \<open>A certificate of one vote type that is accepted has a bitmap of base 2.\<close>

lemma accepted_single_decodes:
  assumes "bank_verify_certificate lib E cert = Some (Inr ())" and "to_source_votes (cert_type cert) = None"
  shows "\<exists>s. extract_signers lib E cert = Inr s"
proof -
  obtain m where m: "E (cert_slot (cert_type cert)) = Some m" using accepted_has_stakes [OF assms(1)] ..
  then have "verify_certificate lib cert (rank_map_len m) (rank_total_stake m) (stake_lookup m) = Inr ()"
    using assms(1) by (simp add: bank_verify_accepts)
  then show ?thesis
    using assms(2) m
    by (auto simp: verify_certificate_def get_vote_payloads_sync verify_base2_def extract_signers_def
        split: sum.splits decoded.splits)
qed

text \<open>One step of the validation of a footer: continue if the certificate is accepted.\<close>

lemma verified_step:
  assumes "(finalization_verify lib E cert \<bind> (\<lambda>v. case v of Inl e \<Rightarrow> Some (Inl e) | Inr _ \<Rightarrow> k)) = Some (Inr x)"
  shows "bank_verify_certificate lib E cert = Some (Inr ()) \<and> k = Some (Inr x)"
proof -
  obtain v where v: "finalization_verify lib E cert = Some v" using assms by (cases "finalization_verify lib E cert") auto
  then have "v = Inr ()" using assms by (cases v) auto
  then show ?thesis using v assms finalization_verify_iff [of lib E cert] by simp
qed

lemma uncompress_fields:
  "uncompress lib ct va = Inr cert \<Longrightarrow> cert_type cert = ct \<and> cert_bitmap cert = va_bitmap va"
  by (auto simp: uncompress_def split: sum.splits)

lemma try_from_footer_valid:
  assumes "try_from_footer lib E bfc = Some (Inr vf)"
  shows "valid_finalization lib E vf \<and> vf_block vf = Some (Block (bfc_slot bfc) (bfc_block_id bfc))"
proof (cases "notar_aggregate bfc")
  case None
  obtain fast where fast: "uncompress lib (FinalizeFastC (Block (bfc_slot bfc) (bfc_block_id bfc))) (final_aggregate bfc) = Inr fast"
    using assms None by (cases "uncompress lib (FinalizeFastC (Block (bfc_slot bfc) (bfc_block_id bfc))) (final_aggregate bfc)")
      (auto simp: try_from_footer_def Let_def)
  note step = verified_step [OF assms [unfolded try_from_footer_def Let_def None option.case fast sum.case]]
  from step show ?thesis
    using uncompress_fields [OF fast] step
    by (auto simp: valid_finalization_def clone_certificates_def vf_block_def split: sum.splits)
next
  case (Some notar)
  let ?b = "Block (bfc_slot bfc) (bfc_block_id bfc)"
  obtain notarize where notarize: "uncompress lib (NotarizeC ?b) notar = Inr notarize"
    using assms Some by (cases "uncompress lib (NotarizeC ?b) notar") (auto simp: try_from_footer_def Let_def)
  obtain finalize where finalize: "uncompress lib (FinalizeC (block_slot ?b)) (final_aggregate bfc) = Inr finalize"
    using assms Some notarize by (cases "uncompress lib (FinalizeC (block_slot ?b)) (final_aggregate bfc)")
      (auto simp: try_from_footer_def Let_def)
  note step = verified_step [OF assms [unfolded try_from_footer_def Let_def Some option.case notarize finalize sum.case]]
  note step2 = verified_step [OF step [THEN conjunct2]]
  from step step2 show ?thesis
    using uncompress_fields [OF notarize] uncompress_fields [OF finalize]
    by (auto simp: valid_finalization_def clone_certificates_def vf_block_def split: sum.splits)
qed


section \<open>Through the footer\<close>

lemma signers_of_within: "within (rank_map_len m) (set (iter_ones bs)) \<Longrightarrow> signers_of m bs = signers m (set (iter_ones bs))"
  by (auto simp: signers_of_def signers_def map_filter_def get_pubkey_stake_entry_def rank_entry_def rank_map_len_def
      within_def image_image)

lemma extracted_signers_quorum:
  assumes "E (cert_slot (cert_type cert)) = Some m" and "exact_rank_map m"
    and "bank_verify_certificate lib E cert = Some (Inr ())" and "extract_signers lib E cert = Inr s"
  shows "cert_percent (cert_type cert) * unat (rank_total_stake m) \<le> 100 * stake_sum m s"
proof -
  have "verify_certificate lib cert (rank_map_len m) (rank_total_stake m) (stake_lookup m) = Inr ()"
    using assms(3) unfolding bank_verify_accepts [of E, OF assms(1)] by simp
  from verify_certificate_quorum [OF assms(2) this] show ?thesis
    using assms(1,4) signers_of_within [of m]
    by (auto simp: extract_signers_def split: sum.splits decoded.splits)
qed

lemma uncompress_from:
  assumes "\<forall>s c. compress_signature lib s = Inr c \<longrightarrow> uncompress_signature lib c = Inr s"
    and "from_certificate lib cert = Some va"
  shows "uncompress lib (cert_type cert) va = Inr cert"
  using assms by (auto simp: from_certificate_def uncompress_def split: sum.splits)

lemma footer_roundtrip:
  assumes "\<forall>s c. compress_signature lib s = Inr c \<longrightarrow> uncompress_signature lib c = Inr s"
    and "valid_finalization lib E vf" and "to_block_final_cert lib vf = Some bfc"
  shows "try_from_footer lib E bfc = Some (Inr vf)"
proof (cases "vf_kind vf")
  case (FinalizeK finalize notarize)
  then obtain b where ct: "cert_type notarize = NotarizeC b" "cert_type finalize = FinalizeC (block_slot b)"
    and ex: "extract_signers lib E finalize = Inr (vf_signers vf)"
    and ok: "finalization_verify lib E finalize = Some (Inr ())" "finalization_verify lib E notarize = Some (Inr ())"
    using assms(2) by (auto simp: valid_finalization_def clone_certificates_def finalization_verify_iff)
  obtain f n where va: "from_certificate lib finalize = Some f" "from_certificate lib notarize = Some n"
    and bfc: "bfc = \<lparr>bfc_slot = block_slot b, bfc_block_id = block_hash b, final_aggregate = f, notar_aggregate = Some n\<rparr>"
    using assms(3) ct by (auto simp: to_block_final_cert_def FinalizeK bind_eq_Some_conv)
  show ?thesis
    using uncompress_from [OF assms(1) va(1)] uncompress_from [OF assms(1) va(2)] ct ok ex FinalizeK
    by (simp add: try_from_footer_def bfc)
next
  case (FastFinalizeK fast)
  then obtain b where ct: "cert_type fast = FinalizeFastC b"
    and ex: "extract_signers lib E fast = Inr (vf_signers vf)"
    and ok: "finalization_verify lib E fast = Some (Inr ())"
    using assms(2) by (auto simp: valid_finalization_def clone_certificates_def finalization_verify_iff)
  obtain f where va: "from_certificate lib fast = Some f"
    and bfc: "bfc = \<lparr>bfc_slot = block_slot b, bfc_block_id = block_hash b, final_aggregate = f, notar_aggregate = None\<rparr>"
    using assms(3) ct by (auto simp: to_block_final_cert_def FastFinalizeK bind_eq_Some_conv)
  show ?thesis
    using uncompress_from [OF assms(1) va] ct ok ex FastFinalizeK by (simp add: try_from_footer_def bfc)
qed

lemma valid_signers_quorum:
  assumes "valid_finalization lib E vf" and "E (vf_slot vf) = Some m" and "exact_rank_map m"
  shows "(if is_fast vf then 80 else 60) * unat (rank_total_stake m) \<le> 100 * stake_sum m (vf_signers vf)"
proof (cases "vf_kind vf")
  case (FinalizeK finalize notarize)
  then show ?thesis
    using assms extracted_signers_quorum [of E finalize m lib "vf_signers vf"]
    by (auto simp: valid_finalization_def clone_certificates_def vf_slot_def is_fast_def)
next
  case (FastFinalizeK fast)
  then show ?thesis
    using assms extracted_signers_quorum [of E fast m lib "vf_signers vf"]
    by (auto simp: valid_finalization_def clone_certificates_def vf_slot_def is_fast_def)
qed

text \<open>
  C25: the footer of a block carries a finalization from node to node. A valid proof written into a footer
  is read back as the same proof by every bank with the same stakes; and whatever a bank accepts from a
  footer, honest or not, is a valid proof for exactly the block the footer names: all its certificates
  verify, and the validators credited with it hold 80% of the stake of the epoch if it is fast and 60% if
  it is slow. The signature library is only assumed to uncompress what it compressed.
\<close>

theorem footer_carries_the_finalization:
  assumes "\<forall>s c. compress_signature lib s = Inr c \<longrightarrow> uncompress_signature lib c = Inr s"
  shows "(valid_finalization lib E vf \<and> to_block_final_cert lib vf = Some bfc \<longrightarrow>
      try_from_footer lib E bfc = Some (Inr vf)) \<and>
    (try_from_footer lib E bfc = Some (Inr vf) \<longrightarrow>
      valid_finalization lib E vf \<and> vf_block vf = Some (Block (bfc_slot bfc) (bfc_block_id bfc)) \<and>
      (\<forall>m. E (vf_slot vf) = Some m \<and> exact_rank_map m \<longrightarrow>
        (if is_fast vf then 80 else 60) * unat (rank_total_stake m) \<le> 100 * stake_sum m (vf_signers vf)))"
  using footer_roundtrip [OF assms, of E vf bfc] try_from_footer_valid [of lib E bfc vf] valid_signers_quorum [of lib E vf]
  by blast

definition demo_fast_cert :: certificate where
  "demo_fast_cert = \<lparr>cert_type = FinalizeFastC (Block 9 7), cert_signature = 253, cert_bitmap = [2, 1, 1, 0]\<rparr>"

definition demo_finalization :: validated_finalization where
  "demo_finalization = \<lparr>vf_kind = FastFinalizeK demo_fast_cert, vf_signers = {101, 102}\<rparr>"

definition demo_footer :: block_final_cert where
  "demo_footer = \<lparr>bfc_slot = 9, bfc_block_id = 7, final_aggregate = \<lparr>va_signature = 253, va_bitmap = [2, 1, 1, 0]\<rparr>,
     notar_aggregate = None\<rparr>"

theorem footer_carries_the_finalization_witness:
  "try_from_footer demo_library (\<lambda>_. Some demo_ranks) demo_footer = Some (Inr demo_finalization) \<and>
   80 * unat (rank_total_stake demo_ranks) \<le> 100 * stake_sum demo_ranks {101, 102}"
proof -
  let ?E = "\<lambda>_ :: slot. Some demo_ranks"
  have dec: "decode demo_library (cert_bitmap demo_fast_cert) (rank_map_len demo_ranks) = Inr (Base2 [True, True, False])"
    by (simp add: demo_library_def demo_decode_def demo_fast_cert_def demo_ranks_def rank_map_len_def)
  have ones: "iter_ones [True, True, False] = [0, 1]" by (simp add: iter_ones_def upt_rec)
  have look: "stake_lookup demo_ranks 0 = Some (50, 11)" "stake_lookup demo_ranks (Suc 0) = Some (30, 12)"
    by (simp_all add: stake_lookup_def get_pubkey_stake_entry_def demo_ranks_def)
  have "verify_base2 demo_library (serialize_vote demo_library (Notarize (Block 9 7))) 253 (cert_bitmap demo_fast_cert)
      (rank_map_len demo_ranks) (stake_lookup demo_ranks) 0 = Inr 80"
    by (simp add: verify_base2_def dec verify_single_vote_signature_def collect_pubkeys_def ones look saturating_add_def
        check_signature_def aggregate_pubkeys_def thread_pool_threshold_def)
      (simp add: demo_library_def check_def message_weight_def)
  moreover have fields: "rank_total_stake demo_ranks = 100" "cert_type demo_fast_cert = FinalizeFastC (Block 9 7)"
    "cert_signature demo_fast_cert = 253" by (simp_all add: demo_ranks_def demo_fast_cert_def)
  ultimately have ok: "bank_verify_certificate demo_library ?E demo_fast_cert = Some (Inr ())"
    by (simp add: bank_verify_certificate_def verify_certificate_def ensure_def verify_stake_iff)
  have "extract_signers demo_library ?E demo_fast_cert = Inr {101, 102}"
    by (simp add: extract_signers_def dec signers_of_def ones map_filter_def get_pubkey_stake_entry_def)
      (simp add: demo_ranks_def)
  then have valid: "valid_finalization demo_library ?E demo_finalization"
    using ok fields by (simp add: valid_finalization_def clone_certificates_def demo_finalization_def)
  have foot: "to_block_final_cert demo_library demo_finalization = Some demo_footer"
    by (simp add: to_block_final_cert_def demo_finalization_def demo_fast_cert_def demo_footer_def from_certificate_def demo_library_def)
  have "\<forall>s c. compress_signature demo_library s = Inr c \<longrightarrow> uncompress_signature demo_library c = Inr s"
    by (simp add: demo_library_def)
  from footer_carries_the_finalization [OF this, of ?E demo_finalization demo_footer] valid foot demo_ranks_exact
  show ?thesis by (simp add: demo_finalization_def is_fast_def)
qed

end
