(* ===== verification/Consensus_Pool.thy ===== *)
theory Consensus_Pool
  imports Vote_Pool Stake_Counters Parent_Ready Migration Block_Finalization
begin

text \<open>
  \<open>crates/consensus/votor/src/consensus_pool.rs\<close>: the pool that counts votes, builds certificates from
  them, takes certificates from other nodes, and turns both into events. It composes the vote pools, the
  slot stake counters, the parent-ready tracker, the certificate builder, the migration status and the
  finalization proofs of the other theories.

  \<open>root_bank\<close> is the part of \<open>Bank\<close> the pool reads. The set of generated certificate types
  (\<open>generated_cert_types.rs\<close>) is shared with the signature verifier, which only reads it. Statistics and
  logging are not modelled.
\<close>

section \<open>Model\<close>

subsection \<open>State\<close>

record root_bank =
  bank_slot :: slot
  bank_epoch_stakes :: epoch_lookup
  bank_get_epoch :: "slot \<Rightarrow> epoch"

datatype add_vote_error =
    ConflictingVoteType vote_type vote_type slot pubkey
  | EpochStakesNotFound epoch
  | UnrootedSlot
  | CertificateError build_error
  | InvalidVoteRank u16

record consensus_pool =
  vote_pools :: "(slot \<times> vote_type, vote_pool) btree"
  completed_certificates :: "(certificate_type, certificate) btree"
  generated_cert_types :: "certificate_type set"
  pool_tracker :: parent_ready_tracker
  highest_finalized_slot_cert :: "validated_finalization option"
  slot_stake_counters_map :: "(slot, slot_stake_counters) btree"
  pool_migration_status :: migration_status
  pending_safe_to_notar :: "block list"
  last_pruned_slot :: slot

definition new_consensus_pool ::
    "root_bank \<Rightarrow> certificate_type set \<Rightarrow> migration_status \<Rightarrow> slot \<times> block \<Rightarrow> consensus_pool" where
  "new_consensus_pool root generated migration initial_parent_ready =
     \<lparr>vote_pools = [], completed_certificates = [], generated_cert_types = generated,
      pool_tracker = new_tracker (bank_slot root) (fst initial_parent_ready) (snd initial_parent_ready),
      highest_finalized_slot_cert = None, slot_stake_counters_map = [],
      pool_migration_status = migration, pending_safe_to_notar = [], last_pruned_slot = 0\<rparr>"

definition has_cert :: "certificate_type set \<Rightarrow> certificate_type \<Rightarrow> bool" where
  "has_cert generated ct \<longleftrightarrow> ct \<in> generated"

definition insert_cert :: "certificate_type \<Rightarrow> certificate_type set \<Rightarrow> certificate_type set" where
  "insert_cert ct generated = insert ct generated"

definition prune_generated :: "slot \<Rightarrow> certificate_type set \<Rightarrow> certificate_type set" where
  "prune_generated root_slot generated = {ct \<in> generated. cert_slot ct \<ge> root_slot}"

subsection \<open>Adding a vote to its pool\<close>

definition get_key_and_stakes ::
    "root_bank \<Rightarrow> slot \<Rightarrow> u16 \<Rightarrow> (add_vote_error + pubkey \<times> stake \<times> stake) option" where
  "get_key_and_stakes bank slot rank =
     (case bank_epoch_stakes bank slot of
        None \<Rightarrow> Some (Inl (EpochStakesNotFound (bank_get_epoch bank slot)))
      | Some m \<Rightarrow> (case get_pubkey_stake_entry m (unat rank) of
          None \<Rightarrow> Some (Inl (InvalidVoteRank rank))
        | Some entry \<Rightarrow> do {
            ensure (entry_stake entry \<noteq> 0);
            ensure (rank_total_stake m \<noteq> 0);
            Some (Inr (vote_account_pubkey entry, entry_stake entry, rank_total_stake m))
          }))"

definition new_vote_pool :: "vote_type \<Rightarrow> vote_pool" where
  "new_vote_pool t =
     (case t of
        NotarizeFallbackT \<Rightarrow> DuplicateBlockVotePool (new_duplicate_pool max_entries_per_pubkey_for_notarize_lite)
      | NotarizeT \<Rightarrow> DuplicateBlockVotePool (new_duplicate_pool max_entries_per_pubkey_for_other_types)
      | _ \<Rightarrow> SimpleVotePool default_simple_vote_pool)"

definition pool_add_vote ::
    "pubkey \<Rightarrow> stake \<Rightarrow> vote_message \<Rightarrow> vote_pool \<Rightarrow> (stake option \<times> vote_pool) option" where
  "pool_add_vote key stake msg vp =
     (case vp of
        SimpleVotePool sp \<Rightarrow> (let (r, sp') = simple_add_vote key stake msg sp in Some (r, SimpleVotePool sp'))
      | DuplicateBlockVotePool dp \<Rightarrow> do {
          (r, dp') \<leftarrow> duplicate_add_vote key stake msg dp;
          Some (r, DuplicateBlockVotePool dp')
        })"

definition update_vote_pool ::
    "vote_message \<Rightarrow> pubkey \<Rightarrow> stake \<Rightarrow> consensus_pool \<Rightarrow> (stake option \<times> consensus_pool) option" where
  "update_vote_pool msg key stake p =
     (let vote_type = get_type (msg_vote msg);
          id = (vote_slot (msg_vote msg), vote_type);
          pool = (case bt_get (vote_pools p) id of None \<Rightarrow> new_vote_pool vote_type | Some vp \<Rightarrow> vp)
      in do {
        (r, pool') \<leftarrow> pool_add_vote key stake msg pool;
        Some (r, p\<lparr>vote_pools := bt_insert id pool' (vote_pools p)\<rparr>)
      })"

definition pool_conflict :: "pubkey \<Rightarrow> hash option \<Rightarrow> vote_pool \<Rightarrow> bool" where
  "pool_conflict key block_id vp =
     (case vp of
        SimpleVotePool sp \<Rightarrow> simple_has_prev_validator_vote key sp
      | DuplicateBlockVotePool dp \<Rightarrow> (case block_id of
          Some h \<Rightarrow> has_prev_validator_vote_for_block key h dp
        | None \<Rightarrow> duplicate_has_prev_validator_vote key dp))"

definition has_conflicting_vote ::
    "slot \<Rightarrow> vote_type \<Rightarrow> pubkey \<Rightarrow> hash option \<Rightarrow> consensus_pool \<Rightarrow> vote_type option" where
  "has_conflicting_vote slot vote_type key block_id p =
     find (\<lambda>t. case bt_get (vote_pools p) (slot, t) of None \<Rightarrow> False | Some vp \<Rightarrow> pool_conflict key block_id vp)
       (conflicting_types vote_type)"

subsection \<open>Certificates\<close>

definition get_notarize_cert :: "slot \<Rightarrow> consensus_pool \<Rightarrow> certificate option" where
  "get_notarize_cert slot p =
     map_option snd (find (\<lambda>(ct, _). case ct of NotarizeC b \<Rightarrow> slot = block_slot b | _ \<Rightarrow> False) (completed_certificates p))"

definition get_finalize_cert :: "slot \<Rightarrow> consensus_pool \<Rightarrow> certificate option" where
  "get_finalize_cert slot p = bt_get (completed_certificates p) (FinalizeC slot)"

definition highest_finalized_slot :: "consensus_pool \<Rightarrow> slot option" where
  "highest_finalized_slot p = map_option vf_slot (highest_finalized_slot_cert p)"

text \<open>\<open>highest_finalized_slot().is_none_or(..)\<close> followed by the assignment, in the slow case.\<close>

definition finalize_slow ::
    "crypto_library \<Rightarrow> root_bank \<Rightarrow> slot \<Rightarrow> certificate \<Rightarrow> certificate \<Rightarrow> consensus_pool \<Rightarrow> consensus_pool option" where
  "finalize_slow lib bank slot finalize notarize p =
     (if (case highest_finalized_slot p of None \<Rightarrow> True | Some s \<Rightarrow> s < slot)
      then do {
        vf \<leftarrow> from_validated_slow lib (bank_epoch_stakes bank) finalize notarize;
        Some (p\<lparr>highest_finalized_slot_cert := Some vf\<rparr>)
      }
      else Some p)"

definition finalize_fast ::
    "crypto_library \<Rightarrow> root_bank \<Rightarrow> slot \<Rightarrow> certificate \<Rightarrow> consensus_pool \<Rightarrow> consensus_pool option" where
  "finalize_fast lib bank slot cert p =
     (if (case highest_finalized_slot p of None \<Rightarrow> True | Some s \<Rightarrow> s \<le> slot)
      then do {
        vf \<leftarrow> from_validated_fast lib (bank_epoch_stakes bank) cert;
        Some (p\<lparr>highest_finalized_slot_cert := Some vf\<rparr>)
      }
      else Some p)"

definition track_block ::
    "block \<Rightarrow> consensus_pool \<Rightarrow> votor_event list \<Rightarrow> (consensus_pool \<times> votor_event list) option" where
  "track_block block p events = do {
     (t, events') \<leftarrow> add_new_notar_fallback_or_stronger block (pool_tracker p) events;
     Some (p\<lparr>pool_tracker := t\<rparr>, events')
   }"

definition track_skip ::
    "slot \<Rightarrow> consensus_pool \<Rightarrow> votor_event list \<Rightarrow> (consensus_pool \<times> votor_event list) option" where
  "track_skip slot p events = do {
     (t, events') \<leftarrow> add_new_skip slot (pool_tracker p) events;
     Some (p\<lparr>pool_tracker := t\<rparr>, events')
   }"

definition insert_certificate ::
    "crypto_library \<Rightarrow> root_bank \<Rightarrow> certificate_type \<Rightarrow> certificate \<Rightarrow> consensus_pool \<Rightarrow> votor_event list \<Rightarrow>
     (consensus_pool \<times> votor_event list) option" where
  "insert_certificate lib bank ct cert p events =
     (let p = p\<lparr>completed_certificates := bt_insert ct cert (completed_certificates p)\<rparr> in
      case ct of
        NotarizeFallbackC block \<Rightarrow> track_block block p (events @ [BlockNotarFallback block])
      | SkipC slot \<Rightarrow> track_skip slot p events
      | NotarizeC block \<Rightarrow> do {
          (p, events) \<leftarrow> track_block block p (events @ [BlockNotarized block]);
          (case get_finalize_cert (block_slot block) p of
             None \<Rightarrow> Some (p, events)
           | Some finalize \<Rightarrow> do {
               p \<leftarrow> finalize_slow lib bank (block_slot block) finalize cert p;
               Some (p, events @ [Finalized block False])
             })
        }
      | FinalizeC slot \<Rightarrow>
          (case get_notarize_cert slot p of
             None \<Rightarrow> Some (p, events)
           | Some notarize \<Rightarrow> do {
               block \<leftarrow> to_block (cert_type notarize);
               p \<leftarrow> finalize_slow lib bank slot cert notarize p;
               Some (p, events @ [Finalized block False])
             })
      | FinalizeFastC block \<Rightarrow> do {
          (p, events) \<leftarrow> track_block block p (events @ [Finalized block True]);
          p \<leftarrow> finalize_fast lib bank (block_slot block) cert p;
          Some (p, events)
        }
      | GenesisC block \<Rightarrow> do {
          ms \<leftarrow> set_genesis_certificate cert (pool_migration_status p);
          track_block block (p\<lparr>pool_migration_status := ms\<rparr>) events
        })"

definition type_stake :: "consensus_pool \<Rightarrow> slot \<Rightarrow> hash option \<Rightarrow> vote_type \<Rightarrow> stake option option" where
  "type_stake p slot block_id t =
     (case bt_get (vote_pools p) (slot, t) of
        None \<Rightarrow> Some None
      | Some (SimpleVotePool sp) \<Rightarrow> Some (Some (simple_total_stake sp))
      | Some (DuplicateBlockVotePool dp) \<Rightarrow> do { h \<leftarrow> block_id; Some (Some (total_stake_by_block_id h dp)) })"

text \<open>\<open>Iterator::sum\<close> adds with wrap-around in release builds.\<close>

definition accumulated_stake :: "consensus_pool \<Rightarrow> slot \<Rightarrow> hash option \<Rightarrow> vote_type list \<Rightarrow> stake option" where
  "accumulated_stake p slot block_id ts =
     foldM (\<lambda>t acc. do { r \<leftarrow> type_stake p slot block_id t; Some (case r of None \<Rightarrow> acc | Some s \<Rightarrow> acc + s) }) ts 0"

definition aggregate_type ::
    "crypto_library \<Rightarrow> consensus_pool \<Rightarrow> slot \<Rightarrow> hash option \<Rightarrow> vote_type \<Rightarrow> certificate_builder \<Rightarrow> certificate_builder option" where
  "aggregate_type lib p slot block_id t cb =
     (case bt_get (vote_pools p) (slot, t) of
        None \<Rightarrow> Some cb
      | Some (SimpleVotePool sp) \<Rightarrow> aggregate_unwrap lib (simple_votes sp) cb
      | Some (DuplicateBlockVotePool dp) \<Rightarrow> do {
          h \<leftarrow> block_id;
          (case duplicate_votes h dp of None \<Rightarrow> Some cb | Some msgs \<Rightarrow> aggregate_unwrap lib msgs cb)
        })"

text \<open>The loop over the certificate types a vote counts for; a build error ends it early.\<close>

fun update_certificates_loop ::
    "crypto_library \<Rightarrow> root_bank \<Rightarrow> slot \<Rightarrow> hash option \<Rightarrow> stake \<Rightarrow> certificate_type list \<Rightarrow>
     consensus_pool \<Rightarrow> votor_event list \<Rightarrow> certificate list \<Rightarrow>
     ((add_vote_error + certificate list) \<times> consensus_pool \<times> votor_event list) option" where
  "update_certificates_loop lib bank slot block_id total_stake [] p events new = Some (Inr new, p, events)"
| "update_certificates_loop lib bank slot block_id total_stake (ct # cts) p events new =
     (if bt_get (completed_certificates p) ct \<noteq> None
      then update_certificates_loop lib bank slot block_id total_stake cts p events new
      else do {
        acc \<leftarrow> accumulated_stake p slot block_id (snd (limits_and_vote_types ct));
        if fraction_less \<lparr>numerator = acc, denominator = total_stake\<rparr> (fst (limits_and_vote_types ct))
        then update_certificates_loop lib bank slot block_id total_stake cts p events new
        else do {
          cb \<leftarrow> foldM (aggregate_type lib p slot block_id) (snd (limits_and_vote_types ct)) (new_certificate_builder lib ct);
          (case certificate_build lib cb of
             Inl e \<Rightarrow> Some (Inl (CertificateError e), p, events)
           | Inr cert \<Rightarrow> do {
               (p', events') \<leftarrow> insert_certificate lib bank ct cert p events;
               update_certificates_loop lib bank slot block_id total_stake cts
                 (p'\<lparr>generated_cert_types := insert_cert ct (generated_cert_types p')\<rparr>) events' (new @ [cert])
             })
        }
      })"

definition update_certificates ::
    "crypto_library \<Rightarrow> root_bank \<Rightarrow> vote \<Rightarrow> hash option \<Rightarrow> stake \<Rightarrow> consensus_pool \<Rightarrow> votor_event list \<Rightarrow>
     ((add_vote_error + certificate list) \<times> consensus_pool \<times> votor_event list) option" where
  "update_certificates lib bank vote block_id total_stake p events =
     update_certificates_loop lib bank (vote_slot vote) block_id total_stake (vote_to_cert_types vote) p events []"

subsection \<open>The operations\<close>

definition expects_block_id :: "vote \<Rightarrow> bool" where
  "expects_block_id v \<longleftrightarrow> (case v of Notarize _ \<Rightarrow> True | NotarizeFallback _ \<Rightarrow> True | Genesis _ \<Rightarrow> True | _ \<Rightarrow> False)"

definition add_vote ::
    "crypto_library \<Rightarrow> root_bank \<Rightarrow> pubkey \<Rightarrow> vote_message \<Rightarrow> consensus_pool \<Rightarrow> votor_event list \<Rightarrow>
     ((add_vote_error + certificate list) \<times> consensus_pool \<times> votor_event list) option" where
  "add_vote lib bank my_vote_pubkey msg p events =
     (let vote = msg_vote msg; slot = vote_slot vote in do {
        r \<leftarrow> get_key_and_stakes bank slot (msg_rank msg);
        (case r of
           Inl e \<Rightarrow> Some (Inl e, p, events)
         | Inr (key, stake, total_stake) \<Rightarrow>
             if slot < bank_slot bank then Some (Inl UnrootedSlot, p, events)
             else do {
               let block_id = vote_block_id vote;
               ensure (block_id = None \<or> expects_block_id vote);
               (case has_conflicting_vote slot (get_type vote) key block_id p of
                  Some t \<Rightarrow> Some (Inl (ConflictingVoteType (get_type vote) t slot key), p, events)
                | None \<Rightarrow> do {
                    (added, p) \<leftarrow> update_vote_pool msg key stake p;
                    (case added of
                       None \<Rightarrow> Some (Inr [], p, events)
                     | Some pool_stake \<Rightarrow> do {
                         let counters = (case bt_get (slot_stake_counters_map p) slot of
                             None \<Rightarrow> new_slot_stake_counters total_stake | Some c \<Rightarrow> c);
                         (c, events, pending) \<leftarrow> counters_add_vote vote pool_stake (my_vote_pubkey = key) events
                           (pending_safe_to_notar p) counters;
                         let p = p\<lparr>slot_stake_counters_map := bt_insert slot c (slot_stake_counters_map p),
                           pending_safe_to_notar := pending\<rparr>;
                         update_certificates lib bank vote block_id total_stake p events
                       })
                  })
             })
      })"

definition add_certificate ::
    "crypto_library \<Rightarrow> root_bank \<Rightarrow> certificate \<Rightarrow> consensus_pool \<Rightarrow> votor_event list \<Rightarrow>
     ((add_vote_error + certificate list) \<times> consensus_pool \<times> votor_event list) option" where
  "add_certificate lib bank cert p events =
     (if cert_slot (cert_type cert) < bank_slot bank then Some (Inl UnrootedSlot, p, events)
      else if bt_get (completed_certificates p) (cert_type cert) \<noteq> None then Some (Inr [], p, events)
      else do {
        (p, events) \<leftarrow> insert_certificate lib bank (cert_type cert) cert p events;
        Some (Inr [cert], p, events)
      })"

text \<open>The order of \<open>Option<Slot>\<close>: \<^term>\<open>None\<close> is below every slot.\<close>

definition option_less :: "slot option \<Rightarrow> slot option \<Rightarrow> bool" where
  "option_less a b \<longleftrightarrow> (case (a, b) of (_, None) \<Rightarrow> False | (None, Some _) \<Rightarrow> True | (Some x, Some y) \<Rightarrow> x < y)"

definition add_message ::
    "crypto_library \<Rightarrow> root_bank \<Rightarrow> pubkey \<Rightarrow> consensus_message \<Rightarrow> consensus_pool \<Rightarrow> votor_event list \<Rightarrow>
     ((add_vote_error + slot option \<times> certificate list) \<times> consensus_pool \<times> votor_event list) option" where
  "add_message lib bank my_vote_pubkey message p events = do {
     (r, p', events') \<leftarrow> (case message of
         VoteM msg \<Rightarrow> add_vote lib bank my_vote_pubkey msg p events
       | CertificateM cert \<Rightarrow> add_certificate lib bank cert p events);
     Some (case r of
         Inl e \<Rightarrow> Inl e
       | Inr certs \<Rightarrow> Inr (if option_less (highest_finalized_slot p) (highest_finalized_slot p')
           then highest_finalized_slot p' else None, certs), p', events')
   }"

definition block_has_notar_fallback_or_stronger :: "block \<Rightarrow> consensus_pool \<Rightarrow> bool" where
  "block_has_notar_fallback_or_stronger block p \<longleftrightarrow> has_notar_fallback_or_stronger block (pool_tracker p)"

definition take_pending_safe_to_notar :: "consensus_pool \<Rightarrow> block list \<times> consensus_pool" where
  "take_pending_safe_to_notar p = (pending_safe_to_notar p, p\<lparr>pending_safe_to_notar := []\<rparr>)"

definition add_to_pending_safe_to_notar :: "block \<Rightarrow> consensus_pool \<Rightarrow> consensus_pool" where
  "add_to_pending_safe_to_notar block p = p\<lparr>pending_safe_to_notar := pending_safe_to_notar p @ [block]\<rparr>"

definition maybe_prune :: "slot \<Rightarrow> consensus_pool \<Rightarrow> consensus_pool" where
  "maybe_prune root_slot p =
     (if last_pruned_slot p \<ge> root_slot then p
      else p\<lparr>completed_certificates := filter (\<lambda>(ct, _). cert_slot ct \<ge> root_slot) (completed_certificates p),
        generated_cert_types := prune_generated root_slot (generated_cert_types p),
        vote_pools := bt_split_off (root_slot, FinalizeT) (vote_pools p),
        slot_stake_counters_map := bt_split_off root_slot (slot_stake_counters_map p),
        pool_tracker := tracker_set_root root_slot (pool_tracker p),
        pending_safe_to_notar := filter (\<lambda>b. block_slot b \<ge> root_slot) (pending_safe_to_notar p),
        last_pruned_slot := root_slot\<rparr>)"

definition get_certs_for_standstill :: "consensus_pool \<Rightarrow> certificate list" where
  "get_certs_for_standstill p =
     (let highest_slot = (case highest_finalized_slot_cert p of None \<Rightarrow> 0 | Some vf \<Rightarrow> vf_slot vf)
      in map snd (filter (\<lambda>(ct, _). cert_slot ct > highest_slot) (completed_certificates p)))"

definition get_highest_finalization_certs :: "consensus_pool \<Rightarrow> validated_finalization option" where
  "get_highest_finalization_certs p = highest_finalized_slot_cert p"

end
