(* ===== verification/Consensus_Pool_Laws.thy ===== *)
theory Consensus_Pool_Laws
  imports Consensus_Pool
begin

text \<open>
  The invariants of the consensus pool: every vote pool is an exact tally of votes of its type and slot,
  no validator is counted for two conflicting votes, and every certificate the pool generated has its
  share of the stake behind it. The tallies come from the locale of \<open>Vote_Pool\<close>; the quorum arithmetic is
  that of sets of validators.
\<close>

section \<open>One vote pool\<close>

definition pool_voters :: "vote_pool \<Rightarrow> hash \<Rightarrow> pubkey set" where
  "pool_voters vp h = (case vp of SimpleVotePool sp \<Rightarrow> prev_voted_validators sp | DuplicateBlockVotePool dp \<Rightarrow> duplicate_counted dp h)"

definition pool_stake :: "vote_pool \<Rightarrow> hash \<Rightarrow> stake" where
  "pool_stake vp h = (case vp of SimpleVotePool sp \<Rightarrow> simple_total_stake sp | DuplicateBlockVotePool dp \<Rightarrow> total_stake_by_block_id h dp)"

definition pool_msgs :: "vote_pool \<Rightarrow> hash \<Rightarrow> vote_message list" where
  "pool_msgs vp h = (case vp of SimpleVotePool sp \<Rightarrow> simple_votes sp | DuplicateBlockVotePool dp \<Rightarrow> duplicate_collected dp h)"

text \<open>The vote types whose pool keeps the blocks apart.\<close>

definition per_block :: "vote_type \<Rightarrow> bool" where
  "per_block t \<longleftrightarrow> t = NotarizeT \<or> t = NotarizeFallbackT"

definition entries_limit :: "vote_type \<Rightarrow> nat" where
  "entries_limit t = (if t = NotarizeT then 1 else 3)"

definition vp_ok :: "rank_map \<Rightarrow> slot \<Rightarrow> vote_type \<Rightarrow> vote_pool \<Rightarrow> bool" where
  "vp_ok m s t vp \<longleftrightarrow>
     (\<forall>h. tallied m (pool_msgs vp h) (pool_stake vp h) (pool_voters vp h) \<and>
       (\<forall>msg \<in> set (pool_msgs vp h). get_type (msg_vote msg) = t \<and> vote_slot (msg_vote msg) = s \<and>
         (per_block t \<longrightarrow> vote_block_id (msg_vote msg) = Some h))) \<and>
     (case vp of
        SimpleVotePool _ \<Rightarrow> \<not> per_block t
      | DuplicateBlockVotePool dp \<Rightarrow> per_block t \<and> within_entries dp \<and> max_entries_per_pubkey dp = entries_limit t \<and>
          (\<forall>h. vote_entries dp h \<noteq> None \<longrightarrow> duplicate_collected dp h \<noteq> []))"

lemma new_vote_pool_ok: "vp_ok m s t (new_vote_pool t)"
  by (cases t)
    (simp_all add: vp_ok_def new_vote_pool_def pool_msgs_def pool_stake_def pool_voters_def per_block_def entries_limit_def
      default_simple_vote_pool_def tallied_empty duplicate_collected_def duplicate_votes_def new_duplicate_pool_def
      total_stake_by_block_id_def duplicate_counted_def has_prev_validator_vote_for_block_def
      max_entries_per_pubkey_for_notarize_lite_def max_entries_per_pubkey_for_other_types_def
      within_entries_new [unfolded new_duplicate_pool_def])

lemma new_vote_pool_voters: "pool_voters (new_vote_pool t) h = {}"
  by (cases t)
    (simp_all add: new_vote_pool_def pool_voters_def default_simple_vote_pool_def duplicate_counted_def new_duplicate_pool_def
      has_prev_validator_vote_for_block_def)

text \<open>
  Adding a vote of the pool's type to the pool: it is counted, for its block if the pool keeps blocks
  apart, unless the validator has used up its votes.
\<close>

definition same_choice :: "vote_type \<Rightarrow> vote_message \<Rightarrow> hash \<Rightarrow> bool" where
  "same_choice t msg h \<longleftrightarrow> \<not> per_block t \<or> h = voted_block msg"

lemma per_block_vote: "per_block (get_type v) \<Longrightarrow> \<exists>h. vote_block_id v = Some h"
  by (cases v) (simp_all add: per_block_def)

lemma simple_pool_add:
  assumes "vp_ok m s t (SimpleVotePool sp)" and m: "exact_rank_map m"
    and e: "get_pubkey_stake_entry m (unat (msg_rank msg)) = Some e"
    and msg: "get_type (msg_vote msg) = t" "vote_slot (msg_vote msg) = s"
    and add: "simple_add_vote (vote_account_pubkey e) (entry_stake e) msg sp = (r, sp')"
  shows "vp_ok m s t (SimpleVotePool sp') \<and>
    pool_voters (SimpleVotePool sp') h = (if r = None then pool_voters (SimpleVotePool sp) h
      else insert (vote_account_pubkey e) (pool_voters (SimpleVotePool sp) h)) \<and>
    (\<forall>x. r = Some x \<longrightarrow> x = pool_stake (SimpleVotePool sp') h)"
proof -
  note defs = pool_msgs_def pool_stake_def pool_voters_def
  have "st.exact_tally m sp" using assms(1) by (simp add: vp_ok_def defs st.exact_tally_def simple_counted_def)
  from st.exact_tally_add [OF m this e add] have "st.exact_tally m sp'" by blast
  moreover have "set (simple_votes sp') \<subseteq> insert msg (set (simple_votes sp))"
    using add by (auto simp: simple_add_vote_def Let_def split: if_splits)
  ultimately have "vp_ok m s t (SimpleVotePool sp')"
    using assms(1) msg by (auto simp: vp_ok_def defs st.exact_tally_def simple_counted_def)
  then show ?thesis using add by (auto simp: defs simple_add_vote_def Let_def split: if_splits)
qed

lemma duplicate_pool_add:
  assumes ok: "vp_ok m s t (DuplicateBlockVotePool dp)" and m: "exact_rank_map m"
    and e: "get_pubkey_stake_entry m (unat (msg_rank msg)) = Some e"
    and msg: "get_type (msg_vote msg) = t" "vote_slot (msg_vote msg) = s"
    and add: "duplicate_add_vote (vote_account_pubkey e) (entry_stake e) msg dp = Some (r, dp')"
  shows "vp_ok m s t (DuplicateBlockVotePool dp') \<and>
    pool_voters (DuplicateBlockVotePool dp') h = (if r = None \<or> h \<noteq> voted_block msg then pool_voters (DuplicateBlockVotePool dp) h
      else insert (vote_account_pubkey e) (pool_voters (DuplicateBlockVotePool dp) h)) \<and>
    (\<forall>x. r = Some x \<longrightarrow> x = pool_stake (DuplicateBlockVotePool dp') (voted_block msg))"
proof -
  note defs = pool_msgs_def pool_stake_def pool_voters_def
  have t: "per_block t" using ok by (simp add: vp_ok_def)
  obtain b where b: "vote_block_id (msg_vote msg) = Some b" using per_block_vote [of "msg_vote msg"] t msg(1) by blast
  have add': "duplicate_add (vote_account_pubkey e) (entry_stake e) msg dp = (r, dp')"
    using add duplicate_add_eq [OF b] by simp
  have vb: "voted_block msg = b" by (simp add: voted_block_def b)
  have tal: "dt.exact_tally m dp" using ok by (simp add: vp_ok_def defs dt.exact_tally_def)
  have tal': "dt.exact_tally m dp'" using dt.exact_tally_add [OF m tal e add'] by blast
  have entries: "within_entries dp'" "max_entries_per_pubkey dp' = entries_limit t"
    using ok within_entries_add [OF _ add] by (simp_all add: vp_ok_def)
  have step: "duplicate_collected dp' h = (if r = None \<or> h \<noteq> b then duplicate_collected dp h else duplicate_collected dp h @ [msg]) \<and>
      duplicate_counted dp' h = (if r = None \<or> h \<noteq> b then duplicate_counted dp h
        else insert (vote_account_pubkey e) (duplicate_counted dp h)) \<and>
      (vote_entries dp' h \<noteq> None \<longrightarrow> vote_entries dp h \<noteq> None \<or> r \<noteq> None \<and> h = b) \<and>
      (\<forall>x. r = Some x \<longrightarrow> x = total_stake_by_block_id b dp')" for h
  proof (cases r)
    case None
    then show ?thesis using dt.refused [OF add' [unfolded None], of h] duplicate_add_refused [OF add' [unfolded None]] by simp
  next
    case (Some x)
    then show ?thesis
      using dt.accepted [OF add' [unfolded Some], of h] duplicate_add_accepted(5) [OF add' [unfolded Some]] vb by auto
  qed
  have old: "get_type (msg_vote x) = t \<and> vote_slot (msg_vote x) = s \<and> vote_block_id (msg_vote x) = Some h"
    if "x \<in> set (duplicate_collected dp h)" for x h using ok that t by (simp add: vp_ok_def defs)
  have msgs: "get_type (msg_vote x) = t \<and> vote_slot (msg_vote x) = s \<and> vote_block_id (msg_vote x) = Some h"
    if "x \<in> set (duplicate_collected dp' h)" for x h
    using that old [of x h] step [of h] msg b by (cases "r = None \<or> h \<noteq> b") auto
  have "duplicate_collected dp' h \<noteq> []" if "vote_entries dp' h \<noteq> None" for h
    using that step [of h] ok by (cases "r = None \<or> h \<noteq> b") (auto simp: vp_ok_def)
  then have "vp_ok m s t (DuplicateBlockVotePool dp')"
    using tal' entries msgs t unfolding vp_ok_def defs dt.exact_tally_def by simp
  then show ?thesis using step by (simp add: defs vb)
qed

lemma pool_add_vote_law:
  assumes ok: "vp_ok m s t vp" and m: "exact_rank_map m"
    and e: "get_pubkey_stake_entry m (unat (msg_rank msg)) = Some e"
    and msg: "get_type (msg_vote msg) = t" "vote_slot (msg_vote msg) = s"
  shows "\<exists>r vp'. pool_add_vote (vote_account_pubkey e) (entry_stake e) msg vp = Some (r, vp') \<and> vp_ok m s t vp' \<and>
    (\<forall>h. pool_voters vp' h = (if r = None \<or> \<not> same_choice t msg h then pool_voters vp h
      else insert (vote_account_pubkey e) (pool_voters vp h))) \<and>
    (\<forall>x. r = Some x \<longrightarrow> x = pool_stake vp' (voted_block msg))"
proof (cases vp)
  case (SimpleVotePool sp)
  obtain r sp' where add: "simple_add_vote (vote_account_pubkey e) (entry_stake e) msg sp = (r, sp')" by fastforce
  have "\<not> per_block t" using ok SimpleVotePool by (simp add: vp_ok_def)
  then show ?thesis
    using simple_pool_add [OF ok [unfolded SimpleVotePool] m e msg add] SimpleVotePool add
    by (auto simp: pool_add_vote_def same_choice_def pool_stake_def)
next
  case (DuplicateBlockVotePool dp)
  have t: "per_block t" using ok DuplicateBlockVotePool by (simp add: vp_ok_def)
  obtain b where b: "vote_block_id (msg_vote msg) = Some b" using per_block_vote [of "msg_vote msg"] t msg(1) by blast
  obtain r dp' where add: "duplicate_add_vote (vote_account_pubkey e) (entry_stake e) msg dp = Some (r, dp')"
    using duplicate_add_eq [OF b] by (metis surj_pair)
  show ?thesis
    using duplicate_pool_add [OF ok [unfolded DuplicateBlockVotePool] m e msg add] DuplicateBlockVotePool add t
    by (auto simp: pool_add_vote_def same_choice_def)
qed


section \<open>All vote pools\<close>

text \<open>\<open>counted_votes p s t h\<close>: the validators counted for a vote of type \<open>t\<close> in slot \<open>s\<close>, for block \<open>h\<close> if there is one.\<close>

definition counted_votes :: "consensus_pool \<Rightarrow> slot \<Rightarrow> vote_type \<Rightarrow> hash \<Rightarrow> pubkey set" where
  "counted_votes p s t h = (case bt_get (vote_pools p) (s, t) of None \<Rightarrow> {} | Some vp \<Rightarrow> pool_voters vp h)"

text \<open>
  Two votes of conflicting types exclude each other; votes for blocks only when they name the same block.
  Genesis votes are left out: \<open>conflicting_types\<close> is not symmetric for them.
\<close>

definition excludes :: "vote_type \<Rightarrow> vote_type \<Rightarrow> hash \<Rightarrow> hash \<Rightarrow> bool" where
  "excludes t1 t2 h1 h2 \<longleftrightarrow> t1 \<noteq> GenesisT \<and> t2 \<noteq> GenesisT \<and> t1 \<in> set (conflicting_types t2) \<and>
     (per_block t1 \<and> per_block t2 \<longrightarrow> h1 = h2)"

definition conflict_free :: "consensus_pool \<Rightarrow> bool" where
  "conflict_free p \<longleftrightarrow> (\<forall>s t1 t2 h1 h2. excludes t1 t2 h1 h2 \<longrightarrow> counted_votes p s t1 h1 \<inter> counted_votes p s t2 h2 = {})"

definition votes_ok :: "epoch_lookup \<Rightarrow> consensus_pool \<Rightarrow> bool" where
  "votes_ok E p \<longleftrightarrow> bt_wf (vote_pools p) \<and> conflict_free p \<and>
     (\<forall>s t vp. bt_get (vote_pools p) (s, t) = Some vp \<longrightarrow>
       (\<exists>m. E s = Some m \<and> exact_rank_map m \<and> rank_total_stake m \<noteq> 0 \<and> vp_ok m s t vp))"

lemma votes_okD:
  assumes "votes_ok E p" and "bt_get (vote_pools p) (s, t) = Some vp"
  obtains m where "E s = Some m" "exact_rank_map m" "rank_total_stake m \<noteq> 0" "vp_ok m s t vp"
  using assms unfolding votes_ok_def by blast

lemma excludes_sym: "excludes t1 t2 h1 h2 \<longleftrightarrow> excludes t2 t1 h2 h1"
  using conflicting_types_symmetric [of t1 t2] by (auto simp: excludes_def)

lemma excludes_irrefl: "\<not> excludes t t h1 h2"
  by (cases t) (simp_all add: excludes_def)

lemma pool_conflict_law:
  assumes "vp_ok m s t vp" and "\<not> pool_conflict k block_id vp"
    and "per_block t \<longrightarrow> block_id = None \<or> block_id = Some h"
  shows "k \<notin> pool_voters vp h"
proof (cases vp)
  case (SimpleVotePool sp)
  then show ?thesis using assms(2) by (simp add: pool_conflict_def pool_voters_def simple_has_prev_validator_vote_def)
next
  case (DuplicateBlockVotePool dp)
  then have "within_entries dp" and "per_block t" using assms(1) by (simp_all add: vp_ok_def)
  then show ?thesis
    using assms(2,3) DuplicateBlockVotePool within_entriesD [of dp k]
    by (cases block_id) (auto simp: pool_conflict_def pool_voters_def duplicate_counted_def choices_def)
qed

lemma no_conflict_law:
  assumes "votes_ok E p" and none: "has_conflicting_vote s t k block_id p = None"
    and t: "t \<noteq> GenesisT" and "per_block t \<longrightarrow> block_id = Some h" and "\<not> per_block t \<longrightarrow> block_id = None"
    and ex: "excludes t1 t h1 h"
  shows "k \<notin> counted_votes p s t1 h1"
proof (cases "bt_get (vote_pools p) (s, t1)")
  case None
  then show ?thesis by (simp add: counted_votes_def)
next
  case (Some vp)
  then obtain m where "vp_ok m s t1 vp" using votes_okD [OF assms(1)] by blast
  moreover have "\<not> pool_conflict k block_id vp"
    using none ex Some by (auto simp: has_conflicting_vote_def excludes_def find_None_iff)
  moreover have "per_block t1 \<longrightarrow> block_id = None \<or> block_id = Some h1"
    using assms(4,5) ex by (auto simp: excludes_def)
  ultimately have "k \<notin> pool_voters vp h1" by (rule pool_conflict_law)
  then show ?thesis using Some by (simp add: counted_votes_def)
qed

lemma block_id_per_block:
  "get_type v \<noteq> GenesisT \<Longrightarrow> vote_block_id v = (if per_block (get_type v) then vote_block_id v else None)"
  by (cases v) (simp_all add: per_block_def)

lemma conflict_free_add:
  assumes ok: "votes_ok E p" and none: "has_conflicting_vote s t k (vote_block_id v) p = None"
    and v: "get_type v = t" "\<And>h. vote_block_id v = Some h \<Longrightarrow> h = b"
    and upd: "\<And>s' t' h. counted_votes p' s' t' h =
      (if s' = s \<and> t' = t \<and> (\<not> per_block t \<or> h = b) then insert k (counted_votes p s' t' h) else counted_votes p s' t' h)"
  shows "conflict_free p'"
proof -
  have fresh: "k \<notin> counted_votes p s t1 h1" if "excludes t1 t h1 h" and "\<not> per_block t \<or> h = b" for t1 h1 h
  proof (rule no_conflict_law [OF ok none])
    show "t \<noteq> GenesisT" using that by (simp add: excludes_def)
    then show "per_block t \<longrightarrow> vote_block_id v = Some h" "\<not> per_block t \<longrightarrow> vote_block_id v = None"
      using that per_block_vote [of v] v block_id_per_block [of v] by auto
  qed (rule that(1))
  have old: "counted_votes p s' t1 h1 \<inter> counted_votes p s' t2 h2 = {}" if "excludes t1 t2 h1 h2" for s' t1 t2 h1 h2
    using ok that by (simp add: votes_ok_def conflict_free_def)
  have "counted_votes p' s' t1 h1 \<inter> counted_votes p' s' t2 h2 = {}" if ex: "excludes t1 t2 h1 h2" for s' t1 t2 h1 h2
  proof -
    have "t1 \<noteq> t2" using ex excludes_irrefl by blast
    then show ?thesis
      using old [OF ex, of s'] fresh [of t1 h1 h2] fresh [of t2 h2 h1] ex excludes_sym [of t1 t2 h1 h2]
      unfolding upd by (auto split: if_splits)
  qed
  then show ?thesis by (simp add: conflict_free_def)
qed

lemma update_vote_pool_law:
  assumes ok: "votes_ok E p" and m: "E (vote_slot (msg_vote msg)) = Some m" "exact_rank_map m" "rank_total_stake m \<noteq> 0"
    and e: "get_pubkey_stake_entry m (unat (msg_rank msg)) = Some e"
    and none: "has_conflicting_vote (vote_slot (msg_vote msg)) (get_type (msg_vote msg)) (vote_account_pubkey e)
      (vote_block_id (msg_vote msg)) p = None"
  shows "\<exists>r vps. update_vote_pool msg (vote_account_pubkey e) (entry_stake e) p = Some (r, p\<lparr>vote_pools := vps\<rparr>) \<and>
    votes_ok E (p\<lparr>vote_pools := vps\<rparr>) \<and>
    (\<forall>s t h. counted_votes (p\<lparr>vote_pools := vps\<rparr>) s t h =
      (if r \<noteq> None \<and> s = vote_slot (msg_vote msg) \<and> t = get_type (msg_vote msg) \<and> (\<not> per_block t \<or> h = voted_block msg)
       then insert (vote_account_pubkey e) (counted_votes p s t h) else counted_votes p s t h)) \<and>
    (\<forall>x. r = Some x \<longrightarrow> unat x =
      stake_sum m (counted_votes (p\<lparr>vote_pools := vps\<rparr>) (vote_slot (msg_vote msg)) (get_type (msg_vote msg)) (voted_block msg)))"
proof -
  let ?s = "vote_slot (msg_vote msg)" and ?t = "get_type (msg_vote msg)"
  define vp where "vp = (case bt_get (vote_pools p) (?s, ?t) of None \<Rightarrow> new_vote_pool ?t | Some vp \<Rightarrow> vp)"
  have wf: "bt_wf (vote_pools p)" using ok by (simp add: votes_ok_def)
  have vp_ok: "vp_ok m ?s ?t vp"
  proof (cases "bt_get (vote_pools p) (?s, ?t)")
    case (Some x)
    then show ?thesis using votes_okD [OF ok Some] m(1) by (metis option.case(2) option.inject vp_def)
  qed (simp add: vp_def new_vote_pool_ok)
  have vp_voters: "pool_voters vp h = counted_votes p ?s ?t h" for h
    by (auto simp: vp_def counted_votes_def new_vote_pool_voters split: option.splits)
  obtain r vp' where add: "pool_add_vote (vote_account_pubkey e) (entry_stake e) msg vp = Some (r, vp')"
    and ok': "vp_ok m ?s ?t vp'"
    and voters: "\<And>h. pool_voters vp' h = (if r = None \<or> \<not> same_choice ?t msg h then pool_voters vp h
      else insert (vote_account_pubkey e) (pool_voters vp h))"
    and stake: "\<And>x. r = Some x \<Longrightarrow> x = pool_stake vp' (voted_block msg)"
    using pool_add_vote_law [OF vp_ok m(2) e] by blast
  define vps where "vps = bt_insert (?s, ?t) vp' (vote_pools p)"
  have get: "bt_get vps = (bt_get (vote_pools p))((?s, ?t) \<mapsto> vp')" by (simp add: vps_def bt_get_insert [OF wf])
  have counted: "counted_votes (p\<lparr>vote_pools := vps\<rparr>) s t h =
      (if r \<noteq> None \<and> s = ?s \<and> t = ?t \<and> (\<not> per_block t \<or> h = voted_block msg)
       then insert (vote_account_pubkey e) (counted_votes p s t h) else counted_votes p s t h)" for s t h
    using voters [of h] vp_voters [of h] by (auto simp: counted_votes_def get same_choice_def)
  have free: "conflict_free (p\<lparr>vote_pools := vps\<rparr>)"
  proof (cases r)
    case None
    then show ?thesis using ok by (simp add: counted conflict_free_def votes_ok_def)
  next
    case (Some x)
    have "\<And>h. vote_block_id (msg_vote msg) = Some h \<Longrightarrow> h = voted_block msg" by (simp add: voted_block_def)
    then show ?thesis by (rule conflict_free_add [OF ok none refl]) (auto simp: counted Some)
  qed
  have "bt_wf vps" using wf by (simp add: vps_def bt_wf_insert)
  then have "votes_ok E (p\<lparr>vote_pools := vps\<rparr>)"
    using ok free ok' m unfolding votes_ok_def by (simp add: get)
  moreover have "update_vote_pool msg (vote_account_pubkey e) (entry_stake e) p = Some (r, p\<lparr>vote_pools := vps\<rparr>)"
    using add by (simp add: update_vote_pool_def vps_def Let_def flip: vp_def)
  moreover have "unat x = stake_sum m (counted_votes (p\<lparr>vote_pools := vps\<rparr>) ?s ?t (voted_block msg))" if "r = Some x" for x
    using stake [OF that] ok' by (simp add: counted_votes_def get vp_ok_def tallied_def)
  ultimately show ?thesis using counted by blast
qed


section \<open>The stake behind a certificate\<close>

definition cert_hash :: "certificate_type \<Rightarrow> hash" where
  "cert_hash ct = (case to_block ct of None \<Rightarrow> 0 | Some b \<Rightarrow> block_hash b)"

definition cert_voters :: "consensus_pool \<Rightarrow> certificate_type \<Rightarrow> pubkey set" where
  "cert_voters p ct = (\<Union>t \<in> set (snd (limits_and_vote_types ct)). counted_votes p (cert_slot ct) t (cert_hash ct))"

text \<open>The block id a vote comes with fits the certificates it counts for.\<close>

definition block_id_fits :: "certificate_type \<Rightarrow> hash option \<Rightarrow> bool" where
  "block_id_fits ct block_id \<longleftrightarrow> (case to_block ct of None \<Rightarrow> True | Some b \<Rightarrow> block_id = Some (block_hash b))"

lemma vote_block_id_fits:
  "ct \<in> set (vote_to_cert_types v) \<Longrightarrow> block_id_fits ct (vote_block_id v) \<and> cert_slot ct = vote_slot v"
  using vote_to_cert_types_sync [of ct v] by (auto simp: block_id_fits_def split: option.splits)

lemma cert_types_per_block:
  "t \<in> set (snd (limits_and_vote_types ct)) \<Longrightarrow> per_block t \<Longrightarrow> block_id_fits ct block_id \<Longrightarrow> block_id = Some (cert_hash ct)"
  by (cases ct) (auto simp: per_block_def block_id_fits_def cert_hash_def)

lemma cert_types_exclude:
  "snd (limits_and_vote_types ct) = [t0, t1] \<Longrightarrow> excludes t0 t1 h h"
  "(\<exists>t0. snd (limits_and_vote_types ct) = [t0]) \<or> (\<exists>t0 t1. snd (limits_and_vote_types ct) = [t0, t1])"
  by (cases ct; auto simp: excludes_def)+

lemma vp_ok_finite: "vp_ok m s t vp \<Longrightarrow> finite (pool_voters vp h)"
  unfolding vp_ok_def by (blast intro: tallied_finite)

lemma counted_finite: "votes_ok E p \<Longrightarrow> finite (counted_votes p s t h)"
  by (cases "bt_get (vote_pools p) (s, t)") (auto simp: counted_votes_def elim!: votes_okD intro: vp_ok_finite)

lemma counted_stake_fits:
  "votes_ok E p \<Longrightarrow> exact_rank_map m \<Longrightarrow> finite K \<Longrightarrow> stake_sum m K < 2 ^ 64"
  using stake_sum_le_total [of m K] unsigned_less [of "rank_total_stake m", where ?'a = nat] by simp

lemma type_stake_law:
  assumes ok: "votes_ok E p" and m: "E s = Some m" and "per_block t \<longrightarrow> block_id = Some h"
  shows "\<exists>r. type_stake p s block_id t = Some r \<and>
    (case r of None \<Rightarrow> 0 | Some x \<Rightarrow> unat x) = stake_sum m (counted_votes p s t h)"
proof (cases "bt_get (vote_pools p) (s, t)")
  case None
  then show ?thesis by (simp add: type_stake_def counted_votes_def)
next
  case (Some vp)
  obtain m' where m': "E s = Some m'" and vp: "vp_ok m' s t vp" using votes_okD [OF ok Some] by blast
  have "m' = m" using m' m by simp
  then have stake: "unat (pool_stake vp h) = stake_sum m (counted_votes p s t h)"
    using vp Some by (simp add: vp_ok_def tallied_def counted_votes_def)
  then show ?thesis
    using Some vp assms(3) by (cases vp) (auto simp: type_stake_def vp_ok_def pool_stake_def)
qed

lemma accumulated_stake_law:
  assumes ok: "votes_ok E p" and m: "E (cert_slot ct) = Some m" "exact_rank_map m" and fit: "block_id_fits ct block_id"
  shows "\<exists>acc. accumulated_stake p (cert_slot ct) block_id (snd (limits_and_vote_types ct)) = Some acc \<and>
    unat acc = stake_sum m (cert_voters p ct)"
proof -
  let ?s = "cert_slot ct" and ?h = "cert_hash ct"
  have law: "\<exists>r. type_stake p ?s block_id t = Some r \<and>
      (case r of None \<Rightarrow> 0 | Some x \<Rightarrow> unat x) = stake_sum m (counted_votes p ?s t ?h)"
    if "t \<in> set (snd (limits_and_vote_types ct))" for t
    using type_stake_law [OF ok m(1), of t block_id ?h] cert_types_per_block [OF that _ fit] by blast
  have fin: "finite (counted_votes p ?s t ?h)" for t by (rule counted_finite [OF ok])
  from cert_types_exclude(2) [of ct] show ?thesis
  proof (elim disjE exE)
    fix t0 assume t: "snd (limits_and_vote_types ct) = [t0]"
    obtain r where "type_stake p ?s block_id t0 = Some r"
      "(case r of None \<Rightarrow> 0 | Some x \<Rightarrow> unat x) = stake_sum m (counted_votes p ?s t0 ?h)" using law [of t0] t by auto
    then show ?thesis by (auto simp: accumulated_stake_def t cert_voters_def split: option.splits)
  next
    fix t0 t1 assume t: "snd (limits_and_vote_types ct) = [t0, t1]"
    obtain r0 where r0: "type_stake p ?s block_id t0 = Some r0"
      "(case r0 of None \<Rightarrow> 0 | Some x \<Rightarrow> unat x) = stake_sum m (counted_votes p ?s t0 ?h)" using law [of t0] t by auto
    obtain r1 where r1: "type_stake p ?s block_id t1 = Some r1"
      "(case r1 of None \<Rightarrow> 0 | Some x \<Rightarrow> unat x) = stake_sum m (counted_votes p ?s t1 ?h)" using law [of t1] t by auto
    have "counted_votes p ?s t0 ?h \<inter> counted_votes p ?s t1 ?h = {}"
      using ok cert_types_exclude(1) [OF t] by (auto simp: votes_ok_def conflict_free_def)
    then have "stake_sum m (cert_voters p ct) = stake_sum m (counted_votes p ?s t0 ?h) + stake_sum m (counted_votes p ?s t1 ?h)"
      using stake_sum_Un [OF fin fin] by (simp add: cert_voters_def t)
    moreover have "stake_sum m (cert_voters p ct) < 2 ^ 64"
      using counted_stake_fits [OF ok m(2), of "cert_voters p ct"] fin by (simp add: cert_voters_def)
    ultimately show ?thesis
      using r0 r1 by (auto simp: accumulated_stake_def t unat_word_ariths split: option.splits)
  qed
qed

text \<open>\<open>has_quorum E p ct\<close>: the counted voters of the certificate have its share of the stake.\<close>

definition has_quorum :: "epoch_lookup \<Rightarrow> consensus_pool \<Rightarrow> certificate_type \<Rightarrow> bool" where
  "has_quorum E p ct \<longleftrightarrow> (\<exists>m. E (cert_slot ct) = Some m \<and> exact_rank_map m \<and> rank_total_stake m \<noteq> 0 \<and>
     cert_percent ct * unat (rank_total_stake m) \<le> 100 * stake_sum m (cert_voters p ct))"

definition pool_safe :: "epoch_lookup \<Rightarrow> consensus_pool \<Rightarrow> bool" where
  "pool_safe E p \<longleftrightarrow> votes_ok E p \<and> (\<forall>ct \<in> generated_cert_types p. has_quorum E p ct)"

lemma has_quorum_mono:
  assumes "votes_ok E p'" and "\<And>t h. counted_votes p (cert_slot ct) t h \<subseteq> counted_votes p' (cert_slot ct) t h"
    and "has_quorum E p ct"
  shows "has_quorum E p' ct"
proof -
  have sub: "cert_voters p ct \<subseteq> cert_voters p' ct" using assms(2) by (auto simp: cert_voters_def)
  have "finite (cert_voters p' ct)" using counted_finite [OF assms(1)] by (simp add: cert_voters_def)
  from stake_sum_mono [OF this sub] assms(3) show ?thesis
    unfolding has_quorum_def by (meson le_trans mult_le_mono2)
qed

lemma votes_ok_cong: "vote_pools p' = vote_pools p \<Longrightarrow> votes_ok E p' \<longleftrightarrow> votes_ok E p"
  by (simp add: votes_ok_def conflict_free_def counted_votes_def)

lemma counted_votes_cong: "vote_pools p' = vote_pools p \<Longrightarrow> counted_votes p' = counted_votes p"
  by (simp add: counted_votes_def fun_eq_iff)

lemma has_quorum_cong: "vote_pools p' = vote_pools p \<Longrightarrow> has_quorum E p' ct \<longleftrightarrow> has_quorum E p ct"
  by (simp add: has_quorum_def cert_voters_def counted_votes_cong [of p' p])


section \<open>The operations keep the pool safe\<close>

lemma finalize_fields:
  "finalize_slow lib bank s fc nc p = Some p' \<Longrightarrow> \<exists>vf. p' = p\<lparr>highest_finalized_slot_cert := vf\<rparr>"
  "finalize_fast lib bank s c p = Some p' \<Longrightarrow> \<exists>vf. p' = p\<lparr>highest_finalized_slot_cert := vf\<rparr>"
  by (auto simp: finalize_slow_def finalize_fast_def bind_eq_Some_conv split: if_splits intro: exI [of _ "highest_finalized_slot_cert p"])

lemma track_fields:
  "track_block b p ev = Some (p', ev') \<Longrightarrow> \<exists>t. p' = p\<lparr>pool_tracker := t\<rparr>"
  "track_skip s p ev = Some (p', ev') \<Longrightarrow> \<exists>t. p' = p\<lparr>pool_tracker := t\<rparr>"
  by (auto simp: track_block_def track_skip_def bind_eq_Some_conv)

text \<open>What \<open>insert_certificate\<close> leaves alone.\<close>

definition certificate_frame :: "consensus_pool \<Rightarrow> consensus_pool \<Rightarrow> bool" where
  "certificate_frame p p' \<longleftrightarrow> vote_pools p' = vote_pools p \<and> generated_cert_types p' = generated_cert_types p \<and>
     slot_stake_counters_map p' = slot_stake_counters_map p \<and> pending_safe_to_notar p' = pending_safe_to_notar p \<and>
     last_pruned_slot p' = last_pruned_slot p"

lemma insert_certificate_frame:
  assumes "insert_certificate lib bank ct cert p ev = Some (p', ev')"
  shows "certificate_frame p p' \<and> completed_certificates p' = bt_insert ct cert (completed_certificates p)"
proof (cases ct)
  case (NotarizeC b)
  then show ?thesis using assms
    by (auto simp: insert_certificate_def certificate_frame_def Let_def bind_eq_Some_conv
        split: option.splits dest!: finalize_fields track_fields)
next
  case (FinalizeC s)
  then show ?thesis using assms
    by (auto simp: insert_certificate_def certificate_frame_def Let_def bind_eq_Some_conv
        split: option.splits dest!: finalize_fields track_fields)
qed (use assms in \<open>auto simp: insert_certificate_def certificate_frame_def Let_def bind_eq_Some_conv
        dest!: finalize_fields track_fields\<close>)

lemma pool_safe_cong:
  assumes "vote_pools p' = vote_pools p" and "generated_cert_types p' = generated_cert_types p" and "pool_safe E p"
  shows "pool_safe E p'"
  using assms votes_ok_cong [of p' p E] has_quorum_cong [of p' p E] by (simp add: pool_safe_def)

lemma frame_safe: "certificate_frame p p' \<Longrightarrow> pool_safe E p \<Longrightarrow> pool_safe E p'"
  by (rule pool_safe_cong [of p' p]) (simp_all add: certificate_frame_def)

lemma update_certificates_safe:
  assumes "update_certificates_loop lib bank s block_id (rank_total_stake m) cts p ev new = Some (r, p', ev')"
    and "pool_safe E p" and m: "E s = Some m" "exact_rank_map m" "rank_total_stake m \<noteq> 0"
    and "\<forall>ct \<in> set cts. block_id_fits ct block_id \<and> cert_slot ct = s"
  shows "pool_safe E p' \<and> vote_pools p' = vote_pools p \<and> generated_cert_types p \<subseteq> generated_cert_types p' \<and>
    slot_stake_counters_map p' = slot_stake_counters_map p \<and> pending_safe_to_notar p' = pending_safe_to_notar p \<and>
    last_pruned_slot p' = last_pruned_slot p"
  using assms(1,2,6)
proof (induction cts arbitrary: p ev new)
  case (Cons ct cts)
  show ?case
  proof (cases "bt_get (completed_certificates p) ct = None")
    case False
    then show ?thesis using Cons by simp
  next
    case True
    have fits: "block_id_fits ct block_id" "cert_slot ct = s" using Cons.prems(3) by simp_all
    have ok: "votes_ok E p" using Cons.prems(2) by (simp add: pool_safe_def)
    obtain acc where acc: "accumulated_stake p s block_id (snd (limits_and_vote_types ct)) = Some acc"
      "unat acc = stake_sum m (cert_voters p ct)"
      using accumulated_stake_law [OF ok, of ct m] m fits by auto
    show ?thesis
    proof (cases "fraction_less \<lparr>numerator = acc, denominator = rank_total_stake m\<rparr> (fst (limits_and_vote_types ct))")
      case less: True
      then show ?thesis using Cons True acc by simp
    next
      case False
      then have quorum: "has_quorum E p ct"
        using m fits(2) acc(2) by (auto simp: has_quorum_def fraction_less_ge fraction_limit)
      obtain cb where cb: "foldM (aggregate_type lib p s block_id) (snd (limits_and_vote_types ct)) (new_certificate_builder lib ct) = Some cb"
        using Cons.prems(1) True acc False by (auto simp: bind_eq_Some_conv)
      show ?thesis
      proof (cases "certificate_build lib cb")
        case (Inl e)
        then show ?thesis using Cons.prems True acc False cb by auto
      next
        case (Inr cert)
        then obtain p1 ev1 where ins: "insert_certificate lib bank ct cert p ev = Some (p1, ev1)"
          using Cons.prems(1) True acc False cb by (auto simp: bind_eq_Some_conv)
        define p2 where "p2 = p1\<lparr>generated_cert_types := insert_cert ct (generated_cert_types p1)\<rparr>"
        have frame: "certificate_frame p p1" using insert_certificate_frame [OF ins] by blast
        have "pool_safe E p2"
          using frame_safe [OF frame Cons.prems(2)] quorum frame
            votes_ok_cong [of p2 p1 E] has_quorum_cong [of p2 p1 E] has_quorum_cong [of p1 p E]
          by (auto simp: p2_def pool_safe_def insert_cert_def certificate_frame_def)
        moreover have "update_certificates_loop lib bank s block_id (rank_total_stake m) cts p2 ev1 (new @ [cert]) = Some (r, p', ev')"
          using Cons.prems(1) True acc False cb Inr ins by (simp add: p2_def)
        ultimately show ?thesis
          using Cons.IH [of p2 ev1 "new @ [cert]"] Cons.prems(3) frame by (auto simp: p2_def certificate_frame_def insert_cert_def)
      qed
    qed
  qed
qed simp

text \<open>
  The stakes of the epochs: every root bank knows some of them, and those it knows do not change. They are
  lamports, so that their sum fits.
\<close>

definition stakes_ok :: "epoch_lookup \<Rightarrow> bool" where
  "stakes_ok E \<longleftrightarrow> (\<forall>s m. E s = Some m \<longrightarrow> exact_rank_map m)"

definition bank_ok :: "epoch_lookup \<Rightarrow> root_bank \<Rightarrow> bool" where
  "bank_ok E bank \<longleftrightarrow> bank_epoch_stakes bank \<subseteq>\<^sub>m E"

lemma bank_okD: "bank_ok E bank \<Longrightarrow> bank_epoch_stakes bank s = Some m \<Longrightarrow> E s = Some m"
  by (auto simp: bank_ok_def map_le_def dom_def)

text \<open>A vote that is neither refused nor from an unknown validator goes through the last two stages.\<close>

definition count_vote ::
    "crypto_library \<Rightarrow> root_bank \<Rightarrow> vote \<Rightarrow> stake \<Rightarrow> bool \<Rightarrow> stake option \<Rightarrow> consensus_pool \<Rightarrow> votor_event list \<Rightarrow>
     ((add_vote_error + certificate list) \<times> consensus_pool \<times> votor_event list) option" where
  "count_vote lib bank vote total_stake own added p events =
     (case added of
        None \<Rightarrow> Some (Inr [], p, events)
      | Some x \<Rightarrow> do {
          let counters = (case bt_get (slot_stake_counters_map p) (vote_slot vote) of
              None \<Rightarrow> new_slot_stake_counters total_stake | Some c \<Rightarrow> c);
          (c, events, pending) \<leftarrow> counters_add_vote vote x own events (pending_safe_to_notar p) counters;
          update_certificates lib bank vote (vote_block_id vote) total_stake
            (p\<lparr>slot_stake_counters_map := bt_insert (vote_slot vote) c (slot_stake_counters_map p),
               pending_safe_to_notar := pending\<rparr>) events
        })"

definition accepted_vote :: "root_bank \<Rightarrow> vote_message \<Rightarrow> consensus_pool \<Rightarrow> rank_map \<Rightarrow> bls_pubkey_stake_entry \<Rightarrow> bool" where
  "accepted_vote bank msg p m e \<longleftrightarrow> bank_epoch_stakes bank (vote_slot (msg_vote msg)) = Some m \<and>
     get_pubkey_stake_entry m (unat (msg_rank msg)) = Some e \<and> rank_total_stake m \<noteq> 0 \<and>
     bank_slot bank \<le> vote_slot (msg_vote msg) \<and>
     has_conflicting_vote (vote_slot (msg_vote msg)) (get_type (msg_vote msg)) (vote_account_pubkey e)
       (vote_block_id (msg_vote msg)) p = None"

lemma expects_block_id_iff: "vote_block_id v = None \<or> expects_block_id v"
  by (cases v) (simp_all add: expects_block_id_def)

lemma add_vote_accepted:
  assumes "accepted_vote bank msg p m e" and "entry_stake e \<noteq> 0"
    and "update_vote_pool msg (vote_account_pubkey e) (entry_stake e) p = Some (added, p1)"
  shows "add_vote lib bank my msg p ev =
    count_vote lib bank (msg_vote msg) (rank_total_stake m) (my = vote_account_pubkey e) added p1 ev"
  using assms expects_block_id_iff [of "msg_vote msg"]
  by (cases added) (simp_all add: add_vote_def accepted_vote_def get_key_and_stakes_def count_vote_def ensure_def Let_def)

lemma add_vote_cases:
  obtains (refused) err where "add_vote lib bank my msg p ev = Some (Inl err, p, ev)"
  | (stakeless) m e where "bank_epoch_stakes bank (vote_slot (msg_vote msg)) = Some m"
      "get_pubkey_stake_entry m (unat (msg_rank msg)) = Some e" "entry_stake e = 0 \<or> rank_total_stake m = 0"
  | (accepted) m e where "accepted_vote bank msg p m e" "entry_stake e \<noteq> 0"
proof (cases "bank_epoch_stakes bank (vote_slot (msg_vote msg))")
  case None
  then show ?thesis using refused by (simp add: add_vote_def get_key_and_stakes_def)
next
  case (Some m)
  note m = this
  show ?thesis
  proof (cases "get_pubkey_stake_entry m (unat (msg_rank msg))")
    case None
    then show ?thesis using m refused by (simp add: add_vote_def get_key_and_stakes_def)
  next
    case (Some e)
    consider "entry_stake e = 0 \<or> rank_total_stake m = 0"
      | "entry_stake e \<noteq> 0" "rank_total_stake m \<noteq> 0" "vote_slot (msg_vote msg) < bank_slot bank"
      | "entry_stake e \<noteq> 0" "rank_total_stake m \<noteq> 0" "bank_slot bank \<le> vote_slot (msg_vote msg)" by fastforce
    then show ?thesis
    proof cases
      case 1
      then show ?thesis using stakeless m Some by blast
    next
      case 2
      then show ?thesis using m Some refused by (simp add: add_vote_def get_key_and_stakes_def ensure_def)
    next
      case 3
      then show ?thesis
        using m Some refused accepted [of m e] expects_block_id_iff [of "msg_vote msg"]
        by (cases "has_conflicting_vote (vote_slot (msg_vote msg)) (get_type (msg_vote msg)) (vote_account_pubkey e)
              (vote_block_id (msg_vote msg)) p")
          (auto simp: add_vote_def get_key_and_stakes_def ensure_def accepted_vote_def Let_def)
    qed
  qed
qed

lemma stakeless_impossible:
  assumes "stakes_ok E" and "bank_ok E bank" and "bank_epoch_stakes bank s = Some m"
    and "get_pubkey_stake_entry m r = Some e"
  shows "entry_stake e \<noteq> 0 \<and> rank_total_stake m \<noteq> 0"
proof -
  have ex: "exact_rank_map m" using assms(1) bank_okD [OF assms(2,3)] by (simp add: stakes_ok_def)
  have mem: "e \<in> set (sorted_pubkeys m)" using assms(4) by (auto simp: get_pubkey_stake_entry_def split: if_splits)
  then have e: "entry_stake e \<noteq> 0" using ex by (auto simp: exact_rank_map_def rank_map_wf_def)
  have "stake_of m (vote_account_pubkey e) \<le> stake_sum m (voters m)"
    unfolding stake_sum_def by (rule member_le_sum) (use mem in \<open>auto simp: voters_def\<close>)
  then have "unat (entry_stake e) \<le> unat (rank_total_stake m)"
    using stake_of_entry [of m e] mem ex exact_total [OF ex] by (simp add: exact_rank_map_def)
  with e show ?thesis by (auto simp: unat_eq_zero)
qed

lemma count_vote_safe:
  assumes "count_vote lib bank v (rank_total_stake m) own added p ev = Some (r, p', ev')" and safe: "pool_safe E p"
    and m: "E (vote_slot v) = Some m" "exact_rank_map m" "rank_total_stake m \<noteq> 0"
  shows "pool_safe E p' \<and> vote_pools p' = vote_pools p \<and> last_pruned_slot p' = last_pruned_slot p"
proof (cases added)
  case None
  then show ?thesis using assms by (simp add: count_vote_def)
next
  case (Some x)
  then obtain c ev1 pending where loop:
    "update_certificates_loop lib bank (vote_slot v) (vote_block_id v) (rank_total_stake m) (vote_to_cert_types v)
      (p\<lparr>slot_stake_counters_map := c, pending_safe_to_notar := pending\<rparr>) ev1 [] = Some (r, p', ev')"
    using assms(1) by (auto simp: count_vote_def update_certificates_def Let_def bind_eq_Some_conv)
  have "pool_safe E (p\<lparr>slot_stake_counters_map := c, pending_safe_to_notar := pending\<rparr>)"
    by (rule pool_safe_cong [OF _ _ safe]) simp_all
  from update_certificates_safe [OF loop this m] vote_block_id_fits [of _ v] show ?thesis by simp
qed

lemma accepted_vote_stages:
  assumes acc: "accepted_vote bank msg p m e" and st: "entry_stake e \<noteq> 0" and E: "stakes_ok E" "bank_ok E bank"
    and safe: "pool_safe E p"
  obtains added vps where
    "\<And>lib my ev. add_vote lib bank my msg p ev =
      count_vote lib bank (msg_vote msg) (rank_total_stake m) (my = vote_account_pubkey e) added (p\<lparr>vote_pools := vps\<rparr>) ev"
    "pool_safe E (p\<lparr>vote_pools := vps\<rparr>)"
    "\<And>s t h. counted_votes (p\<lparr>vote_pools := vps\<rparr>) s t h =
      (if added \<noteq> None \<and> s = vote_slot (msg_vote msg) \<and> t = get_type (msg_vote msg) \<and> (\<not> per_block t \<or> h = voted_block msg)
       then insert (vote_account_pubkey e) (counted_votes p s t h) else counted_votes p s t h)"
    "E (vote_slot (msg_vote msg)) = Some m" "exact_rank_map m" "rank_total_stake m \<noteq> 0"
proof -
  let ?s = "vote_slot (msg_vote msg)"
  have m: "E ?s = Some m" "exact_rank_map m" "rank_total_stake m \<noteq> 0"
    and e: "get_pubkey_stake_entry m (unat (msg_rank msg)) = Some e"
    and none: "has_conflicting_vote ?s (get_type (msg_vote msg)) (vote_account_pubkey e) (vote_block_id (msg_vote msg)) p = None"
    using acc E bank_okD [OF E(2)] by (auto simp: accepted_vote_def stakes_ok_def)
  have ok: "votes_ok E p" using safe by (simp add: pool_safe_def)
  obtain added vps where upd: "update_vote_pool msg (vote_account_pubkey e) (entry_stake e) p = Some (added, p\<lparr>vote_pools := vps\<rparr>)"
    and ok': "votes_ok E (p\<lparr>vote_pools := vps\<rparr>)"
    and counted: "\<forall>s t h. counted_votes (p\<lparr>vote_pools := vps\<rparr>) s t h =
      (if added \<noteq> None \<and> s = ?s \<and> t = get_type (msg_vote msg) \<and> (\<not> per_block t \<or> h = voted_block msg)
       then insert (vote_account_pubkey e) (counted_votes p s t h) else counted_votes p s t h)"
    using update_vote_pool_law [OF ok m e none] by blast
  have "has_quorum E (p\<lparr>vote_pools := vps\<rparr>) ct" if "ct \<in> generated_cert_types p" for ct
    by (rule has_quorum_mono [OF ok']) (use safe that counted in \<open>auto simp: pool_safe_def\<close>)
  then have "pool_safe E (p\<lparr>vote_pools := vps\<rparr>)" using ok' by (simp add: pool_safe_def)
  from that [OF add_vote_accepted [OF acc st upd] this _ m] counted show thesis by simp
qed

lemma add_vote_safe:
  assumes run: "add_vote lib bank my msg p ev = Some (r, p', ev')" and E: "stakes_ok E" "bank_ok E bank"
    and safe: "pool_safe E p"
  shows "pool_safe E p' \<and> last_pruned_slot p' = last_pruned_slot p"
proof (rule add_vote_cases [of lib bank my msg p ev])
  fix m e
  assume acc: "accepted_vote bank msg p m e" and st: "entry_stake e \<noteq> 0"
  obtain added vps where "add_vote lib bank my msg p ev =
      count_vote lib bank (msg_vote msg) (rank_total_stake m) (my = vote_account_pubkey e) added (p\<lparr>vote_pools := vps\<rparr>) ev"
    and safe': "pool_safe E (p\<lparr>vote_pools := vps\<rparr>)"
    and m: "E (vote_slot (msg_vote msg)) = Some m" "exact_rank_map m" "rank_total_stake m \<noteq> 0"
    using accepted_vote_stages [OF acc st E safe] by metis
  from count_vote_safe [OF run [unfolded this(1)] safe' m] show ?thesis by simp
next
  fix err assume "add_vote lib bank my msg p ev = Some (Inl err, p, ev)"
  then show ?thesis using run safe by simp
next
  fix m e assume "bank_epoch_stakes bank (vote_slot (msg_vote msg)) = Some m"
    "get_pubkey_stake_entry m (unat (msg_rank msg)) = Some e" "entry_stake e = 0 \<or> rank_total_stake m = 0"
  then show ?thesis using stakeless_impossible [OF E] by blast
qed

lemma add_certificate_safe:
  assumes "add_certificate lib bank cert p ev = Some (r, p', ev')" and "pool_safe E p"
  shows "pool_safe E p' \<and> last_pruned_slot p' = last_pruned_slot p"
proof (cases "insert_certificate lib bank (cert_type cert) cert p ev")
  case None
  then show ?thesis using assms by (auto simp: add_certificate_def split: if_splits)
next
  case (Some x)
  obtain p1 ev1 where x: "x = (p1, ev1)" by (cases x)
  have frame: "certificate_frame p p1" using insert_certificate_frame [OF Some [unfolded x]] by blast
  have "p' = p \<or> p' = p1" using assms(1) Some x by (auto simp: add_certificate_def split: if_splits)
  then show ?thesis using assms(2) frame_safe [OF frame assms(2)] frame by (auto simp: certificate_frame_def)
qed

lemma add_message_safe:
  assumes "add_message lib bank my message p ev = Some (r, p', ev')" and "stakes_ok E" "bank_ok E bank" and "pool_safe E p"
  shows "pool_safe E p' \<and> last_pruned_slot p' = last_pruned_slot p"
proof (cases message)
  case (VoteM msg)
  then obtain r' where "add_vote lib bank my msg p ev = Some (r', p', ev')"
    using assms(1) by (auto simp: add_message_def bind_eq_Some_conv)
  then show ?thesis by (rule add_vote_safe [OF _ assms(2-4)])
next
  case (CertificateM cert)
  then obtain r' where "add_certificate lib bank cert p ev = Some (r', p', ev')"
    using assms(1) by (auto simp: add_message_def bind_eq_Some_conv)
  then show ?thesis by (rule add_certificate_safe [OF _ assms(4)])
qed

lemma split_off_slots:
  "bt_get (bt_split_off (root, FinalizeT) vps) (s, t) = (if root \<le> s then bt_get vps (s, t) else None)"
proof -
  have "FinalizeT \<le> t" by (simp add: less_eq_vote_type_def)
  then have "(root, FinalizeT) \<le> (s, t) \<longleftrightarrow> root \<le> s" by (auto simp: less_eq_prod_def)
  then show ?thesis by (simp add: bt_get_split_off)
qed

lemma maybe_prune_safe:
  assumes "pool_safe E p"
  shows "pool_safe E (maybe_prune root p)"
proof (cases "last_pruned_slot p \<ge> root")
  case False
  let ?p = "maybe_prune root p"
  have get: "bt_get (vote_pools ?p) (s, t) = (if root \<le> s then bt_get (vote_pools p) (s, t) else None)" for s t
    using False by (simp add: maybe_prune_def split_off_slots)
  have counted: "counted_votes ?p s t h = (if root \<le> s then counted_votes p s t h else {})" for s t h
    by (simp add: counted_votes_def get)
  have old: "votes_ok E p" using assms by (simp add: pool_safe_def)
  then have "conflict_free ?p" by (simp add: votes_ok_def conflict_free_def counted)
  moreover have "bt_wf (vote_pools ?p)" using old False by (simp add: votes_ok_def maybe_prune_def bt_split_off_def)
  ultimately have ok: "votes_ok E ?p" using old by (simp add: votes_ok_def get)
  have gen: "generated_cert_types ?p = {ct \<in> generated_cert_types p. root \<le> cert_slot ct}"
    using False by (simp add: maybe_prune_def prune_generated_def)
  have "has_quorum E ?p ct" if "ct \<in> generated_cert_types ?p" for ct
    by (rule has_quorum_mono [OF ok, of p]) (use that assms in \<open>auto simp: counted gen pool_safe_def\<close>)
  then show ?thesis using ok by (simp add: pool_safe_def)
qed (use assms in \<open>simp add: maybe_prune_def\<close>)

end
