(* ===== verification/Consensus_Pool_Props.thy ===== *)
theory Consensus_Pool_Props
  imports Consensus_Pool_Laws
begin

text \<open>
  What the consensus pool guarantees over all sequences of messages, prunings and look-ups: the
  certificates it generates have their quorums and never contradict each other. The migration status is
  shared with other threads, which may change it between two operations.
\<close>

section \<open>Runs\<close>

definition pool_init :: "epoch_lookup \<Rightarrow> consensus_pool \<Rightarrow> bool" where
  "pool_init E p \<longleftrightarrow> stakes_ok E \<and> (\<exists>bank ms ipr. p = new_consensus_pool bank {} ms ipr)"

inductive pool_step :: "crypto_library \<Rightarrow> epoch_lookup \<Rightarrow> consensus_pool \<Rightarrow> consensus_pool \<Rightarrow> bool"
  for lib E where
  message: "\<lbrakk>bank_ok E bank; add_message lib bank my message p events = Some (r, p', events')\<rbrakk>
    \<Longrightarrow> pool_step lib E p p'"
| prune: "pool_step lib E p (maybe_prune root p)"
| take_pending: "pool_step lib E p (snd (take_pending_safe_to_notar p))"
| return_pending: "pool_step lib E p (add_to_pending_safe_to_notar b p)"
| migrate: "pool_step lib E p (p\<lparr>pool_migration_status := ms\<rparr>)"

definition pool_inv :: "epoch_lookup \<Rightarrow> consensus_pool \<Rightarrow> bool" where
  "pool_inv E p \<longleftrightarrow> stakes_ok E \<and> pool_safe E p"

lemma new_pool_safe: "pool_safe E (new_consensus_pool bank {} ms ipr)"
  by (simp add: pool_safe_def votes_ok_def conflict_free_def counted_votes_def new_consensus_pool_def)

lemma pool_step_inv: "pool_step lib E p p' \<Longrightarrow> pool_inv E p \<Longrightarrow> pool_inv E p'"
proof (induction rule: pool_step.induct)
  case (message bank my message p events r p' events')
  then show ?case using add_message_safe [OF message(2) _ message(1)] by (simp add: pool_inv_def)
next
  case (prune p root)
  then show ?case by (simp add: pool_inv_def maybe_prune_safe)
next
  case (take_pending p)
  then show ?case
    using pool_safe_cong [of "snd (take_pending_safe_to_notar p)" p E] by (simp add: pool_inv_def take_pending_safe_to_notar_def)
next
  case (return_pending p b)
  then show ?case
    using pool_safe_cong [of "add_to_pending_safe_to_notar b p" p E] by (simp add: pool_inv_def add_to_pending_safe_to_notar_def)
next
  case (migrate p ms)
  then show ?case using pool_safe_cong [of "p\<lparr>pool_migration_status := ms\<rparr>" p E] by (simp add: pool_inv_def)
qed

interpretation pool: invariant_system "pool_init E" "pool_step lib E" "pool_inv E" for lib E
  by unfold_locales (auto simp: pool_init_def pool_inv_def new_pool_safe [unfolded pool_inv_def] dest: pool_step_inv)


section \<open>Quorums\<close>

lemma quorums_meet:
  assumes ok: "votes_ok E p" and q: "has_quorum E p c1" "has_quorum E p c2" and "cert_slot c1 = cert_slot c2"
    and "100 < cert_percent c1 + cert_percent c2"
  shows "cert_voters p c1 \<inter> cert_voters p c2 \<noteq> {}"
proof
  assume disj: "cert_voters p c1 \<inter> cert_voters p c2 = {}"
  obtain m where m: "E (cert_slot c1) = Some m" "exact_rank_map m" "rank_total_stake m \<noteq> 0"
    and q1: "cert_percent c1 * unat (rank_total_stake m) \<le> 100 * stake_sum m (cert_voters p c1)"
    and q2: "cert_percent c2 * unat (rank_total_stake m) \<le> 100 * stake_sum m (cert_voters p c2)"
    using q assms(4) by (auto simp: has_quorum_def)
  have fin: "finite (cert_voters p c)" for c using counted_finite [OF ok] by (simp add: cert_voters_def)
  have "stake_sum m (cert_voters p c1) + stake_sum m (cert_voters p c2) \<le> unat (rank_total_stake m)"
    using stake_sum_le_total [OF m(2), of "cert_voters p c1 \<union> cert_voters p c2"] stake_sum_Un [OF fin fin disj, of m] fin by simp
  then have "(cert_percent c1 + cert_percent c2) * unat (rank_total_stake m) \<le> 100 * unat (rank_total_stake m)"
    using q1 q2 by (simp add: distrib_right)
  moreover have "0 < unat (rank_total_stake m)" using m(3) by (simp add: unat_gt_0)
  ultimately show False using assms(5) by simp
qed

text \<open>The blocks one validator is counted for.\<close>

definition voted_blocks :: "consensus_pool \<Rightarrow> slot \<Rightarrow> vote_type \<Rightarrow> pubkey \<Rightarrow> hash set" where
  "voted_blocks p s t k = {h. k \<in> counted_votes p s t h}"

lemma voted_blocks_limit:
  assumes "votes_ok E p" and "per_block t"
  shows "finite (voted_blocks p s t k) \<and> card (voted_blocks p s t k) \<le> entries_limit t"
proof (cases "bt_get (vote_pools p) (s, t)")
  case None
  then show ?thesis by (simp add: voted_blocks_def counted_votes_def)
next
  case (Some vp)
  then obtain m where "vp_ok m s t vp" using votes_okD [OF assms(1)] by blast
  then obtain dp where vp: "vp = DuplicateBlockVotePool dp" and "within_entries dp" "max_entries_per_pubkey dp = entries_limit t"
    using assms(2) by (cases vp) (auto simp: vp_ok_def)
  moreover have "voted_blocks p s t k = choices dp k"
    using Some vp by (simp add: voted_blocks_def counted_votes_def pool_voters_def duplicate_counted_def choices_def)
  ultimately show ?thesis using within_entriesD [of dp k] by simp
qed

lemma notarized_once:
  assumes "votes_ok E p" and "k \<in> counted_votes p s NotarizeT h" and "k \<in> counted_votes p s NotarizeT h'"
  shows "h = h'"
proof -
  have "finite (voted_blocks p s NotarizeT k)" "card (voted_blocks p s NotarizeT k) \<le> 1"
    using voted_blocks_limit [OF assms(1), of NotarizeT s k] by (simp_all add: per_block_def entries_limit_def)
  moreover have "h \<in> voted_blocks p s NotarizeT k" "h' \<in> voted_blocks p s NotarizeT k" using assms by (simp_all add: voted_blocks_def)
  ultimately show ?thesis by (simp add: card_le_Suc0_iff_eq)
qed

definition backers :: "consensus_pool \<Rightarrow> slot \<Rightarrow> hash \<Rightarrow> pubkey set" where
  "backers p s h = counted_votes p s NotarizeT h \<union> counted_votes p s NotarizeFallbackT h"

lemma backed_blocks_bound:
  assumes ok: "votes_ok E p" and m: "exact_rank_map m" "rank_total_stake m \<noteq> 0" and H: "finite H"
    and q: "\<And>h. h \<in> H \<Longrightarrow> 60 * unat (rank_total_stake m) \<le> 100 * stake_sum m (backers p s h)"
  shows "card H \<le> 6"
proof -
  let ?T = "unat (rank_total_stake m)" and ?U = "\<Union>h \<in> H. backers p s h"
  have fin: "finite (backers p s h)" for h using counted_finite [OF ok] by (simp add: backers_def)
  then have finU: "finite ?U" using H by simp
  have few: "card {h \<in> H. k \<in> backers p s h} \<le> 4" for k
  proof -
    have "{h \<in> H. k \<in> backers p s h} \<subseteq> voted_blocks p s NotarizeT k \<union> voted_blocks p s NotarizeFallbackT k"
      by (auto simp: backers_def voted_blocks_def)
    then have "card {h \<in> H. k \<in> backers p s h} \<le> card (voted_blocks p s NotarizeT k \<union> voted_blocks p s NotarizeFallbackT k)"
      using voted_blocks_limit [OF ok] by (intro card_mono) (auto simp: per_block_def)
    also have "\<dots> \<le> 1 + 3"
      using card_Un_le [of "voted_blocks p s NotarizeT k" "voted_blocks p s NotarizeFallbackT k"]
        voted_blocks_limit [OF ok, of NotarizeT s k] voted_blocks_limit [OF ok, of NotarizeFallbackT s k]
      by (simp add: per_block_def entries_limit_def)
    finally show ?thesis by simp
  qed
  have "card H * (60 * ?T) \<le> (\<Sum>h\<in>H. 100 * stake_sum m (backers p s h))"
    using q sum_bounded_below [of H "60 * ?T" "\<lambda>h. 100 * stake_sum m (backers p s h)"] by simp
  also have "\<dots> = 100 * (\<Sum>h\<in>H. \<Sum>k\<in>?U. if k \<in> backers p s h then stake_of m k else 0)"
  proof -
    have "stake_sum m (backers p s h) = (\<Sum>k\<in>?U. if k \<in> backers p s h then stake_of m k else 0)" if "h \<in> H" for h
      unfolding stake_sum_def using finU that by (subst sum.inter_restrict [symmetric]) (auto intro!: sum.cong)
    then show ?thesis by (simp add: sum_distrib_left)
  qed
  also have "\<dots> = 100 * (\<Sum>k\<in>?U. \<Sum>h\<in>H. if k \<in> backers p s h then stake_of m k else 0)" by (subst sum.swap) (rule refl)
  also have "\<dots> = 100 * (\<Sum>k\<in>?U. stake_of m k * card {h \<in> H. k \<in> backers p s h})"
    using H by (simp add: sum.If_cases Int_def mult.commute)
  also have "\<dots> \<le> 100 * (\<Sum>k\<in>?U. stake_of m k * 4)"
    using few by (intro mult_le_mono2 sum_mono) simp
  also have "\<dots> = 400 * stake_sum m ?U" by (simp add: stake_sum_def sum_distrib_right [symmetric])
  also have "\<dots> \<le> 400 * ?T" using stake_sum_le_total [OF m(1) finU] by simp
  finally have "card H * 60 * ?T \<le> 400 * ?T" by simp
  moreover have "0 < ?T" using m(2) by (simp add: unat_gt_0)
  ultimately have "card H * 60 \<le> 400" by simp
  then show ?thesis by simp
qed


section \<open>The certificates of the pool\<close>

text \<open>The blocks a certificate of the pool notarizes.\<close>

definition notarizes :: "consensus_pool \<Rightarrow> block \<Rightarrow> bool" where
  "notarizes p b \<longleftrightarrow> NotarizeC b \<in> generated_cert_types p \<or> FinalizeFastC b \<in> generated_cert_types p"

lemma notarizes_quorum:
  assumes "pool_safe E p" and "notarizes p b"
  shows "has_quorum E p (NotarizeC b)"
proof -
  have "has_quorum E p (NotarizeC b) \<or> has_quorum E p (FinalizeFastC b)"
    using assms by (auto simp: pool_safe_def notarizes_def)
  then show ?thesis
    unfolding has_quorum_def by (auto simp: cert_voters_def cert_hash_def elim!: order.trans [rotated])
qed

lemma notarized_block_unique:
  assumes safe: "pool_safe E p" and n: "notarizes p b" "notarizes p b'" and s: "block_slot b = block_slot b'"
  shows "b = b'"
proof -
  have ok: "votes_ok E p" using safe by (simp add: pool_safe_def)
  have "cert_voters p (NotarizeC b) \<inter> cert_voters p (NotarizeC b') \<noteq> {}"
    using quorums_meet [OF ok notarizes_quorum [OF safe n(1)] notarizes_quorum [OF safe n(2)]] s by simp
  then obtain k where "k \<in> counted_votes p (block_slot b) NotarizeT (block_hash b)"
    "k \<in> counted_votes p (block_slot b) NotarizeT (block_hash b')"
    by (auto simp: cert_voters_def cert_hash_def s)
  then show ?thesis using notarized_once [OF ok] s by (auto intro: block.expand)
qed

lemma excluded_disjoint:
  "votes_ok E p \<Longrightarrow> excludes t1 t2 h1 h2 \<Longrightarrow> counted_votes p s t1 h1 \<inter> counted_votes p s t2 h2 = {}"
  by (simp add: votes_ok_def conflict_free_def)

lemma no_skip_of_finalized:
  assumes safe: "pool_safe E p" and "FinalizeC s \<in> generated_cert_types p"
  shows "SkipC s \<notin> generated_cert_types p"
proof
  assume "SkipC s \<in> generated_cert_types p"
  then have q: "has_quorum E p (FinalizeC s)" "has_quorum E p (SkipC s)" and ok: "votes_ok E p"
    using assms by (auto simp: pool_safe_def)
  have "counted_votes p s t 0 \<inter> counted_votes p s FinalizeT 0 = {}" if "t = SkipT \<or> t = SkipFallbackT" for t
    using that by (intro excluded_disjoint [OF ok]) (auto simp: excludes_def per_block_def)
  then have "cert_voters p (FinalizeC s) \<inter> cert_voters p (SkipC s) = {}" by (auto simp: cert_voters_def cert_hash_def)
  then show False using quorums_meet [OF ok q] by simp
qed

text \<open>The blocks the pool reports to the parent-ready tracker on account of its own certificates.\<close>

definition certifies :: "consensus_pool \<Rightarrow> block \<Rightarrow> bool" where
  "certifies p b \<longleftrightarrow> notarizes p b \<or> NotarizeFallbackC b \<in> generated_cert_types p"

lemma certifies_quorum:
  assumes "pool_safe E p" and "certifies p b"
  shows "\<exists>m. E (block_slot b) = Some m \<and> exact_rank_map m \<and> rank_total_stake m \<noteq> 0 \<and>
    60 * unat (rank_total_stake m) \<le> 100 * stake_sum m (backers p (block_slot b) (block_hash b))"
proof -
  have fin: "finite (backers p (block_slot b) (block_hash b))"
    using assms(1) counted_finite by (auto simp: pool_safe_def backers_def)
  have "has_quorum E p (NotarizeC b) \<or> has_quorum E p (NotarizeFallbackC b)"
    using assms notarizes_quorum by (auto simp: certifies_def pool_safe_def)
  moreover have "stake_sum m (counted_votes p (block_slot b) NotarizeT (block_hash b)) \<le>
      stake_sum m (backers p (block_slot b) (block_hash b))" for m
    using stake_sum_mono [OF fin] by (simp add: backers_def)
  ultimately show ?thesis
    by (fastforce simp: has_quorum_def cert_voters_def cert_hash_def backers_def elim: order.trans)
qed

lemma few_certified_blocks:
  assumes safe: "pool_safe E p" and B: "\<forall>b \<in> B. block_slot b = s \<and> certifies p b" "finite B"
  shows "card B \<le> 6"
proof (cases "B = {}")
  case False
  then obtain b where b: "b \<in> B" by blast
  then have "block_slot b = s" "certifies p b" using B(1) by auto
  then obtain m where m: "E s = Some m" "exact_rank_map m" "rank_total_stake m \<noteq> 0"
    using certifies_quorum [OF safe, of b] by auto
  have inj: "inj_on block_hash B" using B(1) by (auto simp: inj_on_def intro: block.expand)
  have ok: "votes_ok E p" using safe by (simp add: pool_safe_def)
  have "card (block_hash ` B) \<le> 6"
  proof (rule backed_blocks_bound [OF ok m(2,3)])
    fix h assume "h \<in> block_hash ` B"
    then obtain b where b: "b \<in> B" "h = block_hash b" by blast
    then have "block_slot b = s" "certifies p b" using B(1) by auto
    then show "60 * unat (rank_total_stake m) \<le> 100 * stake_sum m (backers p s h)"
      using certifies_quorum [OF safe, of b] b(2) m(1) by auto
  qed (use B(2) in simp)
  then show ?thesis by (simp add: card_image [OF inj])
qed simp


definition demo_bank :: root_bank where
  "demo_bank = \<lparr>bank_slot = 0, bank_epoch_stakes = \<lambda>_. Some demo_ranks, bank_get_epoch = \<lambda>_. 0\<rparr>"

definition demo_pool :: consensus_pool where
  "demo_pool = new_consensus_pool demo_bank {} (new_migration_status PreFeatureActivation) (1, Block 0 0)"

definition demo_skip :: vote_message where
  "demo_skip = \<lparr>msg_vote = Skip 9, msg_signature = 0, msg_rank = 0\<rparr>"

lemma demo_pool_init: "pool_init (\<lambda>_. Some demo_ranks) demo_pool"
  by (auto simp: pool_init_def stakes_ok_def demo_ranks_exact demo_pool_def)


end
