(* ===== verification/Consensus_Pool_Events.thy ===== *)
theory Consensus_Pool_Events
  imports Consensus_Pool_Props Vote_History
begin

text \<open>
  The events the consensus pool emits: which kinds, and for the fallback events \<open>SafeToNotar\<close> and
  \<open>SafeToSkip\<close>, what they say about the first vote of this node.
\<close>

section \<open>Appending events\<close>

definition appends :: "('a \<Rightarrow> bool) \<Rightarrow> 'a list \<Rightarrow> 'a list \<Rightarrow> bool" where
  "appends P xs ys \<longleftrightarrow> (\<exists>new. ys = xs @ new \<and> (\<forall>x \<in> set new. P x))"

lemma appends_refl [simp]: "appends P xs xs"
  by (simp add: appends_def)

lemma appends_snoc [simp]: "appends P xs (xs @ [x]) \<longleftrightarrow> P x"
  by (simp add: appends_def)

lemma appends_before: "appends P (xs @ [x]) ys \<Longrightarrow> P x \<Longrightarrow> appends P xs ys"
  by (auto simp: appends_def)

lemma appends_after: "appends P xs ys \<Longrightarrow> P y \<Longrightarrow> appends P xs (ys @ [y])"
  by (auto simp: appends_def)

lemma appends_trans: "appends P xs ys \<Longrightarrow> appends P ys zs \<Longrightarrow> appends P xs zs"
  by (fastforce simp: appends_def)

lemma appends_mono: "appends P xs ys \<Longrightarrow> (\<And>x. P x \<Longrightarrow> Q x) \<Longrightarrow> appends Q xs ys"
  by (auto simp: appends_def)

lemma appends_set: "appends P xs ys \<Longrightarrow> y \<in> set ys \<Longrightarrow> y \<in> set xs \<or> P y"
  by (auto simp: appends_def)


section \<open>Certificates\<close>

primrec certificate_event :: "votor_event \<Rightarrow> bool" where
  "certificate_event (CompletedBlock _) = False"
| "certificate_event (BlockNotarized _) = True"
| "certificate_event (BlockNotarFallback _) = True"
| "certificate_event (FirstShred _) = False"
| "certificate_event (ParentReady _ _) = True"
| "certificate_event (TimeoutCrashedLeader _) = False"
| "certificate_event (Timeout _) = False"
| "certificate_event (SafeToNotar _) = False"
| "certificate_event (SafeToSkip _) = False"
| "certificate_event (ProduceWindow _) = False"
| "certificate_event (Finalized _ _) = True"
| "certificate_event (Standstill _) = False"
| "certificate_event SetIdentity = False"

lemma add_ready_parent_events:
  "appends certificate_event ev (snd (add_ready_parent s b (st, ev)))"
  by (auto simp: add_ready_parent_def)

lemma add_ready_parents_events:
  "appends certificate_event ev (snd (fold (add_ready_parent s) ps (st, ev)))"
proof (induction ps arbitrary: st ev)
  case (Cons b ps)
  obtain st' ev' where step: "add_ready_parent s b (st, ev) = (st', ev')" by fastforce
  then show ?case
    using Cons.IH [of ev' st'] add_ready_parent_events [of ev s b st] by (auto intro: appends_trans)
qed simp

lemma spread_parent_events:
  assumes "spread_parent b s t ev = Some r"
  shows "appends certificate_event ev (snd r)"
proof (rule spread_parent.raw_induct [where P = "\<lambda>_ _ _ ev r. appends certificate_event ev (snd r)", OF _ assms])
  fix spread b s t ev r
  assume IH: "\<And>b s t ev r. spread b s t ev = Some r \<Longrightarrow> appends certificate_event ev (snd r)"
    and body: "(let st = status_of t s; (st', events') = add_ready_parent s b (st, ev);
      t' = (set_status s st' t)\<lparr>highest_with_parent_ready :=
        (if b \<in> set (parents_ready st) then highest_with_parent_ready t else max s (highest_with_parent_ready t))\<rparr>
      in if pr_skip st then spread b (s + 1) t' events' else Some (t', events')) = Some r"
  obtain st' ev' where step: "add_ready_parent s b (status_of t s, ev) = (st', ev')" by fastforce
  have "appends certificate_event ev ev'" using add_ready_parent_events [of ev s b "status_of t s"] step by simp
  then show "appends certificate_event ev (snd r)"
    using body step by (auto simp: Let_def split: if_splits dest!: IH intro: appends_trans)
qed

lemma connect_slots_events:
  "appends certificate_event ev (snd (fold (connect_slot ps) ss (t, ev)))"
proof (induction ss arbitrary: t ev)
  case (Cons s ss)
  obtain t' ev' where step: "connect_slot ps s (t, ev) = (t', ev')" by fastforce
  then have "appends certificate_event ev ev'"
    using add_ready_parents_events [of ev s ps "status_of t s"] by (auto simp: connect_slot_def Let_def split: prod.splits)
  then show ?case using Cons.IH [of ev' t'] step by (auto intro: appends_trans)
qed simp

lemma track_events:
  "track_block b p ev = Some (p', ev') \<Longrightarrow> appends certificate_event ev ev'"
  "track_skip s p ev = Some (p', ev') \<Longrightarrow> appends certificate_event ev ev'"
proof -
  assume "track_block b p ev = Some (p', ev')"
  then show "appends certificate_event ev ev'"
    by (auto simp: track_block_def add_new_notar_fallback_or_stronger_def Let_def split: if_splits
        elim!: bind_eq_SomeE dest!: spread_parent_events)
next
  assume "track_skip s p ev = Some (p', ev')"
  moreover have "appends certificate_event ev ev'" if "fold (connect_slot ps) ss (t, ev) = (t', ev')" for ps ss t t'
    using connect_slots_events [of ev ps ss t] that by simp
  ultimately show "appends certificate_event ev ev'"
    by (auto simp: track_skip_def add_new_skip_def Let_def split: if_splits option.splits elim!: bind_eq_SomeE)
qed

lemma insert_certificate_events:
  assumes "insert_certificate lib bank ct cert p ev = Some (p', ev')"
  shows "appends certificate_event ev ev'"
proof (cases ct)
  case (NotarizeC b)
  then obtain q ev1 where ev1: "appends certificate_event (ev @ [BlockNotarized b]) ev1"
    and ev': "ev' = ev1 \<or> ev' = ev1 @ [Finalized b False]"
    using assms by (auto simp: insert_certificate_def Let_def split: option.splits elim!: bind_eq_SomeE dest!: track_events)
  have "appends certificate_event ev ev1" by (rule appends_before [OF ev1]) simp
  then show ?thesis using ev' by (auto intro: appends_after)
qed (use assms in \<open>auto simp: insert_certificate_def Let_def split: option.splits elim!: bind_eq_SomeE
      intro: appends_before appends_after dest!: track_events\<close>)

lemma update_certificates_events:
  "update_certificates_loop lib bank s block_id total_stake cts p ev new = Some (r, p', ev') \<Longrightarrow> appends certificate_event ev ev'"
proof (induction cts arbitrary: p ev new)
  case (Cons ct cts)
  then show ?case
    using Cons.IH by (fastforce split: if_splits sum.splits elim!: bind_eq_SomeE dest!: insert_certificate_events intro: appends_trans)
qed simp


section \<open>Fallback events\<close>

text \<open>
  A block may get a fallback vote in slot \<open>n\<close> when the first vote of this node there is known and is
  not for the block itself; the slot may get one when that vote is for some block.
\<close>

definition notar_allowed :: "slot \<Rightarrow> vote option \<Rightarrow> block \<Rightarrow> bool" where
  "notar_allowed n own b \<longleftrightarrow> block_slot b = n \<and>
     (case own of None \<Rightarrow> False | Some (Notarize b') \<Rightarrow> block_hash b' \<noteq> block_hash b | Some _ \<Rightarrow> True)"

definition fallback_event :: "slot \<Rightarrow> vote option \<Rightarrow> votor_event \<Rightarrow> bool" where
  "fallback_event n own e \<longleftrightarrow>
     (case e of
        SafeToNotar b \<Rightarrow> notar_allowed n own b
      | SafeToSkip m \<Rightarrow> m = n \<and> (\<exists>b. own = Some (Notarize b))
      | _ \<Rightarrow> False)"

lemma is_safe_to_notar_allowed:
  "is_safe_to_notar c h x = Some True \<Longrightarrow> my_first_vote c \<noteq> None \<Longrightarrow> notar_allowed n (my_first_vote c) (Block n h)"
  by (auto simp: is_safe_to_notar_def notar_allowed_def split: if_splits option.splits vote.splits)

lemma check_entries_events:
  assumes "foldM (check_entry c n) es (sent, ev, pending) = Some (sent', ev', pending')" and own: "my_first_vote c \<noteq> None"
  shows "appends (fallback_event n (my_first_vote c)) ev ev' \<and> appends (notar_allowed n (my_first_vote c)) pending pending'"
  using assms(1)
proof (induction es arbitrary: sent ev pending)
  case (Cons e es)
  obtain sent1 ev1 pending1 where step: "check_entry c n e (sent, ev, pending) = Some (sent1, ev1, pending1)"
    and rest: "foldM (check_entry c n) es (sent1, ev1, pending1) = Some (sent', ev', pending')"
    using Cons.prems by (auto elim!: bind_eq_SomeE)
  have "appends (fallback_event n (my_first_vote c)) ev ev1 \<and> appends (notar_allowed n (my_first_vote c)) pending pending1"
    using step is_safe_to_notar_allowed [OF _ own]
    by (auto simp: check_entry_def Let_def fallback_event_def split: prod.splits if_splits elim!: bind_eq_SomeE)
  with Cons.IH [OF rest] show ?case by (auto intro: appends_trans)
qed simp

lemma record_stake_first_vote:
  "record_stake v x c = Some c' \<Longrightarrow> is_first_vote v \<and> my_first_vote c' = my_first_vote c"
  by (cases v) (auto simp: record_stake_def Let_def)

lemma counters_add_vote_events:
  assumes "counters_add_vote v x own ev pending c = Some (c', ev', pending')"
  shows "my_first_vote c' = (if my_first_vote c = None \<and> own \<and> is_first_vote v then Some v else my_first_vote c) \<and>
    appends (fallback_event (vote_slot v) (my_first_vote c')) ev ev' \<and>
    appends (notar_allowed (vote_slot v) (my_first_vote c')) pending pending'"
proof (cases "record_stake v x c")
  case None
  then show ?thesis using assms record_stake_first [of v x c] by (simp add: counters_add_vote_def)
next
  case (Some c1)
  note first = record_stake_first_vote [OF Some]
  define c2 where "c2 = (if my_first_vote c1 = None \<and> own then c1\<lparr>my_first_vote := Some v\<rparr> else c1)"
  have c2: "my_first_vote c2 = (if my_first_vote c = None \<and> own \<and> is_first_vote v then Some v else my_first_vote c)"
    using first by (simp add: c2_def)
  show ?thesis
  proof (cases "my_first_vote c2 = None")
    case True
    then show ?thesis using assms Some c2 by (simp add: counters_add_vote_def flip: c2_def)
  next
    case False
    obtain sent ev1 where loop: "foldM (check_entry c2 (vote_slot v)) (notarize_entry_total c2) (safe_to_notar_sent c2, ev, pending) =
        Some (sent, ev1, pending')"
      and res: "(c', ev') = (let c3 = c2\<lparr>safe_to_notar_sent := sent\<rparr> in
        if \<not> safe_to_skip_sent c3 \<and> is_safe_to_skip c3 then (c3\<lparr>safe_to_skip_sent := True\<rparr>, ev1 @ [SafeToSkip (vote_slot v)])
        else (c3, ev1))"
      using assms Some False by (auto simp: counters_add_vote_def Let_def split: if_splits elim!: bind_eq_SomeE simp flip: c2_def)
    have "fallback_event (vote_slot v) (my_first_vote c2) (SafeToSkip (vote_slot v))"
      if "is_safe_to_skip (c2\<lparr>safe_to_notar_sent := sent\<rparr>)"
      using that by (auto simp: is_safe_to_skip_def fallback_event_def split: option.splits vote.splits)
    then show ?thesis
      using check_entries_events [OF loop False] res c2
      by (auto simp: Let_def split: if_splits intro: appends_trans)
  qed
qed


text \<open>The kinds of events the pool emits.\<close>

definition pool_event :: "votor_event \<Rightarrow> bool" where
  "pool_event e \<longleftrightarrow> certificate_event e \<or> (\<exists>n own. fallback_event n own e)"

lemma add_message_events:
  assumes "add_message lib bank my message p ev = Some (r, p', ev')"
  shows "appends pool_event ev ev'"
proof (cases message)
  case (VoteM msg)
  then obtain r' where run: "add_vote lib bank my msg p ev = Some (r', p', ev')"
    using assms by (auto simp: add_message_def elim!: bind_eq_SomeE)
  have count: "appends pool_event ev ev1" if "counters_add_vote v x own ev pending c = Some (c', ev1, pending')"
    for v x own pending c c' ev1 pending'
    using counters_add_vote_events [OF that, THEN conjunct2, THEN conjunct1] by (rule appends_mono) (auto simp: pool_event_def)
  have certs: "appends pool_event ev1 ev'" if "update_certificates lib bank v h total_stake q ev1 = Some (r', p', ev')"
    for v h total_stake q ev1
    using update_certificates_events [OF that [unfolded update_certificates_def]] by (rule appends_mono) (simp add: pool_event_def)
  show ?thesis
    using run by (auto simp: add_vote_def Let_def split: sum.splits option.splits if_splits elim!: bind_eq_SomeE
        dest!: count certs) (rule appends_trans, assumption, assumption)+
next
  case (CertificateM cert)
  then obtain r' where "add_certificate lib bank cert p ev = Some (r', p', ev')"
    using assms by (auto simp: add_message_def elim!: bind_eq_SomeE)
  then show ?thesis
    by (auto simp: add_certificate_def pool_event_def split: if_splits elim!: bind_eq_SomeE
        dest!: insert_certificate_events intro: appends_mono)
qed


section \<open>The votes of this node\<close>

text \<open>
  \<open>V\<close> is a set of votes of this node that contains all its votes the pool has counted. The fallback
  events and the blocks set aside for one are backed by the first vote in \<open>V\<close> for their slot.
\<close>

definition own_first_vote :: "vote set \<Rightarrow> slot \<Rightarrow> vote option \<Rightarrow> bool" where
  "own_first_vote V n own \<longleftrightarrow> (\<forall>v. own = Some v \<longrightarrow> v \<in> V \<and> is_first_vote v \<and> vote_slot v = n)"

definition notar_backed :: "vote set \<Rightarrow> block \<Rightarrow> bool" where
  "notar_backed V b \<longleftrightarrow> (\<exists>v \<in> V. is_first_vote v \<and> vote_slot v = block_slot b \<and> v \<noteq> Notarize b)"

definition event_backed :: "vote set \<Rightarrow> votor_event \<Rightarrow> bool" where
  "event_backed V e \<longleftrightarrow>
     (case e of
        SafeToNotar b \<Rightarrow> notar_backed V b
      | SafeToSkip n \<Rightarrow> (\<exists>b. Notarize b \<in> V \<and> block_slot b = n)
      | _ \<Rightarrow> True)"

definition own_counted :: "vote set \<Rightarrow> pubkey \<Rightarrow> consensus_pool \<Rightarrow> bool" where
  "own_counted V my p \<longleftrightarrow> (\<forall>n t h. my \<in> counted_votes p n t h \<longrightarrow>
     (\<exists>v \<in> V. vote_slot v = n \<and> get_type v = t \<and> (per_block t \<longrightarrow> vote_block_id v = Some h)))"

definition pool_backed :: "vote set \<Rightarrow> pubkey \<Rightarrow> consensus_pool \<Rightarrow> bool" where
  "pool_backed V my p \<longleftrightarrow> bt_wf (slot_stake_counters_map p) \<and>
     (\<forall>n c. bt_get (slot_stake_counters_map p) n = Some c \<longrightarrow> own_first_vote V n (my_first_vote c)) \<and>
     (\<forall>b \<in> set (pending_safe_to_notar p). notar_backed V b) \<and> own_counted V my p"

text \<open>The votes that count for this node are votes of this node.\<close>

definition own_message_in :: "vote set \<Rightarrow> pubkey \<Rightarrow> root_bank \<Rightarrow> consensus_message \<Rightarrow> bool" where
  "own_message_in V my bank message \<longleftrightarrow>
     (case message of
        CertificateM _ \<Rightarrow> True
      | VoteM msg \<Rightarrow> (\<forall>m e. bank_epoch_stakes bank (vote_slot (msg_vote msg)) = Some m \<longrightarrow>
          get_pubkey_stake_entry m (unat (msg_rank msg)) = Some e \<longrightarrow> vote_account_pubkey e = my \<longrightarrow> msg_vote msg \<in> V))"

lemma notar_backed_mono: "notar_backed V b \<Longrightarrow> V \<subseteq> V' \<Longrightarrow> notar_backed V' b"
  by (auto simp: notar_backed_def)

lemma event_backed_mono: "event_backed V e \<Longrightarrow> V \<subseteq> V' \<Longrightarrow> event_backed V' e"
  by (auto simp: event_backed_def intro: notar_backed_mono split: votor_event.splits)

lemma pool_backed_mono: "pool_backed V my p \<Longrightarrow> V \<subseteq> V' \<Longrightarrow> pool_backed V' my p"
  unfolding pool_backed_def own_first_vote_def own_counted_def by (meson notar_backed_mono subsetD)

lemma notar_allowed_backed: "own_first_vote V n own \<Longrightarrow> notar_allowed n own b \<Longrightarrow> notar_backed V b"
  unfolding own_first_vote_def notar_allowed_def notar_backed_def
  by (cases own; simp) (fastforce split: vote.splits intro: rev_bexI)

lemma fallback_event_backed: "own_first_vote V n own \<Longrightarrow> fallback_event n own e \<Longrightarrow> event_backed V e"
  by (auto simp: fallback_event_def event_backed_def own_first_vote_def intro: notar_allowed_backed
      split: votor_event.splits)

lemma certificate_event_backed: "certificate_event e \<Longrightarrow> event_backed V e"
  by (cases e) (simp_all add: event_backed_def)

lemma pool_backed_cong:
  assumes "vote_pools p' = vote_pools p" and "slot_stake_counters_map p' = slot_stake_counters_map p"
    and "pending_safe_to_notar p' = pending_safe_to_notar p"
  shows "pool_backed V my p' \<longleftrightarrow> pool_backed V my p"
  using assms counted_votes_cong [of p' p] by (simp add: pool_backed_def own_counted_def)

lemma count_vote_backed:
  assumes run: "count_vote lib bank v (rank_total_stake m) own added p ev = Some (r, p', ev')" and safe: "pool_safe E p"
    and m: "E (vote_slot v) = Some m" "exact_rank_map m" "rank_total_stake m \<noteq> 0"
    and backed: "pool_backed V my p" and own: "own \<longrightarrow> v \<in> V"
  shows "pool_backed V my p' \<and> appends (event_backed V) ev ev'"
proof (cases added)
  case None
  then show ?thesis using run backed by (simp add: count_vote_def)
next
  case (Some x)
  let ?n = "vote_slot v"
  define c where "c = (case bt_get (slot_stake_counters_map p) ?n of None \<Rightarrow> new_slot_stake_counters (rank_total_stake m) | Some c \<Rightarrow> c)"
  obtain c' ev1 pending where add: "counters_add_vote v x own ev (pending_safe_to_notar p) c = Some (c', ev1, pending)"
    and loop: "update_certificates_loop lib bank ?n (vote_block_id v) (rank_total_stake m) (vote_to_cert_types v)
      (p\<lparr>slot_stake_counters_map := bt_insert ?n c' (slot_stake_counters_map p), pending_safe_to_notar := pending\<rparr>) ev1 [] = Some (r, p', ev')"
    using run Some by (auto simp: count_vote_def update_certificates_def Let_def elim!: bind_eq_SomeE simp flip: c_def)
  define q where "q = p\<lparr>slot_stake_counters_map := bt_insert ?n c' (slot_stake_counters_map p), pending_safe_to_notar := pending\<rparr>"
  have c: "own_first_vote V ?n (my_first_vote c)"
    using backed by (auto simp: c_def pool_backed_def own_first_vote_def new_slot_stake_counters_def split: option.splits)
  note new = counters_add_vote_events [OF add]
  have c': "own_first_vote V ?n (my_first_vote c')"
    using new c own by (auto simp: own_first_vote_def split: if_splits)
  have "notar_backed V b" if "b \<in> set pending" for b
    using that new backed appends_set [of "notar_allowed ?n (my_first_vote c')" "pending_safe_to_notar p" pending b]
      notar_allowed_backed [OF c', of b]
    unfolding pool_backed_def by blast
  then have q: "pool_backed V my q"
    using backed c' counted_votes_cong [of q p] by (simp add: q_def pool_backed_def own_counted_def bt_get_insert bt_wf_insert)
  have "pool_safe E q" by (rule pool_safe_cong [OF _ _ safe]) (simp_all add: q_def)
  from update_certificates_safe [OF loop [folded q_def] this m] vote_block_id_fits [of _ v]
  have "pool_backed V my p'" using pool_backed_cong [of p' q] q by auto
  moreover have "appends (event_backed V) ev ev1"
    using new fallback_event_backed [OF c'] by (auto intro: appends_mono)
  moreover have "appends (event_backed V) ev1 ev'"
    using update_certificates_events [OF loop] certificate_event_backed by (auto intro: appends_mono)
  ultimately show ?thesis by (auto intro: appends_trans)
qed

lemma add_vote_backed:
  assumes run: "add_vote lib bank my msg p ev = Some (r, p', ev')" and E: "stakes_ok E" "bank_ok E bank"
    and safe: "pool_safe E p" and backed: "pool_backed V my p" and own: "own_message_in V my bank (VoteM msg)"
  shows "pool_backed V my p' \<and> appends (event_backed V) ev ev'"
proof (rule add_vote_cases [of lib bank my msg p ev])
  fix m e
  assume acc: "accepted_vote bank msg p m e" and st: "entry_stake e \<noteq> 0"
  obtain added vps where stages: "add_vote lib bank my msg p ev =
      count_vote lib bank (msg_vote msg) (rank_total_stake m) (my = vote_account_pubkey e) added (p\<lparr>vote_pools := vps\<rparr>) ev"
    and safe': "pool_safe E (p\<lparr>vote_pools := vps\<rparr>)"
    and counted: "\<And>s t h. counted_votes (p\<lparr>vote_pools := vps\<rparr>) s t h =
      (if added \<noteq> None \<and> s = vote_slot (msg_vote msg) \<and> t = get_type (msg_vote msg) \<and> (\<not> per_block t \<or> h = voted_block msg)
       then insert (vote_account_pubkey e) (counted_votes p s t h) else counted_votes p s t h)"
    and m: "E (vote_slot (msg_vote msg)) = Some m" "exact_rank_map m" "rank_total_stake m \<noteq> 0"
    by (rule accepted_vote_stages [OF acc st E safe]) blast
  have mine: "my = vote_account_pubkey e \<longrightarrow> msg_vote msg \<in> V"
    using own acc by (auto simp: own_message_in_def accepted_vote_def)
  have named: "vote_block_id (msg_vote msg) = Some (voted_block msg)" if "per_block (get_type (msg_vote msg))"
    using per_block_vote [OF that] by (auto simp: voted_block_def)
  have old: "\<exists>v \<in> V. vote_slot v = n \<and> get_type v = t \<and> (per_block t \<longrightarrow> vote_block_id v = Some h)"
    if "my \<in> counted_votes p n t h" for n t h
    using backed that unfolding pool_backed_def own_counted_def by blast
  have "own_counted V my (p\<lparr>vote_pools := vps\<rparr>)"
    unfolding own_counted_def counted using mine named by (auto split: if_splits dest: old)
  then have "pool_backed V my (p\<lparr>vote_pools := vps\<rparr>)" using backed by (simp add: pool_backed_def)
  from count_vote_backed [OF run [unfolded stages] safe' m this] mine show ?thesis by simp
next
  fix err assume "add_vote lib bank my msg p ev = Some (Inl err, p, ev)"
  then show ?thesis using run backed by simp
next
  fix m e assume "bank_epoch_stakes bank (vote_slot (msg_vote msg)) = Some m"
    "get_pubkey_stake_entry m (unat (msg_rank msg)) = Some e" "entry_stake e = 0 \<or> rank_total_stake m = 0"
  then show ?thesis using stakeless_impossible [OF E] by blast
qed

lemma frame_refl: "certificate_frame p p"
  by (simp add: certificate_frame_def)

lemma add_certificate_events:
  assumes "add_certificate lib bank cert p ev = Some (r, p', ev')"
  shows "certificate_frame p p' \<and> appends certificate_event ev ev'"
  using assms
  by (auto simp: add_certificate_def frame_refl split: if_splits elim!: bind_eq_SomeE
      dest: insert_certificate_frame insert_certificate_events)

lemma add_message_backed:
  assumes run: "add_message lib bank my message p ev = Some (r, p', ev')" and E: "stakes_ok E" "bank_ok E bank"
    and safe: "pool_safe E p" and backed: "pool_backed V my p" and own: "own_message_in V my bank message"
  shows "pool_backed V my p' \<and> appends (event_backed V) ev ev'"
proof (cases message)
  case (VoteM msg)
  then obtain r' where "add_vote lib bank my msg p ev = Some (r', p', ev')"
    using run by (auto simp: add_message_def elim!: bind_eq_SomeE)
  then show ?thesis by (rule add_vote_backed [OF _ E safe backed own [unfolded VoteM]])
next
  case (CertificateM cert)
  then obtain r' where "add_certificate lib bank cert p ev = Some (r', p', ev')"
    using run by (auto simp: add_message_def elim!: bind_eq_SomeE)
  from add_certificate_events [OF this] show ?thesis
    using backed pool_backed_cong [of p' p] certificate_event_backed
    by (auto simp: certificate_frame_def intro: appends_mono)
qed

lemma maybe_prune_backed:
  assumes "pool_backed V my p"
  shows "pool_backed V my (maybe_prune root p)"
proof (cases "last_pruned_slot p \<ge> root")
  case False
  have "counted_votes (maybe_prune root p) s t h = (if root \<le> s then counted_votes p s t h else {})" for s t h
    using False by (simp add: counted_votes_def maybe_prune_def split_off_slots)
  then have "own_counted V my (maybe_prune root p)" using assms by (auto simp: pool_backed_def own_counted_def)
  then show ?thesis
    using assms False by (auto simp: pool_backed_def maybe_prune_def bt_get_split_off bt_wf_split_off split: if_splits)
qed (use assms in \<open>simp add: maybe_prune_def\<close>)

end
