(* ===== verification/Consensus_Pool_Types.thy ===== *)
theory Consensus_Pool_Types
  imports Consensus_Pool_Events
begin

text \<open>
  The consensus pool keeps its data well-formed: what is stored under a key is of the kind the key
  announces. The look-ups of the pool, and the unwraps on what they find, rely on it.
\<close>

section \<open>Certificates are stored under their type\<close>

lemma aggregate_type_keeps: "aggregate_type lib p s block_id t cb = Some cb' \<Longrightarrow> cb_cert_type cb' = cb_cert_type cb"
  by (auto simp: aggregate_type_def aggregate_unwrap_def certificate_aggregate_def split: option.splits vote_pool.splits sum.splits
      elim!: bind_eq_SomeE)

lemma aggregate_types_keep:
  "foldM (aggregate_type lib p s block_id) ts cb = Some cb' \<Longrightarrow> cb_cert_type cb' = cb_cert_type cb"
  by (induction ts arbitrary: cb) (auto elim!: bind_eq_SomeE dest: aggregate_type_keeps)

lemma build_keeps: "certificate_build lib cb = Inr cert \<Longrightarrow> cert_type cert = cb_cert_type cb"
  by (auto simp: certificate_build_def builder_build_def map_encode_error_def build_cert_from_bitmap_def
      build_cert_from_bitmaps_def Let_def split: builder_type.splits option.splits sum.splits)

definition certs_typed :: "consensus_pool \<Rightarrow> bool" where
  "certs_typed p \<longleftrightarrow> bt_wf (completed_certificates p) \<and>
     (\<forall>ct c. bt_get (completed_certificates p) ct = Some c \<longrightarrow> cert_type c = ct)"

lemma insert_certificate_typed:
  assumes "insert_certificate lib bank ct cert p ev = Some (p', ev')" and "certs_typed p" and "cert_type cert = ct"
  shows "certs_typed p'"
  using insert_certificate_frame [OF assms(1)] assms(2,3) by (simp add: certs_typed_def bt_wf_insert bt_get_insert)

lemma update_certificates_typed:
  "update_certificates_loop lib bank s block_id total_stake cts p ev new = Some (r, p', ev') \<Longrightarrow> certs_typed p \<Longrightarrow> certs_typed p'"
proof (induction cts arbitrary: p ev new)
  case (Cons ct cts)
  show ?case
  proof (cases "\<exists>cb cert p1 ev1. foldM (aggregate_type lib p s block_id) (snd (limits_and_vote_types ct)) (new_certificate_builder lib ct) = Some cb \<and>
      certificate_build lib cb = Inr cert \<and> insert_certificate lib bank ct cert p ev = Some (p1, ev1) \<and>
      update_certificates_loop lib bank s block_id total_stake cts
        (p1\<lparr>generated_cert_types := insert_cert ct (generated_cert_types p1)\<rparr>) ev1 (new @ [cert]) = Some (r, p', ev')")
    case True
    then obtain cb cert p1 ev1 where cb: "foldM (aggregate_type lib p s block_id) (snd (limits_and_vote_types ct)) (new_certificate_builder lib ct) = Some cb"
      and cert: "certificate_build lib cb = Inr cert" and ins: "insert_certificate lib bank ct cert p ev = Some (p1, ev1)"
      and rest: "update_certificates_loop lib bank s block_id total_stake cts
        (p1\<lparr>generated_cert_types := insert_cert ct (generated_cert_types p1)\<rparr>) ev1 (new @ [cert]) = Some (r, p', ev')"
      by blast
    have "cert_type cert = ct"
      using build_keeps [OF cert] aggregate_types_keep [OF cb] by (simp add: new_certificate_builder_def)
    with insert_certificate_typed [OF ins Cons.prems(2)] have "certs_typed p1" .
    then show ?thesis using Cons.IH [OF rest] by (simp add: certs_typed_def)
  next
    case False
    then show ?thesis
      using Cons.prems Cons.IH [of p ev new] by (auto split: if_splits sum.splits elim!: bind_eq_SomeE)
  qed
qed simp

lemma add_message_typed:
  assumes "add_message lib bank my message p ev = Some (r, p', ev')" and "certs_typed p"
  shows "certs_typed p'"
proof (cases message)
  case (VoteM msg)
  then obtain r' where run: "add_vote lib bank my msg p ev = Some (r', p', ev')"
    using assms(1) by (auto simp: add_message_def elim!: bind_eq_SomeE)
  have keep: "certs_typed (q\<lparr>slot_stake_counters_map := a, pending_safe_to_notar := b\<rparr>) = certs_typed q" for q a b
    by (simp add: certs_typed_def)
  have pools: "certs_typed q" if "update_vote_pool msg k x p = Some (added, q)" for k x added q
    using that assms(2) by (auto simp: update_vote_pool_def certs_typed_def Let_def elim!: bind_eq_SomeE)
  show ?thesis
    using run assms(2) unfolding add_vote_def update_certificates_def
    by (auto simp: Let_def keep split: sum.splits option.splits if_splits elim!: bind_eq_SomeE
        dest!: pools update_certificates_typed)
next
  case (CertificateM cert)
  then obtain r' where "add_certificate lib bank cert p ev = Some (r', p', ev')"
    using assms(1) by (auto simp: add_message_def elim!: bind_eq_SomeE)
  then show ?thesis
    using assms(2) by (auto simp: add_certificate_def split: if_splits elim!: bind_eq_SomeE dest!: insert_certificate_typed)
qed


section \<open>Counters and vote pools\<close>

definition counters_typed :: "consensus_pool \<Rightarrow> bool" where
  "counters_typed p \<longleftrightarrow> bt_wf (slot_stake_counters_map p) \<and>
     (\<forall>n c v. bt_get (slot_stake_counters_map p) n = Some c \<longrightarrow> my_first_vote c = Some v \<longrightarrow> is_first_vote v \<and> vote_slot v = n)"

lemma vote_exists: "\<exists>v. vote_slot v = n \<and> get_type v = t \<and> (per_block t \<longrightarrow> vote_block_id v = Some h)"
proof (cases t)
  case FinalizeT
  then show ?thesis by (intro exI [of _ "Finalize n"]) (simp add: per_block_def)
next
  case NotarizeT
  then show ?thesis by (intro exI [of _ "Notarize (Block n h)"]) simp
next
  case NotarizeFallbackT
  then show ?thesis by (intro exI [of _ "NotarizeFallback (Block n h)"]) simp
next
  case SkipT
  then show ?thesis by (intro exI [of _ "Skip n"]) (simp add: per_block_def)
next
  case SkipFallbackT
  then show ?thesis by (intro exI [of _ "SkipFallback n"]) (simp add: per_block_def)
next
  case GenesisT
  then show ?thesis by (intro exI [of _ "Genesis (Block n h)"]) simp
qed

lemma all_blocks_backed: "notar_backed UNIV b"
  unfolding notar_backed_def by (rule bexI [of _ "Skip (block_slot b)"]) simp_all

lemma all_votes_backed: "pool_backed UNIV my p \<longleftrightarrow> counters_typed p"
proof -
  have "own_counted UNIV my p" using vote_exists by (simp add: own_counted_def)
  then show ?thesis by (auto simp: pool_backed_def counters_typed_def own_first_vote_def all_blocks_backed)
qed

lemma add_message_counters_typed:
  assumes "add_message lib bank my message p ev = Some (r, p', ev')" and "stakes_ok E" "bank_ok E bank" and "pool_safe E p"
    and "counters_typed p"
  shows "counters_typed p'"
proof -
  have "own_message_in UNIV my bank message" by (cases message) (simp_all add: own_message_in_def)
  with add_message_backed [OF assms(1-4), of UNIV] assms(5) show ?thesis by (simp add: all_votes_backed)
qed

definition vote_pool_typed :: "slot \<Rightarrow> vote_type \<Rightarrow> vote_pool \<Rightarrow> bool" where
  "vote_pool_typed n t vp \<longleftrightarrow>
     (case vp of
        SimpleVotePool sp \<Rightarrow> \<not> per_block t \<and>
          (\<forall>msg \<in> set (simple_votes sp). vote_slot (msg_vote msg) = n \<and> get_type (msg_vote msg) = t)
      | DuplicateBlockVotePool dp \<Rightarrow> per_block t \<and>
          (\<forall>h msgs. duplicate_votes h dp = Some msgs \<longrightarrow> (\<forall>msg \<in> set msgs.
            vote_slot (msg_vote msg) = n \<and> get_type (msg_vote msg) = t \<and> vote_block_id (msg_vote msg) = Some h)))"

lemma vp_ok_typed: "vp_ok m n t vp \<Longrightarrow> vote_pool_typed n t vp"
proof (cases vp)
  case (DuplicateBlockVotePool dp)
  assume ok: "vp_ok m n t vp"
  have "msgs = duplicate_collected dp h" if "duplicate_votes h dp = Some msgs" for h msgs
    using that by (simp add: duplicate_collected_def)
  with ok DuplicateBlockVotePool show ?thesis
    unfolding vp_ok_def vote_pool_typed_def by (auto simp: pool_msgs_def)
qed (auto simp: vp_ok_def vote_pool_typed_def pool_msgs_def)


section \<open>Well-formed pools\<close>

definition pool_typed :: "consensus_pool \<Rightarrow> bool" where
  "pool_typed p \<longleftrightarrow> certs_typed p \<and> counters_typed p \<and> bt_wf (vote_pools p) \<and>
     (\<forall>n t vp. bt_get (vote_pools p) (n, t) = Some vp \<longrightarrow> vote_pool_typed n t vp)"

definition typed_inv :: "epoch_lookup \<Rightarrow> consensus_pool \<Rightarrow> bool" where
  "typed_inv E p \<longleftrightarrow> pool_inv E p \<and> certs_typed p \<and> counters_typed p"

lemma typed_inv_pool: "typed_inv E p \<Longrightarrow> pool_typed p"
  unfolding typed_inv_def pool_inv_def pool_safe_def votes_ok_def pool_typed_def using vp_ok_typed by blast

lemma typed_inv_init: "pool_init E p \<Longrightarrow> typed_inv E p"
  using pool.inv_reachable [of E p _ p]
  by (auto simp: typed_inv_def pool_init_def certs_typed_def counters_typed_def new_consensus_pool_def)

lemma typed_inv_step:
  assumes "typed_inv E p" and "pool_step lib E p p'"
  shows "typed_inv E p'"
proof -
  have inv: "pool_inv E p'" using assms pool_step_inv by (auto simp: typed_inv_def)
  from assms(2) have "certs_typed p' \<and> counters_typed p'"
  proof cases
    case (message bank my message ev r ev')
    then show ?thesis
      using assms(1) add_message_typed [OF message(2)] add_message_counters_typed [OF message(2) _ message(1)]
      by (simp add: typed_inv_def pool_inv_def)
  next
    case (prune root)
    have "counters_typed p'"
      using assms(1) prune maybe_prune_backed [of UNIV 0 p root] by (simp add: typed_inv_def all_votes_backed)
    then show ?thesis
      using assms(1) prune
      by (auto simp: typed_inv_def certs_typed_def maybe_prune_def case_prod_unfold bt_get_filter [of "\<lambda>ct. root \<le> cert_slot ct"]
          split: if_splits)
  qed (use assms(1) in \<open>auto simp: typed_inv_def certs_typed_def counters_typed_def take_pending_safe_to_notar_def
        add_to_pending_safe_to_notar_def\<close>)
  then show ?thesis using inv by (simp add: typed_inv_def)
qed

interpretation typed_pool: invariant_system "pool_init E" "pool_step lib E" "typed_inv E" for lib E
  by unfold_locales (fact typed_inv_init, rule typed_inv_step)

lemma get_notarize_cert_typed:
  assumes "certs_typed p" and "get_notarize_cert n p = Some c"
  shows "\<exists>b. cert_type c = NotarizeC b \<and> block_slot b = n"
proof -
  obtain ct where "(ct, c) \<in> set (completed_certificates p)"
    and ct: "case ct of NotarizeC b \<Rightarrow> n = block_slot b | _ \<Rightarrow> False"
    using assms(2) by (auto simp: get_notarize_cert_def find_Some_iff) (metis nth_mem)
  then have "cert_type c = ct" using assms(1) bt_get_in_set by (fastforce simp: certs_typed_def)
  then show ?thesis using ct by (auto split: certificate_type.splits)
qed

text \<open>
  C60. Whatever messages it receives and however it is pruned, the pool stays well-formed. Each vote pool
  holds only votes of the slot and the type of its key, and is of the kind that its type needs; the vote
  pools of notarizations keep the votes of each block apart. The counters of a slot record only a first
  vote for that slot. Each certificate is stored under its own type, so that the look-ups the
  finalization relies on find what they name, and the block of a notarization certificate can be unwrapped.
\<close>

theorem consensus_pool_is_well_formed:
  assumes "pool_init E p0" and "(pool_step lib E)\<^sup>*\<^sup>* p0 p"
  shows "pool_typed p \<and>
    (\<forall>n c. get_notarize_cert n p = Some c \<longrightarrow> (\<exists>b. to_block (cert_type c) = Some b \<and> block_slot b = n)) \<and>
    (\<forall>n c. get_finalize_cert n p = Some c \<longrightarrow> cert_type c = FinalizeC n)"
proof -
  have inv: "typed_inv E p" by (rule typed_pool.inv_reachable [OF assms])
  then have "certs_typed p" by (simp add: typed_inv_def)
  then show ?thesis
    using typed_inv_pool [OF inv] get_notarize_cert_typed [of p] by (fastforce simp: get_finalize_cert_def certs_typed_def)
qed

definition typed_demo_pool :: consensus_pool where
  "typed_demo_pool = maybe_prune 5 (add_to_pending_safe_to_notar (Block 9 3) demo_pool)"

theorem consensus_pool_is_well_formed_witness:
  "pool_init (\<lambda>_. Some demo_ranks) demo_pool \<and>
     (pool_step demo_library (\<lambda>_. Some demo_ranks))\<^sup>*\<^sup>* demo_pool typed_demo_pool \<and> pool_typed typed_demo_pool \<and>
     pending_safe_to_notar typed_demo_pool = [Block 9 3]"
proof -
  have run: "(pool_step demo_library (\<lambda>_. Some demo_ranks))\<^sup>*\<^sup>* demo_pool typed_demo_pool"
    unfolding typed_demo_pool_def by (meson pool_step.return_pending pool_step.prune r_into_rtranclp rtranclp.rtrancl_into_rtrancl)
  have "pending_safe_to_notar typed_demo_pool = [Block 9 3]"
    by (simp add: typed_demo_pool_def maybe_prune_def add_to_pending_safe_to_notar_def demo_pool_def new_consensus_pool_def)
  with consensus_pool_is_well_formed [OF demo_pool_init run] demo_pool_init run show ?thesis by simp
qed

end
