(* ===== verification/Voting_Utils.thy ===== *)
theory Voting_Utils
  imports Vote_History Rank_Map Certificate_Builder
begin

text \<open>
  \<open>crates/consensus/votor/src/voting_utils.rs\<close>, \<open>commitment.rs\<close> and \<open>SavedVoteHistory\<close> of
  \<open>vote_history_storage.rs\<close>: recording a vote of our own, signing it, handing it to the consensus pool
  and preparing it for the network.

  What other threads write (the root bank, the identity, the authorized voters, the state of the
  channels) is an argument, \<open>shared\<close>. Signing and serialisation (\<open>solana-bls-signatures\<close>,
  \<open>solana-signature\<close>, \<open>wincode\<close>) are the parameter \<open>lib\<close>. A keypair is named by its public key. What
  is sent or written, a vote recorded in the vote history included, is appended to \<open>effects\<close>, which
  the code does not read.
\<close>

section \<open>Model\<close>

subsection \<open>Results that thread a state\<close>

text \<open>
  An operation on \<open>&mut\<close> state that returns a \<open>Result\<close>: \<^term>\<open>None\<close> is a panic. \<open>and_then\<close> is the
  operator \<open>?\<close> followed by the rest of the body.
\<close>

type_synonym ('e, 'a, 's) outcome = "(('e + 'a) \<times> 's) option"

definition and_then ::
    "('e + 'a) \<times> 's \<Rightarrow> ('a \<Rightarrow> 's \<Rightarrow> ('e, 'b, 's) outcome) \<Rightarrow> ('e, 'b, 's) outcome" where
  "and_then r k = (case fst r of Inl e \<Rightarrow> Some (Inl e, snd r) | Inr a \<Rightarrow> k a (snd r))"

primrec for_each :: "('x \<Rightarrow> 's \<Rightarrow> ('e, unit, 's) outcome) \<Rightarrow> 'x list \<Rightarrow> 's \<Rightarrow> ('e, unit, 's) outcome" where
  "for_each f [] s = Some (Inr (), s)"
| "for_each f (x # xs) s = do { r \<leftarrow> f x s; and_then r (\<lambda>_ s. for_each f xs s) }"

subsection \<open>Shared state and libraries\<close>

datatype channel = Connected | Full | Disconnected

record bls_keypair =
  keypair_public :: bls_pubkey_affine
  keypair_secret :: nat

type_synonym serialize_error = nat

record signing_library =
  derive_from_signer :: "pubkey \<Rightarrow> bls_error + bls_keypair"
  bls_sign :: "bls_keypair \<Rightarrow> u8 list \<Rightarrow> bls_signature"
  vote_bytes :: "vote \<Rightarrow> u8 list"
  history_bytes :: "vote_history \<Rightarrow> serialize_error + u8 list"
  sign_message :: "pubkey \<Rightarrow> u8 list \<Rightarrow> nat"

record shared =
  root_slot :: slot
  root_has_vote_account :: "pubkey \<Rightarrow> bool"
  root_rank_map :: "slot \<Rightarrow> rank_map option"
  authorized_voter_keypairs :: "pubkey list"
  my_vote_account :: pubkey
  wait_to_vote_slot :: "slot option"
  own_vote_sender :: channel
  commitment_sender :: channel

datatype generate_vote_tx_result =
    NonVoting
  | HotSpare
  | WaitForStartupVerification
  | WaitToVoteSlot slot
  | NoRankFound
  | NoAuthorizedVoter pubkey epoch
  | VoteAccountNotFound pubkey
  | Tx nat
  | VoteTx vote_message

datatype vote_history_error =
    IoError
  | SerializeError serialize_error
  | DeserializeError
  | InvalidHistorySignature
  | WrongVoteHistory
  | HardFork

datatype vote_error =
    TransientError generate_vote_tx_result
  | InvalidConfig generate_vote_tx_result
  | ConsensusPoolError
  | CommitmentSenderError
  | SavedVoteHistoryError vote_history_error

record saved_vote_history =
  saved_signature :: nat
  saved_data :: "u8 list"
  saved_node_pubkey :: pubkey

datatype bls_op =
    PushVote vote_message saved_vote_history
  | PushCertificates "certificate list"
  | RefreshVotes "vote_message list"
  | RefreshCertificates "certificate list"

datatype commitment_type = NotarizeCommitment | RootedCommitment

datatype metrics_event = StartOfSlot slot | BlockHashSeen pubkey slot | SlotFinalized slot

datatype effect =
    RecordVote vote
  | OwnVote vote_message
  | Commitment commitment_type slot
  | Metrics "metrics_event list"
  | FetchBlock block
  | LeaderWindow leader_window_info
  | EnqueueSetRoot slot
  | OptimisticSlot slot hash

record voting_context =
  vote_history :: vote_history
  identity_keypair :: pubkey
  derived_bls_keypairs :: "pubkey \<rightharpoonup> bls_keypair"
  effects :: "effect list"

definition emit :: "effect \<Rightarrow> 'a voting_context_scheme \<Rightarrow> 'a voting_context_scheme" where
  "emit e c = c\<lparr>effects := effects c @ [e]\<rparr>"

subsection \<open>Vote messages\<close>

definition is_transient_error :: "generate_vote_tx_result \<Rightarrow> bool" where
  "is_transient_error r =
     (case r of
        NoAuthorizedVoter _ _ \<Rightarrow> False
      | VoteAccountNotFound _ \<Rightarrow> False
      | Tx _ \<Rightarrow> False
      | VoteTx _ \<Rightarrow> False
      | _ \<Rightarrow> True)"

definition get_or_insert_bls_keypair ::
    "signing_library \<Rightarrow> pubkey \<Rightarrow> (pubkey \<rightharpoonup> bls_keypair) \<Rightarrow> bls_error + bls_keypair \<times> (pubkey \<rightharpoonup> bls_keypair)" where
  "get_or_insert_bls_keypair lib key derived =
     (case derived key of
        Some kp \<Rightarrow> Inr (kp, derived)
      | None \<Rightarrow> (case derive_from_signer lib key of
          Inl e \<Rightarrow> Inl e
        | Inr kp \<Rightarrow> Inr (kp, derived(key \<mapsto> kp))))"

text \<open>The \<open>find_map\<close> over the authorized voters: it stops at the first keypair that matches.\<close>

fun find_bls_keypair ::
    "signing_library \<Rightarrow> bls_pubkey_affine \<Rightarrow> pubkey list \<Rightarrow> (pubkey \<rightharpoonup> bls_keypair) \<Rightarrow>
     (bls_keypair option \<times> (pubkey \<rightharpoonup> bls_keypair)) option" where
  "find_bls_keypair lib expected [] derived = Some (None, derived)"
| "find_bls_keypair lib expected (key # keys) derived =
     (case get_or_insert_bls_keypair lib key derived of
        Inl _ \<Rightarrow> None
      | Inr (kp, derived') \<Rightarrow>
          if keypair_public kp = expected then Some (Some kp, derived')
          else find_bls_keypair lib expected keys derived')"

definition generate_vote_tx ::
    "signing_library \<Rightarrow> 'b shared_scheme \<Rightarrow> vote \<Rightarrow> slot option \<Rightarrow> 'a voting_context_scheme \<Rightarrow>
     (generate_vote_tx_result \<times> 'a voting_context_scheme) option" where
  "generate_vote_tx lib sh vote wait c =
     (if authorized_voter_keypairs sh = [] then Some (NonVoting, c)
      else if \<not> root_has_vote_account sh (my_vote_account sh) then Some (VoteAccountNotFound (my_vote_account sh), c)
      else if (case wait of None \<Rightarrow> False | Some s \<Rightarrow> vote_slot vote < s) then Some (WaitToVoteSlot (the wait), c)
      else do {
        m \<leftarrow> root_rank_map sh (vote_slot vote);
        (case get_rank_for_vote_pubkey m (my_vote_account sh) of
           None \<Rightarrow> Some (NoRankFound, c)
         | Some my_rank \<Rightarrow> do {
             entry \<leftarrow> get_pubkey_stake_entry m (unat my_rank);
             if vote_account_pubkey entry \<noteq> my_vote_account sh
             then Some (VoteAccountNotFound (my_vote_account sh), c)
             else if bls_pubkey_stake_entry.node_pubkey entry \<noteq> identity_keypair c then Some (HotSpare, c)
             else do {
               (found, derived) \<leftarrow> find_bls_keypair lib (bls_pubkey entry) (authorized_voter_keypairs sh)
                 (derived_bls_keypairs c);
               let c = c\<lparr>derived_bls_keypairs := derived\<rparr>;
               Some (case found of
                   None \<Rightarrow> (NonVoting, c)
                 | Some kp \<Rightarrow> (VoteTx \<lparr>msg_vote = vote, msg_signature = bls_sign lib kp (vote_bytes lib vote),
                     msg_rank = my_rank\<rparr>, c))
             }
           })
      })"

definition create_vote_message ::
    "signing_library \<Rightarrow> 'b shared_scheme \<Rightarrow> vote \<Rightarrow> bool \<Rightarrow> 'a voting_context_scheme \<Rightarrow>
     (vote_error, vote_message, 'a voting_context_scheme) outcome" where
  "create_vote_message lib sh vote respect_wait_to_vote c = do {
     (r, c) \<leftarrow> generate_vote_tx lib sh vote (if respect_wait_to_vote then wait_to_vote_slot sh else None) c;
     Some (case r of
         VoteTx msg \<Rightarrow> Inr msg
       | e \<Rightarrow> Inl (if is_transient_error e then TransientError e else InvalidConfig e), c)
   }"

definition handle_skippable_vote_error :: "vote_error \<Rightarrow> vote_error + unit" where
  "handle_skippable_vote_error err =
     (case err of InvalidConfig _ \<Rightarrow> Inr () | TransientError _ \<Rightarrow> Inr () | e \<Rightarrow> Inl e)"

definition create_and_send_own_vote_message ::
    "signing_library \<Rightarrow> 'b shared_scheme \<Rightarrow> vote \<Rightarrow> bool \<Rightarrow> 'a voting_context_scheme \<Rightarrow>
     (vote_error, vote_message option, 'a voting_context_scheme) outcome" where
  "create_and_send_own_vote_message lib sh vote respect_wait_to_vote c = do {
     (r, c) \<leftarrow> create_vote_message lib sh vote respect_wait_to_vote c;
     (case r of
        Inl e \<Rightarrow> Some (case handle_skippable_vote_error e of Inl e \<Rightarrow> Inl e | Inr _ \<Rightarrow> Inr None, c)
      | Inr msg \<Rightarrow>
          if own_vote_sender sh = Disconnected then Some (Inl ConsensusPoolError, c)
          else Some (Inr (Some msg), emit (OwnVote msg) c))
   }"

definition new_saved_vote_history ::
    "signing_library \<Rightarrow> vote_history \<Rightarrow> pubkey \<Rightarrow> vote_history_error + saved_vote_history" where
  "new_saved_vote_history lib h keypair =
     (if vote_history.node_pubkey h \<noteq> keypair then Inl WrongVoteHistory
      else (case history_bytes lib h of
          Inl e \<Rightarrow> Inl (SerializeError e)
        | Inr bytes \<Rightarrow> Inr \<lparr>saved_signature = sign_message lib keypair bytes, saved_data = bytes,
            saved_node_pubkey = keypair\<rparr>))"

definition insert_vote_and_create_bls_message ::
    "signing_library \<Rightarrow> 'b shared_scheme \<Rightarrow> vote \<Rightarrow> 'a voting_context_scheme \<Rightarrow>
     (vote_error, bls_op option, 'a voting_context_scheme) outcome" where
  "insert_vote_and_create_bls_message lib sh vote c = do {
     h \<leftarrow> history_add_vote vote (vote_history c);
     r \<leftarrow> create_and_send_own_vote_message lib sh vote True (emit (RecordVote vote) (c\<lparr>vote_history := h\<rparr>));
     and_then r (\<lambda>msg c. case msg of
         None \<Rightarrow> Some (Inr None, c)
       | Some msg \<Rightarrow> Some (case new_saved_vote_history lib (vote_history c) (identity_keypair c) of
             Inl e \<Rightarrow> Inl (SavedVoteHistoryError e)
           | Inr saved \<Rightarrow> Inr (Some (PushVote msg saved)), c))
   }"

definition generate_refresh_vote_message ::
    "signing_library \<Rightarrow> 'b shared_scheme \<Rightarrow> vote \<Rightarrow> 'a voting_context_scheme \<Rightarrow>
     (vote_error, vote_message option, 'a voting_context_scheme) outcome" where
  "generate_refresh_vote_message lib sh vote c = do {
     (r, c) \<leftarrow> create_vote_message lib sh vote True c;
     Some (case r of
         Inr msg \<Rightarrow> Inr (Some msg)
       | Inl e \<Rightarrow> (case handle_skippable_vote_error e of Inl e \<Rightarrow> Inl e | Inr _ \<Rightarrow> Inr None), c)
   }"

subsection \<open>Commitment\<close>

definition update_commitment_cache ::
    "'b shared_scheme \<Rightarrow> commitment_type \<Rightarrow> slot \<Rightarrow> 'a voting_context_scheme \<Rightarrow> (unit + unit) \<times> 'a voting_context_scheme" where
  "update_commitment_cache sh t slot c =
     (case commitment_sender sh of
        Disconnected \<Rightarrow> (Inl (), c)
      | Full \<Rightarrow> (Inr (), c)
      | Connected \<Rightarrow> (Inr (), emit (Commitment t slot) c))"


section \<open>Outcomes\<close>

text \<open>
  \<open>returns b Q\<close>: the operation does not panic, provided \<open>b\<close>, and what it returns satisfies \<open>Q\<close>.
\<close>

definition returns :: "bool \<Rightarrow> ('r \<Rightarrow> 's \<Rightarrow> bool) \<Rightarrow> ('r \<times> 's) option \<Rightarrow> bool" where
  "returns b Q res \<longleftrightarrow> (case res of None \<Rightarrow> \<not> b | Some (r, s) \<Rightarrow> Q r s)"

lemma returns_Some [simp]: "returns b Q (Some (r, s)) \<longleftrightarrow> Q r s"
  by (simp add: returns_def)

lemma returns_mono: "returns b P res \<Longrightarrow> (\<And>r s. P r s \<Longrightarrow> Q r s) \<Longrightarrow> returns b Q res"
  by (auto simp: returns_def split: option.splits)

lemma returns_and_then:
  assumes "returns b P res" and "\<And>e s. P (Inl e) s \<Longrightarrow> Q (Inl e) s" and "\<And>a s. P (Inr a) s \<Longrightarrow> returns b Q (k a s)"
  shows "returns b Q (res \<bind> (\<lambda>r. and_then r k))"
  using assms by (cases res) (auto simp: returns_def and_then_def split: sum.splits)

lemma returns_bind:
  assumes "res = None \<Longrightarrow> \<not> b" and "\<And>x. res = Some x \<Longrightarrow> returns b Q (k x)"
  shows "returns b Q (res \<bind> k)"
  using assms by (cases res) (auto simp: returns_def)

lemma returns_for_each:
  assumes "I [] s" and "\<And>done x rest s. xs = done @ x # rest \<Longrightarrow> I done s \<Longrightarrow>
    returns b (\<lambda>r s. case r of Inl _ \<Rightarrow> E s | Inr _ \<Rightarrow> I (done @ [x]) s) (f x s)"
  shows "returns b (\<lambda>r s. case r of Inl _ \<Rightarrow> E s | Inr _ \<Rightarrow> I xs s) (for_each f xs s)"
proof -
  have "returns b (\<lambda>r s. case r of Inl _ \<Rightarrow> E s | Inr _ \<Rightarrow> I xs s) (for_each f rest s)"
    if "xs = done @ rest" and "I done s" for "done" rest s
    using that
  proof (induction rest arbitrary: "done" s)
    case (Cons x rest)
    have "returns b (\<lambda>r s. case r of Inl _ \<Rightarrow> E s | Inr _ \<Rightarrow> I xs s) (for_each f rest s')"
      if "I (done @ [x]) s'" for s'
      using Cons.IH [of "done @ [x]"] Cons.prems(1) that by simp
    with assms(2) [OF Cons.prems] show ?case
      by (auto intro: returns_and_then)
  qed simp
  with assms(1) show ?thesis by (metis append_Nil)
qed

lemma returns_weaken: "returns b Q res \<Longrightarrow> (b' \<Longrightarrow> b) \<Longrightarrow> returns b' Q res"
  by (auto simp: returns_def split: option.splits)

end
