(* ===== verification/Pool_Service.thy ===== *)
theory Pool_Service
  imports Consensus_Pool_Props Voting_Utils
begin

text \<open>
  \<open>crates/consensus/votor/src/consensus_pool_service.rs\<close>: the loop around the consensus pool. It feeds
  the pool with the own messages and the verified ones of other nodes, keeps it pruned, sends its
  certificates, starts the leader windows of the node, detects standstill, and passes the events of the
  pool on to the event handler; a \<open>SafeToNotar\<close> inside a leader window only once the block and a
  certificate of its parent are there.

  What other threads write (the root bank, the leader schedule, the blockstore, the clock, the state of
  the channels) is read as \<open>env\<close>, once per call. The blockstore and the leader schedule are parameters.
  What is sent is appended to the fields \<open>sent_events_out\<close>, \<open>sent_ops\<close> and \<open>fetched_blocks\<close>, which the
  code does not read. The hash set of waiting blocks is a list without duplicates: its order is the
  order in which \<open>retain\<close> visits the blocks, which the code leaves open. Statistics and logging are not
  modelled.
\<close>

section \<open>Model\<close>

subsection \<open>State\<close>

record slot_meta =
  meta_parent_slot :: "slot option"
  meta_parent_block_id :: hash

record service_env =
  env_root_bank :: root_bank
  env_root_block_id :: "hash option"
  env_staked_nodes :: "pubkey \<Rightarrow> stake option"
  env_identity :: pubkey
  env_my_vote_pubkey :: pubkey
  env_slot_leader_at :: "slot \<Rightarrow> pubkey option"
  env_block_location :: "slot \<Rightarrow> hash \<Rightarrow> unit + nat option"
  env_meta_from_location :: "slot \<Rightarrow> nat \<Rightarrow> unit + slot_meta option"
  env_restored_parent_ready :: "(slot \<times> block) option"
  env_now :: instant
  env_bls_sender :: channel
  env_event_sender :: channel
  env_repair_sender :: "block \<Rightarrow> channel"

record pool_service =
  service_pool :: consensus_pool
  service_highest_parent_ready :: slot
  standstill_timer :: instant
  kick_off_parent_ready :: bool
  waiting_blocks :: "block list"
  service_events :: "votor_event list"
  service_exit :: bool
  highest_finalized_cell :: "validated_finalization option"
  sent_events_out :: "votor_event list"
  sent_ops :: "bls_op list"
  fetched_blocks :: "block list"

datatype sig_verified_batch = VotesBatch "vote_message list" | CertificatesBatch "certificate list"

definition delta_standstill :: nat where
  "delta_standstill = 10000 * 10 ^ 6"

subsection \<open>Certificates\<close>

definition is_current_identity_staked :: "service_env \<Rightarrow> bool" where
  "is_current_identity_staked env =
     (case env_staked_nodes env (env_identity env) of None \<Rightarrow> False | Some stake \<Rightarrow> stake > 0)"

definition num_certificates :: "bls_op \<Rightarrow> nat option" where
  "num_certificates op =
     (case op of
        PushCertificates certs \<Rightarrow> Some (length certs)
      | RefreshCertificates certs \<Rightarrow> Some (length certs)
      | _ \<Rightarrow> None)"

definition enqueue_certificates :: "service_env \<Rightarrow> bls_op \<Rightarrow> pool_service \<Rightarrow> (unit, unit, pool_service) outcome" where
  "enqueue_certificates env op s = do {
     num_certs \<leftarrow> num_certificates op;
     Some (case env_bls_sender env of
         Connected \<Rightarrow> (Inr (), s\<lparr>sent_ops := sent_ops s @ [op]\<rparr>)
       | Disconnected \<Rightarrow> (Inl (), s)
       | Full \<Rightarrow> (Inr (), s))
   }"

definition send_certificates :: "service_env \<Rightarrow> bls_op \<Rightarrow> pool_service \<Rightarrow> (unit, unit, pool_service) outcome" where
  "send_certificates env op s = do {
     num_certs \<leftarrow> num_certificates op;
     if num_certs = 0 then Some (Inr (), s)
     else if \<not> is_current_identity_staked env then Some (Inr (), s)
     else enqueue_certificates env op s
   }"

subsection \<open>Messages\<close>

definition maybe_update_root_and_send_new_certificates ::
    "service_env \<Rightarrow> slot option \<Rightarrow> certificate list \<Rightarrow> pool_service \<Rightarrow> (unit, unit, pool_service) outcome" where
  "maybe_update_root_and_send_new_certificates env new_finalized_slot new_certificates s =
     (let s = (if new_finalized_slot \<noteq> None
            then s\<lparr>standstill_timer := env_now env,
              highest_finalized_cell := get_highest_finalization_certs (service_pool s)\<rparr> else s);
          s = s\<lparr>service_pool := maybe_prune (bank_slot (env_root_bank env)) (service_pool s)\<rparr>
      in send_certificates env (PushCertificates new_certificates) s)"

definition process_consensus_message ::
    "crypto_library \<Rightarrow> service_env \<Rightarrow> consensus_message \<Rightarrow> pool_service \<Rightarrow> (unit, unit, pool_service) outcome" where
  "process_consensus_message lib env message s = do {
     (r, p, events) \<leftarrow> add_message lib (env_root_bank env) (env_my_vote_pubkey env) message
       (service_pool s) (service_events s);
     let s = s\<lparr>service_pool := p, service_events := events\<rparr>;
     (case r of
        Inl _ \<Rightarrow> Some (Inr (), s)
      | Inr (new_finalized_slot, new_certificates) \<Rightarrow>
          maybe_update_root_and_send_new_certificates env new_finalized_slot new_certificates s)
   }"

definition process_batch ::
    "crypto_library \<Rightarrow> service_env \<Rightarrow> consensus_message list \<Rightarrow> pool_service \<Rightarrow> (unit, unit, pool_service) outcome" where
  "process_batch lib env msgs s = for_each (process_consensus_message lib env) msgs s"

definition batch_messages :: "sig_verified_batch \<Rightarrow> consensus_message list" where
  "batch_messages batch =
     (case batch of VotesBatch vs \<Rightarrow> map VoteM vs | CertificatesBatch cs \<Rightarrow> map CertificateM cs)"

text \<open>The first message or batch of a channel together with those that are waiting behind it.\<close>

definition handle_sig_verified_batch ::
    "crypto_library \<Rightarrow> service_env \<Rightarrow> sig_verified_batch list \<Rightarrow> pool_service \<Rightarrow> (unit, unit, pool_service) outcome" where
  "handle_sig_verified_batch lib env batches s =
     for_each (\<lambda>batch. process_batch lib env (batch_messages batch)) batches s"

definition handle_own_message ::
    "crypto_library \<Rightarrow> service_env \<Rightarrow> consensus_message list \<Rightarrow> pool_service \<Rightarrow> (unit, unit, pool_service) outcome" where
  "handle_own_message lib env msgs s = process_batch lib env msgs s"

subsection \<open>Starting\<close>

text \<open>\<open>slot.checked_add(1).unwrap()\<close>.\<close>

definition next_slot :: "slot \<Rightarrow> slot option" where
  "next_slot s = (if s < u64_max then Some (s + 1) else None)"

definition initial_parent_ready ::
    "block option \<Rightarrow> block \<Rightarrow> (slot \<times> block) option \<Rightarrow> (slot \<times> block) option" where
  "initial_parent_ready genesis root_block restored =
     (case genesis of
        None \<Rightarrow> do { n \<leftarrow> next_slot (block_slot root_block); Some (n, root_block) }
      | Some g \<Rightarrow> do {
          let initial_block = max g root_block;
          n \<leftarrow> next_slot (block_slot initial_block);
          Some (case restored of
              Some (restored_slot, b) \<Rightarrow> if restored_slot > n then (restored_slot, b) else (n, initial_block)
            | None \<Rightarrow> (n, initial_block))
        })"

definition root_block :: "service_env \<Rightarrow> block" where
  "root_block env = Block (bank_slot (env_root_bank env)) (case env_root_block_id env of None \<Rightarrow> 0 | Some h \<Rightarrow> h)"

definition new_pool_service ::
    "service_env \<Rightarrow> certificate_type set \<Rightarrow> migration_status \<Rightarrow> pool_service option" where
  "new_pool_service env generated ms = do {
     genesis \<leftarrow> genesis_block ms;
     ipr \<leftarrow> initial_parent_ready genesis (root_block env) (env_restored_parent_ready env);
     Some \<lparr>service_pool = new_consensus_pool (env_root_bank env) generated ms ipr,
       service_highest_parent_ready = bank_slot (env_root_bank env), standstill_timer = env_now env,
       kick_off_parent_ready = False, waiting_blocks = [], service_events = [], service_exit = False,
       highest_finalized_cell = None, sent_events_out = [], sent_ops = [], fetched_blocks = []\<rparr>
   }"

definition kick_off :: "service_env \<Rightarrow> pool_service \<Rightarrow> pool_service option" where
  "kick_off env s =
     (let ms = pool_migration_status (service_pool s) in
      if \<not> kick_off_parent_ready s \<and> is_alpenglow_enabled (phase ms)
      then do {
        genesis \<leftarrow> genesis_block ms;
        (slot, parent) \<leftarrow> initial_parent_ready genesis (root_block env) (env_restored_parent_ready env);
        Some (s\<lparr>service_events := service_events s @ [ParentReady slot parent], kick_off_parent_ready := True\<rparr>)
      }
      else Some s)"

subsection \<open>Leader windows\<close>

definition parent_ready_slots_of :: "votor_event list \<Rightarrow> slot list" where
  "parent_ready_slots_of events = concat (map (\<lambda>e. case e of ParentReady s _ \<Rightarrow> [s] | _ \<Rightarrow> []) events)"

definition add_produce_block_event :: "service_env \<Rightarrow> pool_service \<Rightarrow> pool_service option" where
  "add_produce_block_event env s =
     (case parent_ready_slots_of (service_events s) of
        [] \<Rightarrow> Some s
      | x # xs \<Rightarrow>
          let start = fold max xs x in
          if start \<le> service_highest_parent_ready s then Some s
          else let s = s\<lparr>service_highest_parent_ready := start\<rparr> in
            (case env_slot_leader_at env start of
               None \<Rightarrow> Some (s\<lparr>service_exit := True\<rparr>)
             | Some leader \<Rightarrow>
                 if leader \<noteq> env_identity env then Some s
                 else (case block_production_parent start (pool_tracker (service_pool s)) of
                     MissedWindow \<Rightarrow> Some s
                   | ParentNotReady \<Rightarrow> None
                   | Parent parent \<Rightarrow> Some (s\<lparr>service_events := service_events s @
                       [ProduceWindow \<lparr>start_slot = start, end_slot = last_of_consecutive_leader_slots start,
                          window_parent_block = parent, block_timer = env_now env\<rparr>]\<rparr>))))"

subsection \<open>Standstill\<close>

definition check_standstill :: "service_env \<Rightarrow> pool_service \<Rightarrow> (unit, unit, pool_service) outcome" where
  "check_standstill env s =
     (if env_now env - standstill_timer s > delta_standstill
      then let
          s = (if kick_off_parent_ready s
            then s\<lparr>service_events := service_events s @ [Standstill
              (case highest_finalized_slot (service_pool s) of
                 None \<Rightarrow> bank_slot (env_root_bank env) | Some n \<Rightarrow> n)]\<rparr> else s);
          s = s\<lparr>standstill_timer := env_now env\<rparr>
        in send_certificates env (RefreshCertificates (get_certs_for_standstill (service_pool s))) s
      else Some (Inr (), s))"

subsection \<open>Blocks that wait for repair\<close>

definition request_waiting_block :: "service_env \<Rightarrow> block \<Rightarrow> pool_service \<Rightarrow> (unit, unit, pool_service) outcome" where
  "request_waiting_block env block s =
     (if block \<in> set (waiting_blocks s) then Some (Inr (), s)
      else (case env_repair_sender env block of
          Connected \<Rightarrow> Some (Inr (), s\<lparr>fetched_blocks := fetched_blocks s @ [block],
            waiting_blocks := waiting_blocks s @ [block]\<rparr>)
        | Full \<Rightarrow> Some (Inr (), s\<lparr>service_pool := add_to_pending_safe_to_notar block (service_pool s)\<rparr>)
        | Disconnected \<Rightarrow> Some (Inl (), s)))"

text \<open>
  The closure of \<open>retain\<close>: whether the block stays, and the event for it. \<^term>\<open>None\<close> is the panic of
  an \<open>expect\<close>.
\<close>

definition retain_waiting ::
    "service_env \<Rightarrow> consensus_pool \<Rightarrow> block \<Rightarrow> (bool \<times> votor_event list) option" where
  "retain_waiting env p block =
     (if block_slot block \<le> (case highest_finalized_slot p of None \<Rightarrow> 0 | Some n \<Rightarrow> n) then Some (False, [])
      else (case env_block_location env (block_slot block) (block_hash block) of
          Inl _ \<Rightarrow> None
        | Inr None \<Rightarrow> Some (True, [])
        | Inr (Some location) \<Rightarrow> (case env_meta_from_location env (block_slot block) location of
            Inl _ \<Rightarrow> None
          | Inr None \<Rightarrow> None
          | Inr (Some meta) \<Rightarrow> do {
              parent_slot \<leftarrow> meta_parent_slot meta;
              Some (if block_has_notar_fallback_or_stronger (Block parent_slot (meta_parent_block_id meta)) p
                then (False, [SafeToNotar block]) else (True, []))
            })))"

fun retain_loop ::
    "service_env \<Rightarrow> consensus_pool \<Rightarrow> block list \<Rightarrow> block list \<Rightarrow> votor_event list \<Rightarrow> (block list \<times> votor_event list) option" where
  "retain_loop env p [] kept events = Some (kept, events)"
| "retain_loop env p (b # bs) kept events = do {
     (keep, evs) \<leftarrow> retain_waiting env p b;
     retain_loop env p bs (if keep then kept @ [b] else kept) (events @ evs)
   }"

definition process_pending_safe_to_notar :: "service_env \<Rightarrow> pool_service \<Rightarrow> (unit, unit, pool_service) outcome" where
  "process_pending_safe_to_notar env s =
     (let (blocks, p) = take_pending_safe_to_notar (service_pool s) in do {
        r \<leftarrow> for_each (request_waiting_block env) blocks (s\<lparr>service_pool := p\<rparr>);
        and_then r (\<lambda>_ s. do {
          (kept, events) \<leftarrow> retain_loop env (service_pool s) (waiting_blocks s) [] (service_events s);
          Some (Inr (), s\<lparr>waiting_blocks := kept, service_events := events\<rparr>)
        })
      })"

subsection \<open>The loop\<close>

text \<open>
  The events go to the handler one by one; the drained list is empty afterwards even if the channel is
  disconnected.
\<close>

definition drain_events :: "service_env \<Rightarrow> pool_service \<Rightarrow> (unit, unit, pool_service) outcome" where
  "drain_events env s =
     (if service_events s = [] then Some (Inr (), s)
      else if env_event_sender env = Disconnected then Some (Inl (), s\<lparr>service_events := []\<rparr>)
      else Some (Inr (), s\<lparr>sent_events_out := sent_events_out s @ service_events s, service_events := []\<rparr>))"

text \<open>The part of an iteration before messages are received.\<close>

definition service_round :: "service_env \<Rightarrow> pool_service \<Rightarrow> (unit, unit, pool_service) outcome" where
  "service_round env s = do {
     s \<leftarrow> kick_off env s;
     s \<leftarrow> add_produce_block_event env s;
     r \<leftarrow> check_standstill env s;
     and_then r (\<lambda>_ s. do {
       r \<leftarrow> process_pending_safe_to_notar env s;
       and_then r (\<lambda>_ s. drain_events env s)
     })
   }"

datatype received =
    OwnMessages "consensus_message list"
  | VerifiedBatches "sig_verified_batch list"
  | NothingReceived
  | ReceiverClosed

definition receive ::
    "crypto_library \<Rightarrow> service_env \<Rightarrow> received \<Rightarrow> pool_service \<Rightarrow> (unit, unit, pool_service) outcome" where
  "receive lib env input s =
     (case input of
        OwnMessages msgs \<Rightarrow> handle_own_message lib env msgs s
      | VerifiedBatches batches \<Rightarrow> handle_sig_verified_batch lib env batches s
      | NothingReceived \<Rightarrow> Some (Inr (), s)
      | ReceiverClosed \<Rightarrow> Some (Inl (), s))"

text \<open>
  One iteration of \<open>main_loop\<close>: \<open>handle_channel_disconnected\<close> sets the exit flag. The environment may
  change while the service waits for messages.
\<close>

definition exit_on_error :: "(unit + unit) \<times> pool_service \<Rightarrow> pool_service" where
  "exit_on_error r = (case fst r of Inl _ \<Rightarrow> (snd r)\<lparr>service_exit := True\<rparr> | Inr _ \<Rightarrow> snd r)"

definition main_loop_iteration ::
    "crypto_library \<Rightarrow> service_env \<Rightarrow> service_env \<Rightarrow> received \<Rightarrow> pool_service \<Rightarrow> pool_service option" where
  "main_loop_iteration lib env env' input s =
     (if service_exit s then Some s
      else do {
        r \<leftarrow> service_round env s;
        r \<leftarrow> and_then r (\<lambda>_ s. receive lib env' input s);
        Some (exit_on_error r)
      })"

end
