(* ===== verification/Timers.thy ===== *)
theory Timers
  imports Votor_Types "HOL-Library.Multiset"
begin

text \<open>
  \<open>crates/consensus/votor/src/timer_manager/timers.rs\<close>: the skip timers. \<open>set_timeouts\<close> starts the
  timer of a leader window, \<open>progress\<close> fires every timer that is due. The thread of
  \<open>timer_manager.rs\<close> calls \<open>progress\<close> with the current time again and again.

  Time is counted in nanoseconds. \<open>std::time::Instant\<close> is a 64-bit signed number of seconds with
  nanoseconds, so adding to it is checked. The scaling of a duration by a power of 1.05 is done in
  floating point, whose \<open>powi\<close> has no specified precision: it is the parameter \<open>scale\<close>, which gives
  the converted product, \<^term>\<open>None\<close> when the conversion fails. Statistics are not modelled.
\<close>

section \<open>Model\<close>

type_synonym duration = nat
type_synonym scale_duration = "duration \<Rightarrow> int \<Rightarrow> duration option"

definition instant_max :: instant where
  "instant_max = 2 ^ 63 * 10 ^ 9 - 1"

definition instant_add :: "instant \<Rightarrow> duration \<Rightarrow> instant option" where
  "instant_add t d = (if t + d \<le> instant_max then Some (t + d) else None)"

definition instant_sub :: "instant \<Rightarrow> duration \<Rightarrow> instant option" where
  "instant_sub t d = (if d \<le> t then Some (t - d) else None)"

definition delta_timeout_const :: duration where
  "delta_timeout_const = (let delta = 250 * 10 ^ 6 in delta + 3 * delta)"

definition max_timeout :: duration where
  "max_timeout = 3600 * 10 ^ 9"

text \<open>The exponent of 1.05, converted to \<open>i32\<close>; the multiplier 1.0 is the exponent 0.\<close>

definition calculate_timeout_multiplier :: "slot \<Rightarrow> slot option \<Rightarrow> int" where
  "calculate_timeout_multiplier slot standstill =
     (case standstill of
        None \<Rightarrow> 0
      | Some s \<Rightarrow> (let leader_windows = (slot - s) div num_consecutive_leader_slots
          in sint (of_nat leader_windows :: 32 word)))"

record timeout_config =
  cfg_delta_timeout :: duration
  cfg_delta_first_slice :: duration
  cfg_delta_block :: duration

definition scaled :: "scale_duration \<Rightarrow> slot \<Rightarrow> slot option \<Rightarrow> timeout_config \<Rightarrow> timeout_config" where
  "scaled scale slot standstill cfg =
     cfg\<lparr>cfg_delta_timeout :=
       (case scale (cfg_delta_timeout cfg) (calculate_timeout_multiplier slot standstill) of
          None \<Rightarrow> max_timeout | Some d \<Rightarrow> min d max_timeout)\<rparr>"

datatype timer_state =
    WaitForFirstSlice "slot list" instant timeout_config
  | WaitForBlock "slot list" instant timeout_config
  | Done

definition timer_new :: "slot \<Rightarrow> timeout_config \<Rightarrow> instant \<Rightarrow> (timer_state \<times> instant) option" where
  "timer_new slot cfg now = do {
     let window = [slot..<last_of_consecutive_leader_slots slot + 1];
     ensure (window \<noteq> []);
     t \<leftarrow> instant_add now (cfg_delta_timeout cfg);
     timeout \<leftarrow> instant_add t (cfg_delta_first_slice cfg);
     Some (WaitForFirstSlice window timeout cfg, timeout)
   }"

definition timer_progress :: "instant \<Rightarrow> timer_state \<Rightarrow> (votor_event option \<times> timer_state) option" where
  "timer_progress now st =
     (case st of
        WaitForFirstSlice window timeout cfg \<Rightarrow> do {
          ensure (window \<noteq> []);
          if now < timeout then Some (None, st)
          else do {
            t \<leftarrow> instant_add timeout (cfg_delta_block cfg);
            new_timeout \<leftarrow> instant_sub t (cfg_delta_first_slice cfg);
            Some (Some (TimeoutCrashedLeader (hd window)), WaitForBlock window new_timeout cfg)
          }
        }
      | WaitForBlock window timeout cfg \<Rightarrow> do {
          ensure (window \<noteq> []);
          if now < timeout then Some (None, st)
          else if tl window = [] then Some (Some (Timeout (hd window)), Done)
          else do {
            t \<leftarrow> instant_add timeout (cfg_delta_block cfg);
            Some (Some (Timeout (hd window)), WaitForBlock (tl window) t cfg)
          }
        }
      | Done \<Rightarrow> Some (None, Done))"

definition next_fire :: "timer_state \<Rightarrow> instant option" where
  "next_fire st =
     (case st of
        WaitForFirstSlice _ timeout _ \<Rightarrow> Some timeout
      | WaitForBlock _ timeout _ \<Rightarrow> Some timeout
      | Done \<Rightarrow> None)"

text \<open>
  The heap of reversed pairs pops the least pair first: it is the sorted list of its elements.
  The events sent so far are a field of the state, as is whether their receiver is still there.
\<close>

record timers =
  timers_delta_timeout :: duration
  timer_map :: "(slot, timer_state) btree"
  heap :: "(instant \<times> slot) list"
  sent_events :: "votor_event list"
  receiver_alive :: bool

definition new_timers :: "duration \<Rightarrow> timers" where
  "new_timers d = \<lparr>timers_delta_timeout = d, timer_map = [], heap = [], sent_events = [], receiver_alive = True\<rparr>"

definition heap_push :: "instant \<times> slot \<Rightarrow> (instant \<times> slot) list \<Rightarrow> (instant \<times> slot) list" where
  "heap_push e h = insort e h"

definition set_timeouts ::
    "scale_duration \<Rightarrow> slot \<Rightarrow> instant \<Rightarrow> slot option \<Rightarrow> duration \<Rightarrow> duration \<Rightarrow> timers \<Rightarrow> (bool \<times> timers) option" where
  "set_timeouts scale slot now standstill delta_first_slice delta_block ts = do {
     ensure (delta_first_slice \<le> delta_block);
     ensure (length (heap ts) = length (timer_map ts));
     let cfg = scaled scale slot standstill
       \<lparr>cfg_delta_timeout = timers_delta_timeout ts, cfg_delta_first_slice = delta_first_slice,
        cfg_delta_block = delta_block\<rparr>;
     (timer, fire) \<leftarrow> timer_new slot cfg now;
     (case bt_get (timer_map ts) slot of
        Some _ \<Rightarrow> Some (False, ts)
      | None \<Rightarrow> Some (True, ts\<lparr>heap := heap_push (fire, slot) (heap ts),
          timer_map := bt_insert slot timer (timer_map ts)\<rparr>))
   }"

text \<open>\<open>ret_timeout.map_or(next_fire, |r| min(r, next_fire))\<close>.\<close>

definition earlier :: "instant option \<Rightarrow> instant \<Rightarrow> instant option" where
  "earlier ret fire = Some (case ret of None \<Rightarrow> fire | Some r \<Rightarrow> min r fire)"

text \<open>A round of the loop of \<open>progress\<close> that fires the popped timer, and the loop.\<close>

definition fire_round :: "instant \<Rightarrow> slot \<Rightarrow> instant option \<Rightarrow> timers \<Rightarrow> (instant option \<times> timers) option" where
  "fire_round now slot ret ts = do {
     timer \<leftarrow> bt_get (timer_map ts) slot;
     let ts = ts\<lparr>heap := tl (heap ts), timer_map := bt_remove slot (timer_map ts)\<rparr>;
     (event, timer) \<leftarrow> timer_progress now timer;
     ensure (event = None \<or> receiver_alive ts);
     let ts = ts\<lparr>sent_events := sent_events ts @ (case event of None \<Rightarrow> [] | Some e \<Rightarrow> [e])\<rparr>;
     (case next_fire timer of
        None \<Rightarrow> Some (ret, ts)
      | Some fire \<Rightarrow> do {
          ensure (bt_get (timer_map ts) slot = None);
          Some (earlier ret fire, ts\<lparr>heap := heap_push (fire, slot) (heap ts),
            timer_map := bt_insert slot timer (timer_map ts)\<rparr>)
        })
   }"

text \<open>
  Every round either fires a timer, which has one firing less to do, or moves it behind the current
  time, so that fewer entries of the heap are due.
\<close>

primrec firings :: "timer_state \<Rightarrow> nat" where
  "firings (WaitForFirstSlice window _ _) = Suc (length window)"
| "firings (WaitForBlock window _ _) = length window"
| "firings Done = 0"

definition work :: "instant \<Rightarrow> timers \<Rightarrow> nat" where
  "work now ts = (\<Sum>e\<leftarrow>timer_map ts. firings (snd e)) + length (filter (\<lambda>e. fst e \<le> now) (heap ts))"

lemma firings_bt_remove:
  "bt_get m k = Some st \<Longrightarrow>
     (\<Sum>e\<leftarrow>bt_remove k m. firings (snd e)) + firings st \<le> (\<Sum>e\<leftarrow>m. firings (snd e))"
proof (induction m)
  case (Cons e m)
  have "(\<Sum>e\<leftarrow>filter P m. firings (snd e)) \<le> (\<Sum>e\<leftarrow>m. firings (snd e))" for P
    by (induction m) auto
  then show ?case using Cons by (auto simp: bt_get_def bt_remove_def split: if_splits)
qed simp

lemma firings_bt_insert:
  "(\<Sum>e\<leftarrow>bt_insert k st m. firings (snd e)) \<le> firings st + (\<Sum>e\<leftarrow>m. firings (snd e))"
  by (induction k st m rule: bt_insert.induct) auto

lemma timer_progress_work:
  assumes "timer_progress now st = Some (e, st')"
  shows "firings st' < firings st \<or> firings st' = firings st \<and> (\<forall>t. next_fire st' = Some t \<longrightarrow> now < t)"
  using assms by (cases st) (auto simp: timer_progress_def next_fire_def split: if_splits elim!: bind_eq_SomeE)

lemma filter_insort: "length (filter P (insort x xs)) = length (filter P xs) + (if P x then 1 else 0)"
  by (induction xs) auto

lemma fire_round_decreases:
  assumes "fire_round now slot ret ts = Some (ret', ts')" and "heap ts = (fire, slot) # h" and "fire \<le> now"
  shows "work now ts' < work now ts"
proof -
  obtain st e st' where get: "bt_get (timer_map ts) slot = Some st" and st': "timer_progress now st = Some (e, st')"
    using assms(1) by (auto simp: fire_round_def Let_def elim!: bind_eq_SomeE)
  note removed = firings_bt_remove [OF get]
  show ?thesis
  proof (cases "next_fire st'")
    case None
    then show ?thesis
      using assms removed get st' by (auto simp: fire_round_def Let_def work_def split: if_splits)
  next
    case (Some t)
    then show ?thesis
      using assms removed get st' timer_progress_work [OF st'] firings_bt_insert [of slot st' "bt_remove slot (timer_map ts)"]
      by (auto simp: fire_round_def Let_def work_def heap_push_def filter_insort split: if_splits)
  qed
qed

function progress_loop :: "instant \<Rightarrow> instant option \<Rightarrow> timers \<Rightarrow> (instant option \<times> timers) option" where
  "progress_loop now ret ts =
     (if length (heap ts) \<noteq> length (timer_map ts) then None
      else case heap ts of
          [] \<Rightarrow> Some (ret, ts)
        | (fire, slot) # h \<Rightarrow>
            if now < fire then Some (earlier ret fire, ts)
            else (case fire_round now slot ret ts of
                None \<Rightarrow> None
              | Some (ret', ts') \<Rightarrow> progress_loop now ret' ts'))"
  by pat_completeness auto
termination
  by (relation "measure (\<lambda>(now, ret, ts). work now ts)") (auto intro: fire_round_decreases simp: not_less)

declare progress_loop.simps [simp del]

definition progress :: "instant \<Rightarrow> timers \<Rightarrow> (instant option \<times> timers) option" where
  "progress now ts = progress_loop now None ts"


section \<open>The agenda of the timers\<close>

text \<open>
  A timer stands for the events it is still to send, each with its deadline. The agenda of all timers
  is sorted by deadline, then by the first slot of the window; the events of one timer keep their
  order.
\<close>

fun block_schedule :: "slot list \<Rightarrow> instant \<Rightarrow> duration \<Rightarrow> (instant \<times> votor_event) list" where
  "block_schedule [] t d = []"
| "block_schedule (s # w) t d = (t, Timeout s) # block_schedule w (t + d) d"

primrec schedule :: "timer_state \<Rightarrow> (instant \<times> votor_event) list" where
  "schedule (WaitForFirstSlice w t cfg) = (t, TimeoutCrashedLeader (hd w)) #
     block_schedule w (t + cfg_delta_block cfg - cfg_delta_first_slice cfg) (cfg_delta_block cfg)"
| "schedule (WaitForBlock w t cfg) = block_schedule w t (cfg_delta_block cfg)"
| "schedule Done = []"

definition entries :: "slot \<times> timer_state \<Rightarrow> ((instant \<times> slot) \<times> votor_event) list" where
  "entries e = map (\<lambda>(t, ev). ((t, fst e), ev)) (schedule (snd e))"

definition agenda :: "timers \<Rightarrow> ((instant \<times> slot) \<times> votor_event) list" where
  "agenda ts = sort_key fst (concat (map entries (timer_map ts)))"

text \<open>A timer in the map is not done, and none of its deadlines overflows.\<close>

primrec timer_ok :: "timer_state \<Rightarrow> bool" where
  "timer_ok (WaitForFirstSlice w t cfg) \<longleftrightarrow> w \<noteq> [] \<and> cfg_delta_first_slice cfg \<le> cfg_delta_block cfg \<and>
     t + length w * cfg_delta_block cfg \<le> instant_max"
| "timer_ok (WaitForBlock w t cfg) \<longleftrightarrow> w \<noteq> [] \<and> t + (length w - 1) * cfg_delta_block cfg \<le> instant_max"
| "timer_ok Done \<longleftrightarrow> False"

definition fire_of :: "slot \<times> timer_state \<Rightarrow> instant \<times> slot" where
  "fire_of e = (the (next_fire (snd e)), fst e)"

definition timers_ok :: "timers \<Rightarrow> bool" where
  "timers_ok ts \<longleftrightarrow> bt_wf (timer_map ts) \<and> (\<forall>e \<in> set (timer_map ts). timer_ok (snd e)) \<and>
     sorted (heap ts) \<and> mset (heap ts) = mset (map fire_of (timer_map ts)) \<and> receiver_alive ts"

lemma sort_key_front:
  assumes "\<forall>y \<in> set ys. f x < f y" and "\<forall>z \<in> set zs. f x \<le> f z"
  shows "sort_key f (ys @ x # zs) = x # sort_key f (ys @ zs)"
  using assms(1)
proof (induction ys)
  case Nil
  show ?case using assms(2) by (simp add: insort_is_Cons)
next
  case (Cons y ys)
  then show ?case by auto
qed

lemma block_schedule_ge: "x \<in> set (block_schedule w t d) \<Longrightarrow> t \<le> fst x"
  by (induction w t d rule: block_schedule.induct) (auto intro: order.trans)

text \<open>One firing: the timer sends the first event of its schedule and keeps the rest.\<close>

lemma timer_progress_law:
  assumes "timer_ok st" and "next_fire st = Some t" and "t \<le> now"
  shows "\<exists>ev st'. timer_progress now st = Some (Some ev, st') \<and> schedule st = (t, ev) # schedule st' \<and>
    (case next_fire st' of None \<Rightarrow> st' = Done | Some t' \<Rightarrow> timer_ok st' \<and> t \<le> t')"
proof (cases st)
  case (WaitForFirstSlice w t0 cfg)
  have "t0 + cfg_delta_block cfg \<le> t0 + length w * cfg_delta_block cfg"
    using assms(1) WaitForFirstSlice by (cases w) auto
  moreover have "t0 + cfg_delta_block cfg + (length w - 1) * cfg_delta_block cfg = t0 + length w * cfg_delta_block cfg"
    using assms(1) WaitForFirstSlice by (cases w) auto
  ultimately show ?thesis
    using assms WaitForFirstSlice
    by (auto simp: timer_progress_def next_fire_def instant_add_def instant_sub_def)
next
  case (WaitForBlock w t0 cfg)
  then obtain s w' where w: "w = s # w'" using assms(1) by (cases w) auto
  show ?thesis
  proof (cases w')
    case Nil
    then show ?thesis using assms WaitForBlock w by (simp add: timer_progress_def next_fire_def)
  next
    case (Cons s' w'')
    then show ?thesis using assms WaitForBlock w
      by (simp add: timer_progress_def next_fire_def instant_add_def)
  qed
qed (use assms in simp)

lemma schedule_ge:
  assumes "timer_ok st" and "x \<in> set (schedule st)"
  shows "the (next_fire st) \<le> fst x"
  using assms by (cases st) (auto simp: next_fire_def dest!: block_schedule_ge)

lemma timer_ok_next_fire: "timer_ok st \<Longrightarrow> \<exists>t. next_fire st = Some t"
  by (cases st) (auto simp: next_fire_def)

lemma bt_replace:
  assumes "bt_wf m" and "bt_get m k = Some v"
  obtains xs ys where "m = xs @ (k, v) # ys" and "bt_remove k m = xs @ ys"
    and "bt_insert k v' (bt_remove k m) = xs @ (k, v') # ys" and "\<forall>e \<in> set (xs @ ys). fst e \<noteq> k"
proof -
  obtain xs ys where m: "m = xs @ (k, v) # ys"
    using bt_get_Some_in_set [OF assms(2)] by (auto dest: split_list)
  have order: "\<forall>e \<in> set xs. fst e < k" "\<forall>e \<in> set ys. k < fst e"
    using assms(1) by (auto simp: m bt_wf_def sorted_wrt_append)
  have "filter (\<lambda>e. fst e \<noteq> k) xs = xs" "filter (\<lambda>e. fst e \<noteq> k) ys = ys"
    using order by (auto intro!: filter_True)
  then have removed: "bt_remove k m = xs @ ys"
    by (simp add: m bt_remove_def)
  have "bt_insert k v' ys = (k, v') # ys" using order(2) by (cases ys) auto
  with order(1) have "bt_insert k v' (xs @ ys) = xs @ (k, v') # ys"
    by (induction xs) auto
  with m removed order show thesis by (intro that) auto
qed

text \<open>The entry at the front of the heap belongs to the first event of the agenda.\<close>

lemma agenda_front:
  assumes split: "timer_map ts = xs @ (k, st) # ys" and ok: "timers_ok ts"
    and front: "heap ts = (t, k) # h" and others: "\<forall>e \<in> set (xs @ ys). fst e \<noteq> k"
    and sch: "schedule st = (t, ev) # rest" and sch': "schedule st' = rest"
    and map': "timer_map ts' = xs @ (k, st') # ys \<or> timer_map ts' = xs @ ys \<and> rest = []"
  shows "agenda ts = ((t, k), ev) # agenda ts'"
proof -
  have least: "(t, k) \<le> fire_of e" if "e \<in> set (xs @ (k, st) # ys)" for e
  proof -
    have "fire_of e \<in> set (heap ts)"
      using that ok mset_eq_setD [of "heap ts" "map fire_of (timer_map ts)"] by (auto simp: timers_ok_def split)
    then show ?thesis using ok front by (auto simp: timers_ok_def less_imp_le)
  qed
  have ge: "(t, k) \<le> fst x" if "e \<in> set (xs @ (k, st) # ys)" "x \<in> set (entries e)" for e x
  proof -
    have "timer_ok (snd e)" using that(1) ok by (auto simp: timers_ok_def split)
    then have "fire_of e \<le> fst x"
      using that(2) by (auto simp: entries_def fire_of_def less_eq_prod_def le_less dest: schedule_ge)
    with least [OF that(1)] show ?thesis by (rule order.trans)
  qed
  have "\<forall>y \<in> set (concat (map entries xs)). (t, k) < fst y"
  proof
    fix y
    assume "y \<in> set (concat (map entries xs))"
    then obtain e where e: "e \<in> set xs" "y \<in> set (entries e)" by auto
    then have "snd (fst y) \<noteq> k" using others by (auto simp: entries_def)
    moreover have "(t, k) \<le> fst y" using ge [of e y] e by simp
    ultimately show "(t, k) < fst y" by (metis order.not_eq_order_implies_strict snd_conv)
  qed
  moreover have "\<forall>z \<in> set (map (\<lambda>(t, ev). ((t, k), ev)) rest @ concat (map entries ys)). (t, k) \<le> fst z"
  proof
    fix z
    assume "z \<in> set (map (\<lambda>(t, ev). ((t, k), ev)) rest @ concat (map entries ys))"
    then have "z \<in> set (entries (k, st)) \<or> (\<exists>e \<in> set ys. z \<in> set (entries e))"
      by (auto simp: entries_def sch)
    then show "(t, k) \<le> fst z" using ge [of _ z] by auto
  qed
  ultimately have "agenda ts = ((t, k), ev) #
      sort_key fst (concat (map entries xs) @ map (\<lambda>(t, ev). ((t, k), ev)) rest @ concat (map entries ys))"
    by (simp add: agenda_def split entries_def sch sort_key_front)
  with map' show ?thesis by (auto simp: agenda_def entries_def sch')
qed

lemma fire_round_law:
  assumes ok: "timers_ok ts" and front: "heap ts = (t, k) # h" and due: "t \<le> now"
  obtains ret' ts' ev where "fire_round now k ret ts = Some (ret', ts')" and "timers_ok ts'"
    and "agenda ts = ((t, k), ev) # agenda ts'" and "sent_events ts' = sent_events ts @ [ev]"
proof -
  have wf: "bt_wf (timer_map ts)" using ok by (simp add: timers_ok_def)
  have "(t, k) \<in> set (map fire_of (timer_map ts))"
    using ok front mset_eq_setD [of "heap ts" "map fire_of (timer_map ts)"] by (auto simp: timers_ok_def)
  then obtain st where mem: "(k, st) \<in> set (timer_map ts)" and t: "t = the (next_fire st)"
    by (auto simp: fire_of_def)
  have stok: "timer_ok st" using mem ok by (auto simp: timers_ok_def)
  then have fire: "next_fire st = Some t" using t timer_ok_next_fire by auto
  have get: "bt_get (timer_map ts) k = Some st" by (rule bt_get_in_set [OF wf mem])
  obtain ev st' where prog: "timer_progress now st = Some (Some ev, st')" and sch: "schedule st = (t, ev) # schedule st'"
    and nxt: "case next_fire st' of None \<Rightarrow> st' = Done | Some t' \<Rightarrow> timer_ok st' \<and> t \<le> t'"
    using timer_progress_law [OF stok fire due] by blast
  obtain xs ys where m: "timer_map ts = xs @ (k, st) # ys" and rem: "bt_remove k (timer_map ts) = xs @ ys"
    and ins: "bt_insert k st' (bt_remove k (timer_map ts)) = xs @ (k, st') # ys"
    and others: "\<forall>e \<in> set (xs @ ys). fst e \<noteq> k"
    by (rule bt_replace [OF wf get, of st'])
  have alive: "receiver_alive ts" and sh: "sorted h"
    using ok front by (simp_all add: timers_ok_def)
  have gone: "bt_get (bt_remove k (timer_map ts)) k = None" by (simp add: bt_get_remove)
  have mh: "mset h = mset (map fire_of (xs @ ys))"
    using ok by (simp add: timers_ok_def m front fire_of_def fire)
  show thesis
  proof (cases "next_fire st'")
    case None
    define ts' where "ts' = ts\<lparr>heap := h, timer_map := xs @ ys, sent_events := sent_events ts @ [ev]\<rparr>"
    have "timers_ok ts'"
      using ok sh mh m by (auto simp: timers_ok_def ts'_def bt_wf_def sorted_wrt_append)
    moreover have "agenda ts = ((t, k), ev) # agenda ts'"
      using agenda_front [OF m ok front others sch refl] None nxt by (simp add: ts'_def)
    moreover have "fire_round now k ret ts = Some (ret, ts')"
      by (simp add: fire_round_def get prog alive None front rem ts'_def)
    ultimately show thesis by (intro that) (auto simp: ts'_def)
  next
    case (Some t')
    define ts' where "ts' = ts\<lparr>heap := heap_push (t', k) h, timer_map := xs @ (k, st') # ys,
      sent_events := sent_events ts @ [ev]\<rparr>"
    have "timers_ok ts'"
      using ok sh mh m Some nxt
      by (auto simp: timers_ok_def ts'_def bt_wf_def sorted_wrt_append heap_push_def sorted_insort fire_of_def)
    moreover have "agenda ts = ((t, k), ev) # agenda ts'"
      using agenda_front [OF m ok front others sch refl] by (simp add: ts'_def)
    moreover have "fire_round now k ret ts = Some (earlier ret t', ts')"
      using ins rem gone by (simp add: fire_round_def get prog alive Some front ts'_def)
    ultimately show thesis by (intro that) (auto simp: ts'_def)
  qed
qed

lemma agenda_hd:
  assumes ok: "timers_ok ts" and front: "heap ts = (t, k) # h"
  obtains ev rest where "agenda ts = ((t, k), ev) # rest"
  using fire_round_law [OF ok front order_refl] by blast

lemma agenda_Nil:
  assumes "timers_ok ts" and "heap ts = []"
  shows "agenda ts = []"
  using assms by (auto simp: timers_ok_def agenda_def)

lemma sorted_agenda: "sorted (map fst (agenda ts))"
  by (simp add: agenda_def)

lemma timers_ok_length: "timers_ok ts \<Longrightarrow> length (heap ts) = length (timer_map ts)"
  unfolding timers_ok_def using mset_eq_length by fastforce

lemma progress_loop_steps:
  assumes "timers_ok ts"
  shows "heap ts = [] \<Longrightarrow> progress_loop now ret ts = Some (ret, ts)"
    and "heap ts = (t, k) # h \<Longrightarrow> now < t \<Longrightarrow> progress_loop now ret ts = Some (earlier ret t, ts)"
    and "heap ts = (t, k) # h \<Longrightarrow> t \<le> now \<Longrightarrow> fire_round now k ret ts = Some (ret', ts') \<Longrightarrow>
      progress_loop now ret ts = progress_loop now ret' ts'"
  using timers_ok_length [OF assms] by (subst progress_loop.simps, simp)+

text \<open>The loop fires the due part of the agenda, in its order, and keeps the rest.\<close>

lemma progress_loop_law:
  assumes "timers_ok ts"
  shows "\<exists>ret' ts'. progress_loop now ret ts = Some (ret', ts') \<and> timers_ok ts' \<and>
    sent_events ts' = sent_events ts @ map snd (takeWhile (\<lambda>x. fst (fst x) \<le> now) (agenda ts)) \<and>
    agenda ts' = dropWhile (\<lambda>x. fst (fst x) \<le> now) (agenda ts) \<and>
    (agenda ts' = [] \<or> (\<exists>w. ret' = Some w \<and> w \<le> fst (fst (hd (agenda ts')))))"
  using assms
proof (induction now ret ts rule: progress_loop.induct)
  case (1 now ret ts)
  show ?case
  proof (cases "heap ts")
    case Nil
    then show ?thesis
      using "1.prems" agenda_Nil [OF "1.prems" Nil] progress_loop_steps(1) [OF "1.prems"] by simp
  next
    case (Cons e h)
    obtain t k where e: "e = (t, k)" by (cases e)
    note front = Cons [unfolded e]
    show ?thesis
    proof (cases "now < t")
      case True
      obtain ev rest where "agenda ts = ((t, k), ev) # rest" by (rule agenda_hd [OF "1.prems" front])
      with True "1.prems" show ?thesis
        using progress_loop_steps(2) [OF "1.prems" front True, of ret] by (simp add: earlier_def split: option.splits)
    next
      case False
      then have due: "t \<le> now" by simp
      obtain ret' ts' ev where round: "fire_round now k ret ts = Some (ret', ts')" and ok': "timers_ok ts'"
        and ag: "agenda ts = ((t, k), ev) # agenda ts'" and sent: "sent_events ts' = sent_events ts @ [ev]"
        by (rule fire_round_law [OF "1.prems" front due])
      have step: "progress_loop now ret ts = progress_loop now ret' ts'"
        by (rule progress_loop_steps(3) [OF "1.prems" front due round])
      have "\<exists>ret'' ts''. progress_loop now ret' ts' = Some (ret'', ts'') \<and> timers_ok ts'' \<and>
          sent_events ts'' = sent_events ts' @ map snd (takeWhile (\<lambda>x. fst (fst x) \<le> now) (agenda ts')) \<and>
          agenda ts'' = dropWhile (\<lambda>x. fst (fst x) \<le> now) (agenda ts') \<and>
          (agenda ts'' = [] \<or> (\<exists>w. ret'' = Some w \<and> w \<le> fst (fst (hd (agenda ts'')))))"
        using timers_ok_length [OF "1.prems"] front False round ok' by (intro "1.IH") auto
      then show ?thesis using due by (simp add: step ag sent)
    qed
  qed
qed

section \<open>Starting the timer of a window\<close>

text \<open>
  The deadlines of a window that starts at \<open>now\<close>: the leader counts as crashed after
  \<open>delta_timeout + delta_first_slice\<close>, the block of the \<open>i\<close>-th slot is overdue after
  \<open>delta_timeout + (i + 1) * delta_block\<close>.
\<close>

definition window_schedule ::
    "slot \<Rightarrow> instant \<Rightarrow> timeout_config \<Rightarrow> ((instant \<times> slot) \<times> votor_event) list" where
  "window_schedule slot now cfg =
     ((now + cfg_delta_timeout cfg + cfg_delta_first_slice cfg, slot), TimeoutCrashedLeader slot) #
     map (\<lambda>i. ((now + cfg_delta_timeout cfg + (i + 1) * cfg_delta_block cfg, slot), Timeout (slot + i)))
       [0..<num_consecutive_leader_slots - leader_slot_index slot]"

lemma block_schedule_upt:
  "block_schedule [s..<s + n] t d = map (\<lambda>i. (t + i * d, Timeout (s + i))) [0..<n]"
proof (induction n arbitrary: s t)
  case (Suc n)
  have "[s..<s + Suc n] = s # [Suc s..<Suc s + n]" by (simp add: upt_conv_Cons)
  moreover have "[0..<Suc n] = 0 # map Suc [0..<n]" by (simp add: map_Suc_upt upt_conv_Cons)
  ultimately show ?case using Suc.IH [of "Suc s" "t + d"] by (simp add: algebra_simps)
qed simp

lemma window_eq:
  "[slot..<last_of_consecutive_leader_slots slot + 1] =
     [slot..<slot + (num_consecutive_leader_slots - leader_slot_index slot)]"
proof -
  have "last_of_consecutive_leader_slots slot + 1 = slot + (num_consecutive_leader_slots - leader_slot_index slot)"
    by (simp add: last_of_consecutive_leader_slots_def first_of_consecutive_leader_slots_def
        leader_slot_index_def num_consecutive_leader_slots_def) presburger
  then show ?thesis by simp
qed

lemma scaled_fields [simp]:
  "cfg_delta_first_slice (scaled scale slot ss cfg) = cfg_delta_first_slice cfg"
  "cfg_delta_block (scaled scale slot ss cfg) = cfg_delta_block cfg"
  by (simp_all add: scaled_def)

lemma scaled_bound: "cfg_delta_timeout (scaled scale slot ss cfg) \<le> max_timeout"
  by (simp add: scaled_def split: option.splits)

lemma timer_new_law:
  assumes "cfg_delta_first_slice cfg \<le> cfg_delta_block cfg" and "cfg_delta_timeout cfg \<le> max_timeout"
    and "now + max_timeout + 5 * cfg_delta_block cfg \<le> instant_max"
  obtains st t where "timer_new slot cfg now = Some (st, t)" and "next_fire st = Some t" and "timer_ok st"
    and "entries (slot, st) = window_schedule slot now cfg"
proof -
  define n where "n = num_consecutive_leader_slots - leader_slot_index slot"
  have n: "0 < n" "n \<le> 4"
    by (auto simp: n_def num_consecutive_leader_slots_def leader_slot_index_def)
  define t where "t = now + cfg_delta_timeout cfg + cfg_delta_first_slice cfg"
  define st where "st = WaitForFirstSlice [slot..<slot + n] t cfg"
  have "n * cfg_delta_block cfg \<le> 4 * cfg_delta_block cfg" using n by simp
  then have fits: "t + n * cfg_delta_block cfg \<le> instant_max" using assms unfolding t_def by linarith
  have "timer_new slot cfg now = Some (st, t)"
    using assms fits n window_eq [of slot]
    by (simp add: timer_new_def Let_def instant_add_def st_def t_def flip: n_def)
  have "timer_ok st" using assms(1) fits n by (simp add: st_def)
  have "t + cfg_delta_block cfg - cfg_delta_first_slice cfg = now + cfg_delta_timeout cfg + cfg_delta_block cfg"
    by (simp add: t_def)
  moreover have "hd [slot..<slot + n] = slot" using n(1) by simp
  ultimately have "entries (slot, st) = window_schedule slot now cfg"
    by (simp add: entries_def window_schedule_def st_def block_schedule_upt t_def comp_def add.assoc flip: n_def)
  with \<open>timer_new slot cfg now = Some (st, t)\<close> \<open>timer_ok st\<close>
  show thesis by (intro that [of st t]) (auto simp: st_def next_fire_def)
qed

lemma mset_bt_insert: "bt_get m k = None \<Longrightarrow> mset (bt_insert k v m) = add_mset (k, v) (mset m)"
  by (induction k v m rule: bt_insert.induct) (auto simp: bt_get_def split: if_splits)

lemma mset_agenda: "mset (agenda ts) = (\<Sum>e \<in># mset (timer_map ts). mset (entries e))"
  by (simp add: agenda_def mset_concat comp_def flip: sum_mset_sum_list)

lemma set_timeouts_law:
  fixes scale slot ss d1 db ts
  defines "cfg \<equiv> scaled scale slot ss
    \<lparr>cfg_delta_timeout = timers_delta_timeout ts, cfg_delta_first_slice = d1, cfg_delta_block = db\<rparr>"
  assumes ok: "timers_ok ts" and "d1 \<le> db" and fits: "now + max_timeout + 5 * db \<le> instant_max"
  shows "\<exists>ts'. set_timeouts scale slot now ss d1 db ts = Some (bt_get (timer_map ts) slot = None, ts') \<and>
    timers_ok ts' \<and> sent_events ts' = sent_events ts \<and>
    mset (agenda ts') = mset (agenda ts) +
      (if bt_get (timer_map ts) slot = None then mset (window_schedule slot now cfg) else {#})"
proof -
  have "cfg_delta_first_slice cfg \<le> cfg_delta_block cfg" "cfg_delta_timeout cfg \<le> max_timeout"
      "now + max_timeout + 5 * cfg_delta_block cfg \<le> instant_max"
    using assms(3) fits scaled_bound by (simp_all add: cfg_def)
  then obtain st t where new: "timer_new slot cfg now = Some (st, t)" and fire: "next_fire st = Some t"
    and stok: "timer_ok st" and sch: "entries (slot, st) = window_schedule slot now cfg"
    by (rule timer_new_law)
  have run: "set_timeouts scale slot now ss d1 db ts =
      (case bt_get (timer_map ts) slot of Some _ \<Rightarrow> Some (False, ts)
       | None \<Rightarrow> Some (True, ts\<lparr>heap := heap_push (t, slot) (heap ts), timer_map := bt_insert slot st (timer_map ts)\<rparr>))"
    using assms(3) timers_ok_length [OF ok] new by (simp add: set_timeouts_def cfg_def)
  show ?thesis
  proof (cases "bt_get (timer_map ts) slot")
    case None
    define ts' where "ts' = ts\<lparr>heap := heap_push (t, slot) (heap ts), timer_map := bt_insert slot st (timer_map ts)\<rparr>"
    have "timers_ok ts'"
      using ok None stok fire bt_insert_set [OF None]
      by (auto simp: timers_ok_def ts'_def heap_push_def sorted_insort mset_bt_insert fire_of_def)
    moreover have "mset (agenda ts') = mset (agenda ts) + mset (window_schedule slot now cfg)"
      using None sch by (simp add: mset_agenda ts'_def mset_bt_insert)
    ultimately show ?thesis using None by (simp add: run ts'_def)
  next
    case (Some a)
    then show ?thesis using ok by (simp add: run)
  qed
qed

section \<open>Runs\<close>

text \<open>
  Timers are started by the event handler and fired by the timer thread, in any order. A clock within
  an hour and five blocks of the largest instant is excluded.
\<close>

inductive timers_step :: "scale_duration \<Rightarrow> timers \<Rightarrow> timers \<Rightarrow> bool" for scale where
  start: "d1 \<le> db \<Longrightarrow> now + max_timeout + 5 * db \<le> instant_max \<Longrightarrow>
    set_timeouts scale slot now ss d1 db ts = Some (b, ts') \<Longrightarrow> timers_step scale ts ts'"
| fire: "progress now ts = Some (ret, ts') \<Longrightarrow> timers_step scale ts ts'"

lemma timers_ok_new: "timers_ok (new_timers d)"
  by (simp add: timers_ok_def new_timers_def)

lemma timers_ok_step:
  assumes "timers_ok ts" and "timers_step scale ts ts'"
  shows "timers_ok ts'"
  using assms(2)
proof cases
  case (start d1 db now slot ss b)
  then show ?thesis using set_timeouts_law [OF assms(1) start(1,2), of scale slot ss] by auto
next
  case (fire now ret)
  then show ?thesis using progress_loop_law [OF assms(1), of now None] by (auto simp: progress_def)
qed

interpretation skip_timers: invariant_system "\<lambda>ts. \<exists>d. ts = new_timers d" "timers_step scale" timers_ok for scale
  by unfold_locales (auto intro: timers_ok_new timers_ok_step)

text \<open>
  C20. The skip timers fire on schedule. In every state a run can reach, \<open>progress\<close> returns and sends
  exactly the events whose deadline has passed, in the order of their deadlines; it keeps all others
  and asks to be called again no later than the next deadline. \<open>set_timeouts\<close> returns as well: for a
  slot without a timer it adds the deadlines of the leader window that starts at the slot, and
  otherwise it changes nothing, so that a window is never timed twice at once.
\<close>

theorem skip_timers_fire_on_schedule:
  assumes "(timers_step scale)\<^sup>*\<^sup>* (new_timers d) ts"
  shows "(\<exists>ret ts'. progress now ts = Some (ret, ts') \<and>
      sent_events ts' = sent_events ts @ map snd (takeWhile (\<lambda>x. fst (fst x) \<le> now) (agenda ts)) \<and>
      agenda ts' = dropWhile (\<lambda>x. fst (fst x) \<le> now) (agenda ts) \<and>
      (agenda ts' = [] \<or> (\<exists>w. ret = Some w \<and> w \<le> fst (fst (hd (agenda ts')))))) \<and>
    sorted (map fst (agenda ts)) \<and>
    (d1 \<le> db \<and> now + max_timeout + 5 * db \<le> instant_max \<longrightarrow>
      (\<exists>ts'. set_timeouts scale slot now ss d1 db ts = Some (bt_get (timer_map ts) slot = None, ts') \<and>
        sent_events ts' = sent_events ts \<and>
        mset (agenda ts') = mset (agenda ts) + (if bt_get (timer_map ts) slot = None
          then mset (window_schedule slot now (scaled scale slot ss \<lparr>cfg_delta_timeout = timers_delta_timeout ts,
            cfg_delta_first_slice = d1, cfg_delta_block = db\<rparr>)) else {#})))"
proof -
  have ok: "timers_ok ts" using assms by (rule skip_timers.inv_reachable [rotated]) blast
  show ?thesis
    using progress_loop_law [OF ok, of now None] set_timeouts_law [OF ok, of d1 db now scale slot ss] sorted_agenda
    by (auto simp: progress_def)
qed

definition demo_scale :: scale_duration where
  "demo_scale d n = Some (nat (int d * 105 ^ nat n div 100 ^ nat n))"

definition demo_timers :: timers where
  "demo_timers = \<lparr>timers_delta_timeout = 1000, timer_map = [(6, WaitForFirstSlice [6, 7] 1030
     \<lparr>cfg_delta_timeout = 1000, cfg_delta_first_slice = 20, cfg_delta_block = 40\<rparr>)],
     heap = [(1030, 6)], sent_events = [], receiver_alive = True\<rparr>"

lemma demo_timers_start:
  "set_timeouts demo_scale 6 10 None 20 40 (new_timers 1000) = Some (True, demo_timers)"
  by (simp add: set_timeouts_def new_timers_def scaled_def demo_scale_def calculate_timeout_multiplier_def
      timer_new_def last_of_consecutive_leader_slots_def first_of_consecutive_leader_slots_def
      num_consecutive_leader_slots_def instant_add_def instant_max_def max_timeout_def heap_push_def
      demo_timers_def upt_rec)

lemma demo_timers_run: "(timers_step demo_scale)\<^sup>*\<^sup>* (new_timers 1000) demo_timers"
  by (rule r_into_rtranclp, rule timers_step.start [OF _ _ demo_timers_start])
     (simp_all add: max_timeout_def instant_max_def)

theorem skip_timers_fire_on_schedule_witness:
  "\<exists>ret ts'. progress 1055 demo_timers = Some (ret, ts') \<and>
     sent_events ts' = [TimeoutCrashedLeader 6, Timeout 6] \<and> agenda ts' = [((1090, 6), Timeout 7)]"
proof -
  have "agenda demo_timers = [((1030, 6), TimeoutCrashedLeader 6), ((1050, 6), Timeout 6), ((1090, 6), Timeout 7)]"
    by (simp add: agenda_def demo_timers_def entries_def)
  then show ?thesis
    using conjunct1 [OF skip_timers_fire_on_schedule [OF demo_timers_run, where now = 1055]]
    by (auto simp: demo_timers_def)
qed

end
