(* ===== verification/Event_Handler.thy ===== *)
theory Event_Handler
  imports Voting_Utils Timers
begin

text \<open>
  \<open>crates/consensus/votor/src/event_handler.rs\<close>, \<open>root_utils.rs\<close> and \<open>event.rs\<close>: the voting loop. It
  consumes the events of the consensus pool, of the timers and of replay, decides which votes to cast,
  sets the root and starts the skip timers.

  What other threads write is read once per event, as \<open>env\<close>: the root bank, the bank forks, the
  identity, the clock and the state of the channels. Logging, statistics and the
  notification of RPC subscribers in \<open>set_root\<close> are not modelled. \<open>handle_set_identity\<close> falls back to a
  new history when none can be restored, so it never returns an error.
\<close>

section \<open>Model\<close>

subsection \<open>State\<close>

record handler_env = shared +
  ns_per_slot_at_slot :: "slot \<Rightarrow> duration"
  forks_root :: slot
  forks_get :: "slot \<Rightarrow> bank option"
  forks_bank_hash :: "slot \<Rightarrow> hash option"
  cluster_identity :: pubkey
  stored_history :: "pubkey \<Rightarrow> vote_history option"
  instant_now :: instant
  duration_scale :: scale_duration
  metrics_sender :: channel
  repair_sender :: channel
  leader_window_sender :: channel
  bls_sender :: channel

record event_handler = voting_context +
  my_pubkey :: pubkey
  pending_blocks :: "(slot, (block \<times> block) list) btree"
  finalized_blocks :: "block set"
  received_shred :: "slot set"
  standstill_slot :: "slot option"
  handler_timers :: timers
  highest_parent_ready_cell :: "slot \<times> block"
  latest_switch_request :: "block option"
  votes :: "bls_op list"

datatype event_loop_error =
    ReceiverDisconnected
  | SenderDisconnected
  | VotingError vote_error
  | SetIdentityError vote_history_error

definition should_ignore :: "votor_event \<Rightarrow> slot \<Rightarrow> bool" where
  "should_ignore event root =
     (case event of
        CompletedBlock cb \<Rightarrow> completed_slot cb \<le> root
      | Timeout s \<Rightarrow> s \<le> root
      | SafeToSkip s \<Rightarrow> s \<le> root
      | TimeoutCrashedLeader s \<Rightarrow> s \<le> root
      | FirstShred s \<Rightarrow> s \<le> root
      | SafeToNotar b \<Rightarrow> block_slot b \<le> root
      | Finalized b _ \<Rightarrow> block_slot b \<le> root
      | BlockNotarized b \<Rightarrow> block_slot b \<le> root
      | BlockNotarFallback b \<Rightarrow> block_slot b \<le> root
      | ParentReady s _ \<Rightarrow> s \<le> root
      | Standstill s \<Rightarrow> s < root
      | ProduceWindow info \<Rightarrow> start_slot info \<le> root
      | SetIdentity \<Rightarrow> False)"

definition try_advance :: "block \<Rightarrow> block option \<Rightarrow> block option" where
  "try_advance event cell =
     (case cell of
        Some cur \<Rightarrow> if event \<le> cur then cell else Some event
      | None \<Rightarrow> Some event)"

definition push_vote :: "bls_op option \<Rightarrow> event_handler \<Rightarrow> event_handler" where
  "push_vote op s = (case op of None \<Rightarrow> s | Some op \<Rightarrow> s\<lparr>votes := votes s @ [op]\<rparr>)"

text \<open>\<open>vctx.consensus_metrics_sender.send(..)?\<close> and \<open>request_repair(..)?\<close>; a full channel blocks.\<close>

definition send_metrics ::
    "handler_env \<Rightarrow> metrics_event list \<Rightarrow> event_handler \<Rightarrow> (event_loop_error, unit, event_handler) outcome" where
  "send_metrics env ms s =
     (if metrics_sender env = Disconnected then Some (Inl SenderDisconnected, s)
      else Some (Inr (), emit (Metrics ms) s))"

definition request_repair ::
    "handler_env \<Rightarrow> block \<Rightarrow> event_handler \<Rightarrow> (event_loop_error, unit, event_handler) outcome" where
  "request_repair env block s =
     (if repair_sender env = Disconnected then Some (Inl SenderDisconnected, s)
      else Some (Inr (), emit (FetchBlock block) s))"

text \<open>The conversion of \<open>VoteError\<close> into \<open>EventLoopError\<close> by \<open>?\<close>.\<close>

definition voting :: "(vote_error, 'a, 's) outcome \<Rightarrow> (event_loop_error, 'a, 's) outcome" where
  "voting r = map_option (\<lambda>(r, s). (map_sum VotingError id r, s)) r"

subsection \<open>Voting\<close>

definition cast ::
    "signing_library \<Rightarrow> handler_env \<Rightarrow> vote \<Rightarrow> event_handler \<Rightarrow> (vote_error, unit, event_handler) outcome" where
  "cast lib env vote s = do {
     r \<leftarrow> insert_vote_and_create_bls_message lib env vote s;
     and_then r (\<lambda>op s. Some (Inr (), push_vote op s))
   }"

definition try_final ::
    "signing_library \<Rightarrow> handler_env \<Rightarrow> block \<Rightarrow> event_handler \<Rightarrow> (vote_error, bool, event_handler) outcome" where
  "try_final lib env block s =
     (if \<not> is_block_notarized block (vote_history s) then Some (Inr False, s)
      else do {
        over \<leftarrow> its_over (block_slot block) (vote_history s);
        if over then Some (Inr False, s) else do {
        bad \<leftarrow> bad_window (block_slot block) (vote_history s);
        if bad then Some (Inr False, s) else do {
        notar \<leftarrow> voted_notar (block_slot block) (vote_history s);
        if notar \<noteq> Some (block_hash block) then Some (Inr False, s) else do {
        r \<leftarrow> cast lib env (Finalize (block_slot block)) s;
        and_then r (\<lambda>_ s. Some (Inr True, s)) }}}
      })"

text \<open>The conditions of \<open>try_notar\<close>, up to the vote.\<close>

definition may_notarize :: "block \<Rightarrow> block \<Rightarrow> vote_history \<Rightarrow> bool option" where
  "may_notarize block parent h = do {
     v \<leftarrow> voted (block_slot block) h;
     if v then Some False
     else if leader_slot_index (block_slot block) = 0 \<or> block_slot block = 1
     then Some (is_parent_ready (block_slot block) parent h)
     else if slot_add (block_slot parent) 1 \<noteq> block_slot block then Some False
     else do {
       notar \<leftarrow> voted_notar (block_slot parent) h;
       Some (notar = Some (block_hash parent))
     }
   }"

definition try_notar ::
    "signing_library \<Rightarrow> handler_env \<Rightarrow> block \<Rightarrow> block \<Rightarrow> event_handler \<Rightarrow> (vote_error, bool, event_handler) outcome" where
  "try_notar lib env block parent s = do {
     ok \<leftarrow> may_notarize block parent (vote_history s);
     if \<not> ok then Some (Inr False, s)
     else do {
       r \<leftarrow> cast lib env (Notarize block) s;
       and_then r (\<lambda>_ s.
         let (r, s) = update_commitment_cache env NotarizeCommitment (block_slot block) s in
         and_then (map_sum (\<lambda>_. CommitmentSenderError) id r, s) (\<lambda>_ s. do {
           r \<leftarrow> try_final lib env block (s\<lparr>pending_blocks := bt_remove (block_slot block) (pending_blocks s)\<rparr>);
           and_then r (\<lambda>_ s. Some (Inr True, s))
         }))
     }
   }"

definition check_pending_blocks ::
    "signing_library \<Rightarrow> handler_env \<Rightarrow> event_handler \<Rightarrow> (vote_error, unit, event_handler) outcome" where
  "check_pending_blocks lib env s =
     for_each (\<lambda>(block, parent) s. do {
         r \<leftarrow> try_notar lib env block parent s;
         and_then r (\<lambda>_ s. Some (Inr (), s))
       }) (concat (map snd (pending_blocks s))) s"

definition try_skip_slot ::
    "signing_library \<Rightarrow> handler_env \<Rightarrow> slot \<Rightarrow> event_handler \<Rightarrow> (vote_error, unit, event_handler) outcome" where
  "try_skip_slot lib env slot s = do {
     v \<leftarrow> voted slot (vote_history s);
     if v then Some (Inr (), s) else cast lib env (Skip slot) s
   }"

definition try_skip_window ::
    "signing_library \<Rightarrow> handler_env \<Rightarrow> slot \<Rightarrow> event_handler \<Rightarrow> (vote_error, unit, event_handler) outcome" where
  "try_skip_window lib env slot s =
     (let root = max (history_root (vote_history s)) (root_slot env);
          start = max (max (first_of_consecutive_leader_slots slot) root) 1
      in for_each (try_skip_slot lib env) [start..<last_of_consecutive_leader_slots slot + 1] s)"

fun refresh_messages ::
    "signing_library \<Rightarrow> handler_env \<Rightarrow> vote list \<Rightarrow> vote_message list \<Rightarrow> event_handler \<Rightarrow>
     (vote_error, vote_message list, event_handler) outcome" where
  "refresh_messages lib env [] refreshed s = Some (Inr refreshed, s)"
| "refresh_messages lib env (v # vs) refreshed s = do {
     r \<leftarrow> generate_refresh_vote_message lib env v s;
     and_then r (\<lambda>msg s. refresh_messages lib env vs (refreshed @ (case msg of None \<Rightarrow> [] | Some m \<Rightarrow> [m])) s)
   }"

definition refresh_votes ::
    "signing_library \<Rightarrow> handler_env \<Rightarrow> slot \<Rightarrow> event_handler \<Rightarrow> (vote_error, unit, event_handler) outcome" where
  "refresh_votes lib env highest_finalized_slot s = do {
     r \<leftarrow> refresh_messages lib env (votes_cast_since highest_finalized_slot (vote_history s)) [] s;
     and_then r (\<lambda>refreshed s. Some (Inr (),
       if refreshed = [] then s else push_vote (Some (RefreshVotes refreshed)) s))
   }"

subsection \<open>Rooting\<close>

definition handler_set_root :: "handler_env \<Rightarrow> slot \<Rightarrow> event_handler \<Rightarrow> event_handler option" where
  "handler_set_root env new_root s = do {
     let s = s\<lparr>vote_history := history_set_root new_root (vote_history s),
       pending_blocks := bt_split_off new_root (pending_blocks s),
       finalized_blocks := {b \<in> finalized_blocks s. Block new_root 0 \<le> b},
       received_shred := {x \<in> received_shred s. new_root \<le> x}\<rparr>;
     hash \<leftarrow> forks_bank_hash env new_root;
     let s = emit (OptimisticSlot new_root hash) (emit (EnqueueSetRoot new_root) s);
     Some (snd (update_commitment_cache env RootedCommitment new_root s))
   }"

definition bank_hash_mismatch :: "handler_env \<Rightarrow> block \<Rightarrow> bool" where
  "bank_hash_mismatch env b =
     (case forks_get env (block_slot b) of
        None \<Rightarrow> False
      | Some bank \<Rightarrow> bank_is_frozen bank \<and> bank_block_id bank = Some (block_hash b) \<and>
          (case bank_expected_hash bank of None \<Rightarrow> False | Some h \<Rightarrow> h \<noteq> bank_hash_of bank))"

text \<open>A block above the old root is above the root of the history, where \<open>voted\<close> does not panic.\<close>

definition rootable :: "handler_env \<Rightarrow> vote_history \<Rightarrow> block \<Rightarrow> bool" where
  "rootable env h b =
     (case forks_get env (block_slot b) of
        None \<Rightarrow> False
      | Some bank \<Rightarrow> block_slot b > max (forks_root env) (history_root h) \<and>
          voted (block_slot b) h = Some True \<and> bank_is_frozen bank \<and> bank_block_id bank = Some (block_hash b))"

definition check_rootable_blocks :: "handler_env \<Rightarrow> event_handler \<Rightarrow> event_handler option" where
  "check_rootable_blocks env s = do {
     ensure (\<forall>b \<in> finalized_blocks s. \<not> bank_hash_mismatch env b);
     let roots = block_slot ` {b \<in> finalized_blocks s. rootable env (vote_history s) b};
     if roots = {} then Some s else handler_set_root env (Max roots) s
   }"

subsection \<open>Parent ready\<close>

definition highest_parent_ready_slot :: "vote_history \<Rightarrow> slot option" where
  "highest_parent_ready_slot h = map_option fst (highest_parent_ready h)"

definition handle_parent_ready_event ::
    "signing_library \<Rightarrow> handler_env \<Rightarrow> slot \<Rightarrow> block \<Rightarrow> event_handler \<Rightarrow>
     (event_loop_error, unit, event_handler) outcome" where
  "handle_parent_ready_event lib env slot parent s =
     (let s = (if block_slot parent > root_slot env
            then s\<lparr>latest_switch_request := try_advance parent (latest_switch_request s)\<rparr> else s);
          s = s\<lparr>vote_history := snd (add_parent_ready slot parent (vote_history s))\<rparr>
      in do {
        r \<leftarrow> voting (check_pending_blocks lib env s);
        and_then r (\<lambda>_ s. do {
          let delta_block = ns_per_slot_at_slot env slot;
          (_, ts) \<leftarrow> set_timeouts (duration_scale env) slot (instant_now env) (standstill_slot s)
            delta_block delta_block (handler_timers s);
          let s = s\<lparr>handler_timers := ts\<rparr>;
          Some (Inr (), if slot > fst (highest_parent_ready_cell s)
            then s\<lparr>highest_parent_ready_cell := (slot, parent)\<rparr> else s)
        })
      })"

definition add_missing_parent_ready :: "handler_env \<Rightarrow> block \<Rightarrow> event_handler \<Rightarrow> block option" where
  "add_missing_parent_ready env block s =
     (let slot = block_slot block; first = first_of_consecutive_leader_slots slot in
      if first = slot \<or> first = 0 then None
      else if (case highest_parent_ready_slot (vote_history s) of None \<Rightarrow> False | Some x \<Rightarrow> first \<le> x) \<or>
        block \<notin> finalized_blocks s then None
      else do {
        bank \<leftarrow> forks_get env slot;
        if \<not> bank_is_frozen bank then None
        else if bank_block_id bank \<noteq> Some (block_hash block) then None
        else do {
          (parent_slot, parent_block_id) \<leftarrow> bank_parent bank;
          h \<leftarrow> parent_block_id;
          Some (Block parent_slot h)
        }
      })"

definition trigger_missing_parent_ready ::
    "signing_library \<Rightarrow> handler_env \<Rightarrow> block \<Rightarrow> event_handler \<Rightarrow> (event_loop_error, unit, event_handler) outcome" where
  "trigger_missing_parent_ready lib env block s =
     (case add_missing_parent_ready env block s of
        None \<Rightarrow> Some (Inr (), s)
      | Some parent \<Rightarrow> handle_parent_ready_event lib env (block_slot block) parent s)"

subsection \<open>Identity\<close>

definition handle_set_identity :: "handler_env \<Rightarrow> event_handler \<Rightarrow> event_handler" where
  "handle_set_identity env s =
     (let new_pubkey = cluster_identity env in
      if my_pubkey s \<noteq> new_pubkey \<or> vote_history.node_pubkey (vote_history s) \<noteq> new_pubkey
      then s\<lparr>my_pubkey := new_pubkey,
        vote_history := (case stored_history env new_pubkey of
            None \<Rightarrow> new_vote_history new_pubkey 0 | Some h \<Rightarrow> h),
        identity_keypair := new_pubkey\<rparr>
      else s)"

definition send_vote_history_to_consensus_pool ::
    "signing_library \<Rightarrow> handler_env \<Rightarrow> event_handler \<Rightarrow> (vote_error, unit, event_handler) outcome" where
  "send_vote_history_to_consensus_pool lib env s =
     (let root = max (history_root (vote_history s)) (root_slot env)
      in for_each (\<lambda>vote s. do {
             r \<leftarrow> create_and_send_own_vote_message lib env vote False s;
             and_then r (\<lambda>_ s. Some (Inr (), s))
           }) (votes_cast_since (root - 1) (vote_history s)) s)"

subsection \<open>Events\<close>

definition get_block_parent_block :: "bank \<Rightarrow> (block \<times> block) option" where
  "get_block_parent_block bank = do {
     h \<leftarrow> bank_block_id bank;
     Some (Block (bank_slot_of bank) h,
       Block (bank_parent_slot bank) (case bank_parent_block_id bank of None \<Rightarrow> 0 | Some p \<Rightarrow> p))
   }"

definition handle_block ::
    "signing_library \<Rightarrow> handler_env \<Rightarrow> completed_block \<Rightarrow> event_handler \<Rightarrow> (event_loop_error, unit, event_handler) outcome" where
  "handle_block lib env cb s =
     (let slot = completed_slot cb; bank = completed_bank cb in do {
        r \<leftarrow> send_metrics env (StartOfSlot slot #
          (if slot = first_of_consecutive_leader_slots slot then [BlockHashSeen (bank_leader_id bank) slot] else [])) s;
        and_then r (\<lambda>_ s. do {
          (block, parent) \<leftarrow> get_block_parent_block bank;
          r \<leftarrow> voting (try_notar lib env block parent s);
          and_then r (\<lambda>notarized s. do {
            r \<leftarrow> (if notarized then voting (check_pending_blocks lib env s)
              else do {
                v \<leftarrow> voted slot (vote_history s);
                Some (Inr (), if v then s
                  else s\<lparr>pending_blocks := bt_entry [] (\<lambda>bs. bs @ [(block, parent)]) slot (pending_blocks s)\<rparr>)
              });
            and_then r (\<lambda>_ s. do {
              s \<leftarrow> check_rootable_blocks env s;
              trigger_missing_parent_ready lib env block s
            })
          })
        })
      })"

definition handle_safe_to_notar ::
    "signing_library \<Rightarrow> handler_env \<Rightarrow> block \<Rightarrow> event_handler \<Rightarrow> (event_loop_error, unit, event_handler) outcome" where
  "handle_safe_to_notar lib env block s = do {
     r \<leftarrow> voting (try_skip_window lib env (block_slot block) s);
     and_then r (\<lambda>_ s. do {
       over \<leftarrow> its_over (block_slot block) (vote_history s);
       if over then Some (Inr (), s) else do {
       fallback \<leftarrow> voted_notar_fallback (block_slot block) (block_hash block) (vote_history s);
       if fallback then Some (Inr (), s)
       else voting (cast lib env (NotarizeFallback block) s) }
     })
   }"

definition handle_safe_to_skip ::
    "signing_library \<Rightarrow> handler_env \<Rightarrow> slot \<Rightarrow> event_handler \<Rightarrow> (event_loop_error, unit, event_handler) outcome" where
  "handle_safe_to_skip lib env slot s = do {
     r \<leftarrow> voting (try_skip_window lib env slot s);
     and_then r (\<lambda>_ s. do {
       over \<leftarrow> its_over slot (vote_history s);
       if over then Some (Inr (), s) else do {
       fallback \<leftarrow> voted_skip_fallback slot (vote_history s);
       if fallback then Some (Inr (), s)
       else voting (cast lib env (SkipFallback slot) s) }
     })
   }"

definition handle_timeout ::
    "signing_library \<Rightarrow> handler_env \<Rightarrow> slot \<Rightarrow> event_handler \<Rightarrow> (event_loop_error, unit, event_handler) outcome" where
  "handle_timeout lib env slot s = do {
     r \<leftarrow> (if slot \<noteq> last_of_consecutive_leader_slots slot
       then send_metrics env [StartOfSlot (slot_add slot 1)] s else Some (Inr (), s));
     and_then r (\<lambda>_ s. do {
       v \<leftarrow> voted slot (vote_history s);
       if v then Some (Inr (), s) else voting (try_skip_window lib env slot s)
     })
   }"

definition handle_timeout_crashed_leader ::
    "signing_library \<Rightarrow> handler_env \<Rightarrow> slot \<Rightarrow> event_handler \<Rightarrow> (event_loop_error, unit, event_handler) outcome" where
  "handle_timeout_crashed_leader lib env slot s = do {
     v \<leftarrow> voted slot (vote_history s);
     if v \<or> slot \<in> received_shred s then Some (Inr (), s)
     else voting (try_skip_window lib env slot s)
   }"

definition handle_finalized ::
    "signing_library \<Rightarrow> handler_env \<Rightarrow> block \<Rightarrow> event_handler \<Rightarrow> (event_loop_error, unit, event_handler) outcome" where
  "handle_finalized lib env block s = do {
     r \<leftarrow> request_repair env block (s\<lparr>finalized_blocks := insert block (finalized_blocks s)\<rparr>);
     and_then r (\<lambda>_ s. do {
       s \<leftarrow> check_rootable_blocks env s;
       let s = (case standstill_slot s of
           None \<Rightarrow> s
         | Some slot \<Rightarrow> if block_slot block > slot then s\<lparr>standstill_slot := None\<rparr> else s);
       r \<leftarrow> trigger_missing_parent_ready lib env block s;
       and_then r (\<lambda>_ s. send_metrics env [SlotFinalized (block_slot block)] s)
     })
   }"

definition handle_event ::
    "signing_library \<Rightarrow> handler_env \<Rightarrow> votor_event \<Rightarrow> event_handler \<Rightarrow> (event_loop_error, unit, event_handler) outcome" where
  "handle_event lib env event s =
     (case event of
        CompletedBlock cb \<Rightarrow> handle_block lib env cb s
      | BlockNotarized block \<Rightarrow> do {
          r \<leftarrow> voting (try_final lib env block (s\<lparr>vote_history := add_block_notarized block (vote_history s)\<rparr>));
          and_then r (\<lambda>_ s. request_repair env block s)
        }
      | BlockNotarFallback block \<Rightarrow> request_repair env block s
      | FirstShred slot \<Rightarrow> Some (Inr (), s\<lparr>received_shred := insert slot (received_shred s)\<rparr>)
      | ParentReady slot parent \<Rightarrow> do {
          r \<leftarrow> send_metrics env [StartOfSlot slot] s;
          and_then r (\<lambda>_ s. handle_parent_ready_event lib env slot parent s)
        }
      | TimeoutCrashedLeader slot \<Rightarrow> handle_timeout_crashed_leader lib env slot s
      | Timeout slot \<Rightarrow> handle_timeout lib env slot s
      | SafeToNotar block \<Rightarrow> handle_safe_to_notar lib env block s
      | SafeToSkip slot \<Rightarrow> handle_safe_to_skip lib env slot s
      | ProduceWindow info \<Rightarrow> do {
          ensure (leader_window_sender env \<noteq> Disconnected);
          Some (Inr (), emit (LeaderWindow info) s)
        }
      | Finalized block _ \<Rightarrow> handle_finalized lib env block s
      | Standstill slot \<Rightarrow> voting (refresh_votes lib env slot
          (if standstill_slot s = None then s\<lparr>standstill_slot := Some slot\<rparr> else s))
      | SetIdentity \<Rightarrow> voting (send_vote_history_to_consensus_pool lib env (handle_set_identity env s)))"

text \<open>
  The body of the loop of \<open>event_loop\<close>: an event at or below the root is dropped; the votes of a
  handled event go to the network. \<open>start_event_loop\<close> is what precedes the loop.
\<close>

definition process_event ::
    "signing_library \<Rightarrow> handler_env \<Rightarrow> votor_event \<Rightarrow> event_handler \<Rightarrow>
     (event_loop_error, bls_op list, event_handler) outcome" where
  "process_event lib env event s =
     (if should_ignore event (max (root_slot env) (history_root (vote_history s))) then Some (Inr [], s)
      else do {
        r \<leftarrow> handle_event lib env event (s\<lparr>votes := []\<rparr>);
        and_then r (\<lambda>_ s.
          if votes s \<noteq> [] \<and> bls_sender env = Disconnected then Some (Inl SenderDisconnected, s)
          else Some (Inr (votes s), s))
      })"

definition new_event_handler :: "handler_env \<Rightarrow> vote_history \<Rightarrow> slot \<times> block \<Rightarrow> event_handler" where
  "new_event_handler env h cell =
     \<lparr>vote_history = h, identity_keypair = cluster_identity env, derived_bls_keypairs = Map.empty, effects = [],
      my_pubkey = cluster_identity env, pending_blocks = [], finalized_blocks = {}, received_shred = {},
      standstill_slot = None, handler_timers = new_timers delta_timeout_const,
      highest_parent_ready_cell = cell, latest_switch_request = None, votes = []\<rparr>"

definition start_event_loop ::
    "signing_library \<Rightarrow> handler_env \<Rightarrow> event_handler \<Rightarrow> (event_loop_error, unit, event_handler) outcome" where
  "start_event_loop lib env s =
     voting (send_vote_history_to_consensus_pool lib env (handle_set_identity env s))"

end
