(* ===== verification/Event_Handler_Laws.thy ===== *)
theory Event_Handler_Laws
  imports Event_Handler
begin

text \<open>
  The voting rules of the protocol, stated over the events a node has seen and the votes it has cast,
  and the proof that every operation of the event handler keeps to them and does not panic.
\<close>

section \<open>The voting rules\<close>

primrec recorded :: "effect list \<Rightarrow> vote list" where
  "recorded [] = []"
| "recorded (e # es) = (case e of RecordVote v \<Rightarrow> [v] | _ \<Rightarrow> []) @ recorded es"

lemma recorded_append [simp]: "recorded (es @ fs) = recorded es @ recorded fs"
  by (induction es) auto

definition window_start :: "slot \<Rightarrow> bool" where
  "window_start s \<longleftrightarrow> leader_slot_index s = 0 \<or> s = 1"

definition completed :: "votor_event set \<Rightarrow> block \<Rightarrow> block \<Rightarrow> bool" where
  "completed evs b p \<longleftrightarrow>
     (\<exists>cb. CompletedBlock cb \<in> evs \<and> get_block_parent_block (completed_bank cb) = Some (b, p))"

text \<open>
  When a vote may be cast, given the events seen and the earlier votes: the first vote of a slot, which
  is for a block only if the block is replayed and its parent is ready or was voted for just before; a
  finalisation vote for a notarised block voted for, unless the node gave up on the slot; a fallback
  vote when the pool announces that it is safe, after the first vote and not after finalisation.
\<close>

definition no_first_vote :: "vote list \<Rightarrow> slot \<Rightarrow> bool" where
  "no_first_vote vs s \<longleftrightarrow> (\<forall>w \<in> set vs. vote_slot w = s \<longrightarrow> \<not> is_first_vote w)"

definition justified :: "votor_event set \<Rightarrow> vote list \<Rightarrow> vote \<Rightarrow> bool" where
  "justified evs vs v =
     (case v of
        Notarize b \<Rightarrow> no_first_vote vs (block_slot b) \<and>
          (\<exists>p. completed evs b p \<and>
            (if window_start (block_slot b) then ParentReady (block_slot b) p \<in> evs
             else slot_add (block_slot p) 1 = block_slot b \<and> Notarize p \<in> set vs))
      | Skip s \<Rightarrow> no_first_vote vs s
      | Finalize s \<Rightarrow> (\<forall>w \<in> set vs. vote_slot w = s \<longrightarrow> \<not> is_skip_like w) \<and>
          (\<exists>b. block_slot b = s \<and> Notarize b \<in> set vs \<and> BlockNotarized b \<in> evs)
      | NotarizeFallback b \<Rightarrow> SafeToNotar b \<in> evs \<and> \<not> no_first_vote vs (block_slot b) \<and>
          Finalize (block_slot b) \<notin> set vs
      | SkipFallback s \<Rightarrow> SafeToSkip s \<in> evs \<and> \<not> no_first_vote vs s \<and> Finalize s \<notin> set vs
      | Genesis _ \<Rightarrow> False)"

definition follows_rules :: "votor_event set \<Rightarrow> vote list \<Rightarrow> bool" where
  "follows_rules evs vs \<longleftrightarrow> (\<forall>i < length vs. justified evs (take i vs) (vs ! i))"

lemma follows_rules_Nil [simp]: "follows_rules evs []"
  by (simp add: follows_rules_def)

lemma follows_rules_snoc: "follows_rules evs (vs @ [v]) \<longleftrightarrow> follows_rules evs vs \<and> justified evs vs v"
  by (auto simp: follows_rules_def less_Suc_eq nth_append)

lemma justified_mono: "justified evs vs v \<Longrightarrow> evs \<subseteq> evs' \<Longrightarrow> justified evs' vs v"
  by (cases v) (auto simp: justified_def completed_def split: if_splits)

lemma follows_rules_mono: "follows_rules evs vs \<Longrightarrow> evs \<subseteq> evs' \<Longrightarrow> follows_rules evs' vs"
  by (auto simp: follows_rules_def intro: justified_mono)


section \<open>The vote history\<close>

text \<open>
  The history \<open>h\<close> of a node that saw the events \<open>evs\<close> and cast the votes \<open>vs\<close>, all for slots up to
  \<open>H\<close>.
\<close>

definition hist_ok :: "votor_event set \<Rightarrow> slot \<Rightarrow> vote_history \<Rightarrow> vote list \<Rightarrow> bool" where
  "hist_ok evs H h vs \<longleftrightarrow> history_inv (h, vs) \<and> follows_rules evs vs \<and>
     (\<forall>n p. window_start n \<longrightarrow> is_parent_ready n p h \<longrightarrow> ParentReady n p \<in> evs) \<and>
     bt_wf (parent_ready_slots h) \<and>
     (\<forall>b \<in> notarized_blocks h. BlockNotarized b \<in> evs) \<and>
     (\<forall>v \<in> set vs. vote_slot v \<le> H) \<and>
     (\<forall>e \<in> set (votes_cast h). history_root h \<le> fst e)"

lemma hist_ok_new: "hist_ok evs H (new_vote_history key root) []"
  using history_inv_init [of "(new_vote_history key root, [])"]
  by (simp add: hist_ok_def history_init_def new_vote_history_def is_parent_ready_def)

lemma hist_ok_mono: "hist_ok evs H h vs \<Longrightarrow> evs \<subseteq> evs' \<Longrightarrow> hist_ok evs' H h vs"
  by (auto simp: hist_ok_def intro: follows_rules_mono)

lemma history_add_vote_fields:
  assumes "history_add_vote v h = Some h'"
  shows "history_root h \<le> vote_slot v" "history_root h' = history_root h" "parent_ready_slots h' = parent_ready_slots h"
    "notarized_blocks h' = notarized_blocks h" "vote_history.node_pubkey h' = vote_history.node_pubkey h"
    "votes_cast h' = bt_entry [] (\<lambda>vs. vs @ [v]) (vote_slot v) (votes_cast h)"
    "voted_slots h' = (if is_first_vote v then insert (vote_slot v) (voted_slots h) else voted_slots h)"
proof -
  obtain h1 where root: "history_root h \<le> vote_slot v" and rec: "record_vote v h = Some h1"
    and h': "h' = h1\<lparr>votes_cast := bt_entry [] (\<lambda>vs. vs @ [v]) (vote_slot v) (votes_cast h1)\<rparr>"
    using assms by (auto simp: history_add_vote_def split: if_splits elim!: bind_eq_SomeE)
  have "parent_ready_slots h1 = parent_ready_slots h" "notarized_blocks h1 = notarized_blocks h"
    "vote_history.node_pubkey h1 = vote_history.node_pubkey h"
    using rec by (cases v; auto split: if_splits elim!: bind_eq_SomeE)+
  with root h' record_vote_law [OF rec root]
  show "history_root h \<le> vote_slot v" "history_root h' = history_root h" "parent_ready_slots h' = parent_ready_slots h"
    "notarized_blocks h' = notarized_blocks h" "vote_history.node_pubkey h' = vote_history.node_pubkey h"
    "votes_cast h' = bt_entry [] (\<lambda>vs. vs @ [v]) (vote_slot v) (votes_cast h)"
    "voted_slots h' = (if is_first_vote v then insert (vote_slot v) (voted_slots h) else voted_slots h)"
    by simp_all
qed

lemma hist_ok_cast:
  assumes ok: "hist_ok evs H h vs" and add: "history_add_vote v h = Some h'" and "justified evs vs v" and "vote_slot v \<le> H"
  shows "hist_ok evs H h' (vs @ [v])"
proof -
  note f = history_add_vote_fields [OF add]
  have "fst ` set (votes_cast h') = insert (vote_slot v) (fst ` set (votes_cast h))"
    using set_bt_insert [of "vote_slot v" _ "votes_cast h"] by (simp add: f(6) bt_entry_def)
  moreover have "\<forall>k \<in> fst ` set (votes_cast h). history_root h \<le> k" using ok by (simp add: hist_ok_def)
  ultimately have "\<forall>k \<in> fst ` set (votes_cast h'). history_root h \<le> k" using f(1) by simp
  moreover have "history_inv (h', vs @ [v])"
    using ok add by (auto simp: hist_ok_def intro: cast_keeps_inv)
  ultimately show ?thesis
    using ok assms(3,4) by (auto simp: hist_ok_def follows_rules_snoc f(2-4) is_parent_ready_def)
qed

lemma hist_ok_root:
  assumes "hist_ok evs H h vs" and "history_root h \<le> r"
  shows "hist_ok evs H (history_set_root r h) vs"
  using assms root_keeps_inv [of h vs r]
  by (auto simp: hist_ok_def history_set_root_def is_parent_ready_def bt_get_filter [of "\<lambda>s. r \<le> s"] split: if_splits option.splits)

lemma hist_ok_parent_ready:
  assumes "hist_ok evs H h vs" and "window_start n \<Longrightarrow> ParentReady n p \<in> evs"
  shows "hist_ok evs H (snd (add_parent_ready n p h)) vs"
  using assms other_keeps_inv(2) [of h vs n p]
  by (auto simp: hist_ok_def add_parent_ready_def is_parent_ready_def bt_get_insert split: if_splits option.splits)

lemma hist_ok_notarized:
  assumes "hist_ok evs H h vs" and "BlockNotarized b \<in> evs"
  shows "hist_ok evs H (add_block_notarized b h) vs"
  using assms other_keeps_inv(1) [of h vs b]
  by (auto simp: hist_ok_def add_block_notarized_def is_parent_ready_def)

text \<open>What the guards of the handler know about the votes cast.\<close>

lemma hist_ok_queries:
  assumes "hist_ok evs H h vs" and "history_root h \<le> n"
  shows "voted n h = Some (\<not> no_first_vote vs n)"
    and "its_over n h = Some (Finalize n \<in> set vs)"
    and "voted_notar n h = Some (Some b) \<longleftrightarrow> Notarize (Block n b) \<in> set vs"
    and "bad_window n h = Some False \<Longrightarrow> w \<in> set vs \<Longrightarrow> vote_slot w = n \<Longrightarrow> \<not> is_skip_like w"
    and "n \<in> skipped_slots h \<longleftrightarrow> (\<exists>w \<in> set vs. vote_slot w = n \<and> is_skip_like w)"
  using assms history_invD [of h vs n] by (auto simp: hist_ok_def voted_def its_over_def voted_notar_def bad_window_def no_first_vote_def)

lemma hist_ok_votes_cast:
  assumes "hist_ok evs H h vs"
  shows "set (votes_cast_since n h) \<subseteq> set vs"
proof
  fix v
  assume "v \<in> set (votes_cast_since n h)"
  then obtain k ws where e: "(k, ws) \<in> set (votes_cast h)" "v \<in> set ws" by (auto simp: votes_cast_since_def)
  have inv: "history_inv (h, vs)" and root: "history_root h \<le> k" using assms e by (auto simp: hist_ok_def)
  have "bt_get (votes_cast h) k = Some ws"
    using inv e(1) by (auto simp: history_inv_def intro: bt_get_in_set)
  with history_invD(5) [OF inv root] e(2) show "v \<in> set vs" by auto
qed

lemma hist_ok_add_vote:
  assumes ok: "hist_ok evs H h vs" and just: "justified evs vs v" and root: "history_root h \<le> vote_slot v"
  obtains h' where "history_add_vote v h = Some h'"
proof -
  note q = hist_ok_queries [OF ok root]
  have "\<exists>h1. record_vote v h = Some h1"
  proof (cases v)
    case (Notarize b)
    have "no_first_vote vs (block_slot b)" using just Notarize by (simp add: justified_def)
    then have "voted_notar (block_slot b) h \<noteq> Some (Some x)" for x
      using q(3) [of x] Notarize by (auto simp: no_first_vote_def)
    then show ?thesis
      using q(1) root Notarize just by (auto simp: voted_def voted_notar_def justified_def)
  next
    case (Finalize s)
    then show ?thesis using q(5) root just by (auto simp: skipped_def justified_def)
  next
    case (NotarizeFallback b)
    then show ?thesis using q(1,2) just by (simp add: justified_def)
  next
    case (SkipFallback s)
    then show ?thesis using q(1,2) just by (simp add: justified_def)
  qed (use just in \<open>simp_all add: justified_def\<close>)
  with root that show thesis by (auto simp: history_add_vote_def)
qed


lemma returns_voting:
  assumes "returns b P res" and "\<And>e s. P (Inl e) s \<Longrightarrow> Q (Inl (VotingError e)) s" and "\<And>a s. P (Inr a) s \<Longrightarrow> Q (Inr a) s"
  shows "returns b Q (voting res)"
  using assms by (auto simp: returns_def voting_def split: option.splits sum.splits) (metis obj_sumE map_sum.simps id_apply)


section \<open>Signing\<close>

text \<open>
  The root bank knows the rank map of every slot up to \<open>H\<close>, the map is consistent for the own vote
  account, and the BLS keypairs of the authorized voters can be derived.
\<close>

definition signer_ok :: "signing_library \<Rightarrow> 'b shared_scheme \<Rightarrow> slot \<Rightarrow> bool" where
  "signer_ok lib sh H \<longleftrightarrow>
     (\<forall>n \<le> H. \<exists>m. root_rank_map sh n = Some m \<and>
        (\<forall>r. get_rank_for_vote_pubkey m (my_vote_account sh) = Some r \<longrightarrow> get_pubkey_stake_entry m (unat r) \<noteq> None)) \<and>
     (\<forall>k \<in> set (authorized_voter_keypairs sh). \<exists>kp. derive_from_signer lib k = Inr kp)"

lemma find_bls_keypair_returns:
  "\<forall>k \<in> set keys. \<exists>kp. derive_from_signer lib k = Inr kp \<Longrightarrow> find_bls_keypair lib expected keys derived \<noteq> None"
  by (induction lib expected keys derived rule: find_bls_keypair.induct)
     (auto simp: get_or_insert_bls_keypair_def split: sum.splits option.splits)

lemma generate_vote_tx_shape:
  "generate_vote_tx lib sh v wait c = Some (r, c') \<Longrightarrow>
     c' = c\<lparr>derived_bls_keypairs := derived_bls_keypairs c'\<rparr> \<and> (\<forall>m. r = VoteTx m \<longrightarrow> msg_vote m = v)"
  by (auto simp: generate_vote_tx_def Let_def split: if_splits option.splits elim!: bind_eq_SomeE)

lemma generate_vote_tx_returns:
  assumes "signer_ok lib sh H" and "vote_slot v \<le> H"
  shows "generate_vote_tx lib sh v wait c \<noteq> None"
proof -
  obtain m where m: "root_rank_map sh (vote_slot v) = Some m"
    and entry: "\<And>r. get_rank_for_vote_pubkey m (my_vote_account sh) = Some r \<Longrightarrow> get_pubkey_stake_entry m (unat r) \<noteq> None"
    using assms unfolding signer_ok_def by blast
  have found: "find_bls_keypair lib x (authorized_voter_keypairs sh) d \<noteq> None" for x d
    using assms(1) by (intro find_bls_keypair_returns) (simp add: signer_ok_def)
  show ?thesis
  proof (cases "get_rank_for_vote_pubkey m (my_vote_account sh)")
    case None
    then show ?thesis by (simp add: generate_vote_tx_def m)
  next
    case (Some r)
    then obtain e where e: "get_pubkey_stake_entry m (unat r) = Some e" using entry by blast
    obtain kp d where "find_bls_keypair lib (bls_pubkey e) (authorized_voter_keypairs sh) (derived_bls_keypairs c) = Some (kp, d)"
      using found by fastforce
    with Some e show ?thesis by (cases kp) (simp_all add: generate_vote_tx_def m Let_def)
  qed
qed

lemma create_vote_message_law:
  assumes "vote_slot v \<le> H"
  shows "returns (signer_ok lib sh H)
    (\<lambda>r c'. c' = c\<lparr>derived_bls_keypairs := derived_bls_keypairs c'\<rparr> \<and> (\<forall>m. r = Inr m \<longrightarrow> msg_vote m = v))
    (create_vote_message lib sh v wait c)"
proof -
  define g where "g = generate_vote_tx lib sh v (if wait then wait_to_vote_slot sh else None) c"
  show ?thesis
  proof (cases g)
    case None
    then have "\<not> signer_ok lib sh H"
      using generate_vote_tx_returns [OF _ assms, of lib sh "if wait then wait_to_vote_slot sh else None" c] g_def by auto
    then show ?thesis using None by (simp add: create_vote_message_def g_def returns_def)
  next
    case (Some rc)
    then obtain r c' where g: "generate_vote_tx lib sh v (if wait then wait_to_vote_slot sh else None) c = Some (r, c')"
      unfolding g_def by (cases rc) auto
    then show ?thesis
      using generate_vote_tx_shape [OF g] by (cases r) (simp_all add: create_vote_message_def)
  qed
qed

text \<open>Handing an own vote to the pool appends at most the vote to the effects.\<close>

definition own_effects :: "vote \<Rightarrow> effect list \<Rightarrow> bool" where
  "own_effects v es \<longleftrightarrow> es = [] \<or> (\<exists>m. es = [OwnVote m] \<and> msg_vote m = v)"

lemma own_effects_recorded: "own_effects v es \<Longrightarrow> recorded es = []"
  by (auto simp: own_effects_def)

definition sends_own :: "vote \<Rightarrow> 'a voting_context_scheme \<Rightarrow> 'a voting_context_scheme \<Rightarrow> bool" where
  "sends_own v c c' \<longleftrightarrow> (\<exists>es. own_effects v es \<and>
     c' = c\<lparr>derived_bls_keypairs := derived_bls_keypairs c', effects := effects c @ es\<rparr>)"

lemma sends_ownI:
  assumes "c' = c\<lparr>derived_bls_keypairs := derived_bls_keypairs c'\<rparr>"
  shows "sends_own v c c'" and "msg_vote m = v \<Longrightarrow> sends_own v c (emit (OwnVote m) c')"
proof -
  show "sends_own v c c'"
    unfolding sends_own_def own_effects_def by (rule exI [of _ "[]"]) (subst assms, simp)
  show "sends_own v c (emit (OwnVote m) c')" if "msg_vote m = v"
    unfolding sends_own_def own_effects_def
    by (rule exI [of _ "[OwnVote m]"]) (subst assms, use that in \<open>simp add: emit_def\<close>)
qed

lemma create_and_send_own_vote_message_law:
  assumes "vote_slot v \<le> H"
  shows "returns (signer_ok lib sh H)
    (\<lambda>r c'. sends_own v c c' \<and> (\<forall>m. r = Inr (Some m) \<longrightarrow> msg_vote m = v))
    (create_and_send_own_vote_message lib sh v wait c)"
proof (cases "create_vote_message lib sh v wait c")
  case None
  then show ?thesis
    using create_vote_message_law [OF assms, of lib sh c wait]
    by (simp add: create_and_send_own_vote_message_def returns_def)
next
  case (Some rc)
  obtain r c' where rc: "rc = (r, c')" by (cases rc)
  have c': "c' = c\<lparr>derived_bls_keypairs := derived_bls_keypairs c'\<rparr>" and m: "\<And>m. r = Inr m \<Longrightarrow> msg_vote m = v"
    using create_vote_message_law [OF assms, of lib sh c wait] Some rc by simp_all
  show ?thesis
    using Some m sends_ownI(1) [OF c', of v] sends_ownI(2) [OF c', where v = v]
    by (cases r) (simp_all add: create_and_send_own_vote_message_def rc split: sum.splits)
qed

lemma insert_vote_law:
  assumes "vote_slot v \<le> H" and add: "history_add_vote v (vote_history c) = Some h"
  shows "returns (signer_ok lib sh H)
    (\<lambda>r c'. sends_own v (emit (RecordVote v) (c\<lparr>vote_history := h\<rparr>)) c' \<and>
      (\<forall>op. r = Inr (Some op) \<longrightarrow> (\<exists>m saved. op = PushVote m saved \<and> msg_vote m = v)))
    (insert_vote_and_create_bls_message lib sh v c)"
  unfolding insert_vote_and_create_bls_message_def add
  by (simp, rule returns_and_then [OF create_and_send_own_vote_message_law [OF assms(1)]])
     (auto split: option.splits sum.splits)

section \<open>The invariant of the handler\<close>

text \<open>
  A block that waits for its vote is above the root of the vote history, or at the root and its slot is
  voted on; only then may its parent be looked up.
\<close>

definition block_ok :: "votor_event set \<Rightarrow> slot \<Rightarrow> vote_history \<Rightarrow> block \<Rightarrow> block \<Rightarrow> bool" where
  "block_ok evs H h b p \<longleftrightarrow> block_slot b \<le> H \<and> completed evs b p \<and>
     (history_root h < block_slot b \<or> history_root h = block_slot b \<and> block_slot b \<in> voted_slots h)"

definition pending_ok :: "votor_event set \<Rightarrow> slot \<Rightarrow> vote_history \<Rightarrow> (slot, (block \<times> block) list) btree \<Rightarrow> bool" where
  "pending_ok evs H h pending \<longleftrightarrow>
     (\<forall>e \<in> set pending. \<forall>bp \<in> set (snd e). block_slot (fst bp) = fst e \<and> block_ok evs H h (fst bp) (snd bp))"

primrec op_messages :: "bls_op \<Rightarrow> vote_message list" where
  "op_messages (PushVote m _) = [m]"
| "op_messages (RefreshVotes ms) = ms"
| "op_messages (PushCertificates _) = []"
| "op_messages (RefreshCertificates _) = []"

text \<open>Only votes that were cast are handed to the pool and to the network.\<close>

definition sent_ok :: "event_handler \<Rightarrow> bool" where
  "sent_ok s \<longleftrightarrow> (\<forall>m. OwnVote m \<in> set (effects s) \<longrightarrow> msg_vote m \<in> set (recorded (effects s))) \<and>
     (\<forall>op \<in> set (votes s). \<forall>m \<in> set (op_messages op). msg_vote m \<in> set (recorded (effects s)))"

definition voter_inv :: "votor_event set \<Rightarrow> slot \<Rightarrow> event_handler \<Rightarrow> bool" where
  "voter_inv evs H s \<longleftrightarrow> hist_ok evs H (vote_history s) (recorded (effects s)) \<and>
     pending_ok evs H (vote_history s) (pending_blocks s) \<and> sent_ok s \<and> timers_ok (handler_timers s) \<and>
     finite (finalized_blocks s) \<and> (\<forall>b \<in> finalized_blocks s. \<exists>fast. Finalized b fast \<in> evs)"

definition later :: "event_handler \<Rightarrow> event_handler \<Rightarrow> bool" where
  "later s s' \<longleftrightarrow> history_root (vote_history s') = history_root (vote_history s) \<and>
     voted_slots (vote_history s) \<subseteq> voted_slots (vote_history s')"

lemma later_refl [simp]: "later s s"
  by (simp add: later_def)

lemma later_trans: "later s s' \<Longrightarrow> later s' s'' \<Longrightarrow> later s s''"
  by (auto simp: later_def)

lemma block_ok_later:
  "block_ok evs H (vote_history s) b p \<Longrightarrow> later s s' \<Longrightarrow> block_ok evs H (vote_history s') b p"
  by (auto simp: block_ok_def later_def)

lemma pending_ok_later:
  "pending_ok evs H (vote_history s) pending \<Longrightarrow> later s s' \<Longrightarrow> pending_ok evs H (vote_history s') pending"
  unfolding pending_ok_def by (blast intro: block_ok_later)

lemma pending_ok_mono: "pending_ok evs H h pending \<Longrightarrow> evs \<subseteq> evs' \<Longrightarrow> pending_ok evs' H h pending"
  unfolding pending_ok_def block_ok_def completed_def by blast

lemma voter_inv_mono: "voter_inv evs H s \<Longrightarrow> evs \<subseteq> evs' \<Longrightarrow> voter_inv evs' H s"
  unfolding voter_inv_def by (blast intro: hist_ok_mono pending_ok_mono)

lemma voter_inv_emit [simp]:
  "(\<forall>v. e \<noteq> RecordVote v) \<Longrightarrow> (\<forall>m. e \<noteq> OwnVote m) \<Longrightarrow> voter_inv evs H (emit e s) \<longleftrightarrow> voter_inv evs H s"
  by (cases e) (auto simp: voter_inv_def emit_def sent_ok_def)

lemma voter_inv_push:
  assumes "voter_inv evs H s" and "\<forall>op'. op = Some op' \<longrightarrow> (\<forall>m \<in> set (op_messages op'). msg_vote m \<in> set (recorded (effects s)))"
  shows "voter_inv evs H (push_vote op s)" and "later s (push_vote op s)" and "effects (push_vote op s) = effects s"
  using assms by (auto simp: voter_inv_def push_vote_def sent_ok_def later_def split: option.splits)

lemma sends_own_fields:
  assumes "sends_own v s s'"
  shows "vote_history s' = vote_history (s :: event_handler)" "recorded (effects s') = recorded (effects s)"
    "pending_blocks s' = pending_blocks s" "handler_timers s' = handler_timers s" "votes s' = votes s"
    "finalized_blocks s' = finalized_blocks s" "identity_keypair s' = identity_keypair s"
    "OwnVote m \<in> set (effects s') \<Longrightarrow> OwnVote m \<in> set (effects s) \<or> msg_vote m = v"
proof -
  obtain es where es: "own_effects v es"
    and s': "s' = s\<lparr>derived_bls_keypairs := derived_bls_keypairs s', effects := effects s @ es\<rparr>"
    using assms unfolding sends_own_def by blast
  show "vote_history s' = vote_history s" "recorded (effects s') = recorded (effects s)"
    "pending_blocks s' = pending_blocks s" "handler_timers s' = handler_timers s" "votes s' = votes s"
    "finalized_blocks s' = finalized_blocks s" "identity_keypair s' = identity_keypair s"
    using own_effects_recorded [OF es] by (subst s', simp)+
  have "effects s' = effects s @ es" by (subst s') simp
  then show "OwnVote m \<in> set (effects s') \<Longrightarrow> OwnVote m \<in> set (effects s) \<or> msg_vote m = v"
    using es by (auto simp: own_effects_def)
qed

text \<open>A vote that is justified can be cast, whether or not it can be signed.\<close>

lemma cast_law:
  assumes inv: "voter_inv evs H s" and just: "justified evs (recorded (effects s)) v"
    and root: "history_root (vote_history s) \<le> vote_slot v" and bound: "vote_slot v \<le> H"
  shows "returns (signer_ok lib env H)
    (\<lambda>r s'. voter_inv evs H s' \<and> later s s' \<and> recorded (effects s') = recorded (effects s) @ [v]) (cast lib env v s)"
proof -
  have ok: "hist_ok evs H (vote_history s) (recorded (effects s))" using inv by (simp add: voter_inv_def)
  obtain h where add: "history_add_vote v (vote_history s) = Some h" by (rule hist_ok_add_vote [OF ok just root])
  note f = history_add_vote_fields [OF add]
  define t where "t = emit (RecordVote v) (s\<lparr>vote_history := h\<rparr>)"
  have t: "vote_history t = h" "recorded (effects t) = recorded (effects s) @ [v]" "pending_blocks t = pending_blocks s"
    "handler_timers t = handler_timers s" "votes t = votes s" "finalized_blocks t = finalized_blocks s"
    "set (effects t) = insert (RecordVote v) (set (effects s))"
    by (auto simp: t_def emit_def)
  have "later s t" using f by (auto simp: later_def t)
  have cast: "voter_inv evs H s' \<and> later s s' \<and> recorded (effects s') = recorded (effects s) @ [v]"
    if sent: "sends_own v t s'" for s'
  proof -
    note g = sends_own_fields [OF sent]
    have "later s s'" using \<open>later s t\<close> by (simp add: later_def g)
    moreover have "hist_ok evs H (vote_history s') (recorded (effects s'))"
      using hist_ok_cast [OF ok add just bound] by (simp add: g t)
    moreover have "pending_ok evs H (vote_history s') (pending_blocks s')"
      using pending_ok_later [OF _ \<open>later s s'\<close>] inv by (simp add: voter_inv_def g t)
    moreover have "sent_ok s'"
      using inv g(8) unfolding sent_ok_def voter_inv_def by (auto simp: g t)
    ultimately show ?thesis using inv by (simp add: voter_inv_def g t)
  qed
  show ?thesis
    unfolding cast_def
  proof (rule returns_and_then [OF insert_vote_law [OF bound add]], goal_cases)
    case (1 e s')
    then show ?case using cast by (simp add: t_def)
  next
    case (2 op s')
    then have c: "voter_inv evs H s'" "later s s'" "recorded (effects s') = recorded (effects s) @ [v]"
      using cast by (simp_all add: t_def)
    have "\<forall>op'. op = Some op' \<longrightarrow> (\<forall>m \<in> set (op_messages op'). msg_vote m \<in> set (recorded (effects s')))"
      using 2 c(3) by auto
    from voter_inv_push [OF c(1) this] c show ?case by (auto intro: later_trans)
  qed
qed

lemma try_final_law:
  assumes inv: "voter_inv evs H s" and root: "history_root (vote_history s) \<le> block_slot b" and bound: "block_slot b \<le> H"
  shows "returns (signer_ok lib env H) (\<lambda>r s'. voter_inv evs H s' \<and> later s s') (try_final lib env b s)"
proof -
  have ok: "hist_ok evs H (vote_history s) (recorded (effects s))" using inv by (simp add: voter_inv_def)
  note q = hist_ok_queries [OF ok root]
  obtain bad where bad: "bad_window (block_slot b) (vote_history s) = Some bad"
    and bad_iff: "\<not> bad \<Longrightarrow> bad_window (block_slot b) (vote_history s) = Some False"
    using root by (auto simp: bad_window_def)
  obtain notar where notar: "voted_notar (block_slot b) (vote_history s) = Some notar"
    using root by (auto simp: voted_notar_def)
  have "returns (signer_ok lib env H) (\<lambda>r s'. voter_inv evs H s' \<and> later s s')
      (cast lib env (Finalize (block_slot b)) s \<bind> (\<lambda>r. and_then r (\<lambda>_ s. Some (Inr True, s))))"
    if "is_block_notarized b (vote_history s)" and "\<not> bad" and "notar = Some (block_hash b)"
  proof -
    have "justified evs (recorded (effects s)) (Finalize (block_slot b))"
      using that ok q(3) [of "block_hash b"] q(4) [OF bad_iff] notar
      by (auto simp: justified_def hist_ok_def is_block_notarized_def intro!: exI [of _ b])
    from cast_law [OF inv this, of lib env] root bound have "returns (signer_ok lib env H)
        (\<lambda>r s'. voter_inv evs H s' \<and> later s s' \<and>
          recorded (effects s') = recorded (effects s) @ [Finalize (block_slot b)])
        (cast lib env (Finalize (block_slot b)) s)" by simp
    then show ?thesis by (rule returns_and_then) auto
  qed
  then show ?thesis using inv by (simp add: try_final_def q(2) bad notar)
qed

lemma may_notarize_law:
  assumes ok: "hist_ok evs H h vs" and b: "block_ok evs H h b p"
  obtains r where "may_notarize b p h = Some r"
    and "r \<longrightarrow> justified evs vs (Notarize b) \<and> history_root h \<le> block_slot b \<and> block_slot b \<le> H"
proof -
  have root: "history_root h \<le> block_slot b" using b by (auto simp: block_ok_def)
  note q = hist_ok_queries [OF ok root]
  have parent: "history_root h \<le> block_slot p" if "slot_add (block_slot p) 1 = block_slot b" "no_first_vote vs (block_slot b)"
  proof -
    have "history_root h < block_slot b" using b q(1) that(2) root by (auto simp: block_ok_def voted_def)
    then show ?thesis using that(1) by (auto simp: slot_add_def min_def split: if_splits)
  qed
  have ready: "is_parent_ready (block_slot b) p h \<Longrightarrow> window_start (block_slot b) \<Longrightarrow> ParentReady (block_slot b) p \<in> evs"
    using ok by (simp add: hist_ok_def)
  consider "\<not> no_first_vote vs (block_slot b)" | "no_first_vote vs (block_slot b)" "window_start (block_slot b)"
    | "no_first_vote vs (block_slot b)" "\<not> window_start (block_slot b)" "slot_add (block_slot p) 1 \<noteq> block_slot b"
    | "no_first_vote vs (block_slot b)" "\<not> window_start (block_slot b)" "slot_add (block_slot p) 1 = block_slot b"
    by blast
  then show thesis
  proof cases
    case 1
    then show thesis by (intro that [of False]) (simp_all add: may_notarize_def q(1))
  next
    case 2
    then have "may_notarize b p h = Some (is_parent_ready (block_slot b) p h)"
      by (simp add: may_notarize_def q(1) window_start_def)
    then show thesis
      by (rule that) (use 2 b root ready in \<open>auto simp: justified_def block_ok_def\<close>)
  next
    case 3
    then show thesis by (intro that [of False]) (simp_all add: may_notarize_def q(1) window_start_def)
  next
    case 4
    have n: "voted_notar (block_slot p) h = Some (Some x) \<longleftrightarrow> Notarize (Block (block_slot p) x) \<in> set vs" for x
      using hist_ok_queries(3) [OF ok parent] 4 by blast
    obtain notar where notar: "voted_notar (block_slot p) h = Some notar"
      using parent 4 by (auto simp: voted_notar_def)
    show thesis
    proof (rule that [of "notar = Some (block_hash p)"])
      show "may_notarize b p h = Some (notar = Some (block_hash p))"
        using 4 by (simp add: may_notarize_def q(1) notar window_start_def)
      show "notar = Some (block_hash p) \<longrightarrow>
          justified evs vs (Notarize b) \<and> history_root h \<le> block_slot b \<and> block_slot b \<le> H"
        using n [of "block_hash p"] notar 4 b root by (auto simp: justified_def block_ok_def)
    qed
  qed
qed

lemma pending_ok_subset: "pending_ok evs H h pending \<Longrightarrow> set pending' \<subseteq> set pending \<Longrightarrow> pending_ok evs H h pending'"
  unfolding pending_ok_def by blast

lemma voter_inv_remove_pending:
  assumes "voter_inv evs H s"
  shows "voter_inv evs H (s\<lparr>pending_blocks := bt_remove k (pending_blocks s)\<rparr>)"
proof -
  have "pending_ok evs H (vote_history s) (bt_remove k (pending_blocks s))"
    using assms by (auto simp: voter_inv_def bt_remove_def elim: pending_ok_subset)
  then show ?thesis using assms by (simp add: voter_inv_def sent_ok_def)
qed

lemma try_notar_law:
  assumes inv: "voter_inv evs H s" and b: "block_ok evs H (vote_history s) b p"
  shows "returns (signer_ok lib env H) (\<lambda>r s'. voter_inv evs H s' \<and> later s s') (try_notar lib env b p s)"
proof -
  have ok: "hist_ok evs H (vote_history s) (recorded (effects s))" using inv by (simp add: voter_inv_def)
  obtain r where r: "may_notarize b p (vote_history s) = Some r"
    and just: "r \<longrightarrow> justified evs (recorded (effects s)) (Notarize b) \<and>
      history_root (vote_history s) \<le> block_slot b \<and> block_slot b \<le> H"
    by (rule may_notarize_law [OF ok b])
  have final: "returns (signer_ok lib env H) (\<lambda>r s''. voter_inv evs H s'' \<and> later s s'')
      (try_final lib env b s' \<bind> (\<lambda>r. and_then r (\<lambda>_ s. Some (Inr True, s))))"
    if "r" and "voter_inv evs H s'" and "later s s'" for s'
  proof -
    have "history_root (vote_history s') \<le> block_slot b" "block_slot b \<le> H"
      using just \<open>r\<close> \<open>later s s'\<close> by (simp_all add: later_def)
    from try_final_law [OF that(2) this] show ?thesis
      by (rule returns_and_then) (use that(3) in \<open>auto intro: later_trans\<close>)
  qed
  show ?thesis
  proof (cases r)
    case True
    show ?thesis
      unfolding try_notar_def r
    proof (simp add: True, rule returns_and_then [OF cast_law [OF inv]], goal_cases)
      case (5 a s')
      then have s': "voter_inv evs H s'" "later s s'" by simp_all
      show ?case
      proof (cases "commitment_sender env")
        case Connected
        let ?t = "emit (Commitment NotarizeCommitment (block_slot b)) s'"
        have "voter_inv evs H (?t\<lparr>pending_blocks := bt_remove (block_slot b) (pending_blocks ?t)\<rparr>)"
          using s'(1) by (intro voter_inv_remove_pending) simp
        then show ?thesis using s'(2) final [OF True]
          by (simp add: update_commitment_cache_def Connected and_then_def later_def emit_def)
      next
        case Full
        then show ?thesis using s' final [OF True voter_inv_remove_pending [OF s'(1)]]
          by (simp add: update_commitment_cache_def and_then_def later_def)
      next
        case Disconnected
        then show ?thesis using s' by (simp add: update_commitment_cache_def and_then_def)
      qed
    qed (use just True in simp_all)
  next
    case False
    then show ?thesis using inv by (simp add: try_notar_def r)
  qed
qed

lemma check_pending_blocks_law:
  assumes inv: "voter_inv evs H s"
  shows "returns (signer_ok lib env H) (\<lambda>r s'. voter_inv evs H s' \<and> later s s') (check_pending_blocks lib env s)"
proof -
  define bps where "bps = concat (map snd (pending_blocks s))"
  have blocks: "\<forall>bp \<in> set bps. block_ok evs H (vote_history s) (fst bp) (snd bp)"
    using inv by (auto simp: voter_inv_def pending_ok_def bps_def)
  have "returns (signer_ok lib env H)
      (\<lambda>r s'. case r of Inl _ \<Rightarrow> voter_inv evs H s' \<and> later s s' | Inr _ \<Rightarrow> voter_inv evs H s' \<and> later s s')
      (check_pending_blocks lib env s)"
    unfolding check_pending_blocks_def bps_def [symmetric]
  proof (rule returns_for_each, goal_cases)
    case 1
    then show ?case using inv by simp
  next
    case (2 "done" bp rest s')
    obtain b p where bp: "bp = (b, p)" by (cases bp)
    have "block_ok evs H (vote_history s) b p" using 2(1) blocks bp by auto
    with 2(2) have "block_ok evs H (vote_history s') b p" by (auto intro: block_ok_later)
    then have "returns (signer_ok lib env H) (\<lambda>r s''. voter_inv evs H s'' \<and> later s' s'') (try_notar lib env b p s')"
      using 2(2) by (intro try_notar_law) simp_all
    then show ?case
      unfolding bp prod.case by (rule returns_and_then) (use 2(2) in \<open>auto intro: later_trans\<close>)
  qed
  then show ?thesis by (rule returns_mono) (auto split: sum.splits)
qed

text \<open>After the window is skipped, every slot of it from the root on has its first vote.\<close>

lemma try_skip_slot_law:
  assumes inv: "voter_inv evs H s" and root: "history_root (vote_history s) \<le> n" and bound: "n \<le> H"
  shows "returns (signer_ok lib env H) (\<lambda>r s'. voter_inv evs H s' \<and> later s s' \<and>
    \<not> no_first_vote (recorded (effects s')) n \<and> set (recorded (effects s)) \<subseteq> set (recorded (effects s')))
    (try_skip_slot lib env n s)"
proof -
  have ok: "hist_ok evs H (vote_history s) (recorded (effects s))" using inv by (simp add: voter_inv_def)
  note q = hist_ok_queries(1) [OF ok root]
  show ?thesis
  proof (cases "no_first_vote (recorded (effects s)) n")
    case True
    then have "justified evs (recorded (effects s)) (Skip n)" by (simp add: justified_def)
    from cast_law [OF inv this, of lib env] root bound have "returns (signer_ok lib env H)
        (\<lambda>r s'. voter_inv evs H s' \<and> later s s' \<and> recorded (effects s') = recorded (effects s) @ [Skip n])
        (cast lib env (Skip n) s)" by simp
    then have "returns (signer_ok lib env H) (\<lambda>r s'. voter_inv evs H s' \<and> later s s' \<and>
        \<not> no_first_vote (recorded (effects s')) n \<and> set (recorded (effects s)) \<subseteq> set (recorded (effects s')))
        (cast lib env (Skip n) s)"
      by (rule returns_mono) (auto simp: no_first_vote_def)
    then show ?thesis by (simp add: try_skip_slot_def q True)
  next
    case False
    then show ?thesis using inv by (simp add: try_skip_slot_def q)
  qed
qed

lemma try_skip_window_law:
  assumes inv: "voter_inv evs H s" and bound: "last_of_consecutive_leader_slots slot \<le> H"
    and above: "max (root_slot env) (history_root (vote_history s)) < slot"
  shows "returns (signer_ok lib env H) (\<lambda>r s'. voter_inv evs H s' \<and> later s s' \<and>
    (\<forall>u. r = Inr u \<longrightarrow> \<not> no_first_vote (recorded (effects s')) slot)) (try_skip_window lib env slot s)"
proof -
  define root where "root = max (history_root (vote_history s)) (root_slot env)"
  define start where "start = max (max (first_of_consecutive_leader_slots slot) root) 1"
  define xs where "xs = [start..<last_of_consecutive_leader_slots slot + 1]"
  have mem: "slot \<in> set xs"
    using leader_window_bounds [of slot] above by (auto simp: xs_def start_def root_def)
  have "returns (signer_ok lib env H)
      (\<lambda>r s'. case r of Inl _ \<Rightarrow> voter_inv evs H s' \<and> later s s'
        | Inr _ \<Rightarrow> voter_inv evs H s' \<and> later s s' \<and> (\<forall>n \<in> set xs. \<not> no_first_vote (recorded (effects s')) n))
      (for_each (try_skip_slot lib env) xs s)"
  proof (rule returns_for_each [where I = "\<lambda>done s'. voter_inv evs H s' \<and> later s s' \<and>
      (\<forall>n \<in> set done. \<not> no_first_vote (recorded (effects s')) n)"], goal_cases)
    case 1
    then show ?case using inv by simp
  next
    case (2 "done" n rest s')
    have "n \<in> set xs" using 2(1) by simp
    then have "history_root (vote_history s') \<le> n" "n \<le> H"
      using 2(2) bound by (auto simp: xs_def start_def root_def later_def)
    then have "returns (signer_ok lib env H) (\<lambda>r s''. voter_inv evs H s'' \<and> later s' s'' \<and>
        \<not> no_first_vote (recorded (effects s'')) n \<and> set (recorded (effects s')) \<subseteq> set (recorded (effects s'')))
        (try_skip_slot lib env n s')"
      using 2(2) by (intro try_skip_slot_law) simp_all
    then show ?case
    proof (rule returns_mono)
      fix r s''
      assume *: "voter_inv evs H s'' \<and> later s' s'' \<and> \<not> no_first_vote (recorded (effects s'')) n \<and>
        set (recorded (effects s')) \<subseteq> set (recorded (effects s''))"
      then have "\<forall>k \<in> set (done @ [n]). \<not> no_first_vote (recorded (effects s'')) k"
        using 2(2) unfolding no_first_vote_def by auto
      with * 2(2) show "case r of Inl _ \<Rightarrow> voter_inv evs H s'' \<and> later s s''
          | Inr _ \<Rightarrow> voter_inv evs H s'' \<and> later s s'' \<and> (\<forall>k \<in> set (done @ [n]). \<not> no_first_vote (recorded (effects s'')) k)"
        by (cases r) (auto intro: later_trans)
    qed
  qed
  then show ?thesis
    unfolding try_skip_window_def Let_def root_def [symmetric] start_def [symmetric] xs_def [symmetric]
    by (rule returns_mono) (use mem in \<open>auto split: sum.splits\<close>)
qed

lemma derived_fields:
  assumes "s' = s\<lparr>derived_bls_keypairs := derived_bls_keypairs s'\<rparr>" and "voter_inv evs H s"
  shows "voter_inv evs H s'" "later s s'" "effects s' = effects s"
  using assms(2) by (subst assms(1), simp add: voter_inv_def sent_ok_def later_def)+

lemma refresh_messages_law:
  assumes "voter_inv evs H s" and "set vs \<subseteq> set (recorded (effects s))" and "\<forall>v \<in> set vs. vote_slot v \<le> H"
    and "\<forall>m \<in> set ms. msg_vote m \<in> set (recorded (effects s))"
  shows "returns (signer_ok lib env H) (\<lambda>r s'. voter_inv evs H s' \<and> later s s' \<and> effects s' = effects s \<and>
    (\<forall>ms'. r = Inr ms' \<longrightarrow> (\<forall>m \<in> set ms'. msg_vote m \<in> set (recorded (effects s))))) (refresh_messages lib env vs ms s)"
  using assms
proof (induction vs arbitrary: ms s)
  case (Cons v vs)
  have "returns (signer_ok lib env H) (\<lambda>r s'. voter_inv evs H s' \<and> later s s' \<and> effects s' = effects s \<and>
      (\<forall>m. r = Inr (Some m) \<longrightarrow> msg_vote m = v)) (generate_refresh_vote_message lib env v s)"
  proof (cases "create_vote_message lib env v True s")
    case None
    then show ?thesis
      using create_vote_message_law [of v H lib env s True] Cons.prems(3)
      by (simp add: generate_refresh_vote_message_def returns_def)
  next
    case (Some rc)
    then show ?thesis
      using create_vote_message_law [of v H lib env s True] Cons.prems(1,3) derived_fields [of "snd rc" s evs H]
      by (cases rc) (auto simp: generate_refresh_vote_message_def split: sum.splits)
  qed
  then show ?case
  proof (simp, elim returns_and_then, goal_cases)
    case (2 msg s')
    then have s': "voter_inv evs H s'" "later s s'" "effects s' = effects s"
      and m: "\<And>m. msg = Some m \<Longrightarrow> msg_vote m = v" by auto
    have "returns (signer_ok lib env H) (\<lambda>r s''. voter_inv evs H s'' \<and> later s' s'' \<and> effects s'' = effects s' \<and>
        (\<forall>ms'. r = Inr ms' \<longrightarrow> (\<forall>m \<in> set ms'. msg_vote m \<in> set (recorded (effects s')))))
        (refresh_messages lib env vs (ms @ (case msg of None \<Rightarrow> [] | Some m \<Rightarrow> [m])) s')"
      using Cons.prems s' m by (intro Cons.IH) (auto split: option.splits)
    then show ?case using s' by (elim returns_mono) (auto intro: later_trans)
  qed auto
qed simp

lemma refresh_votes_law:
  assumes inv: "voter_inv evs H s"
  shows "returns (signer_ok lib env H) (\<lambda>r s'. voter_inv evs H s' \<and> later s s') (refresh_votes lib env n s)"
proof -
  have ok: "hist_ok evs H (vote_history s) (recorded (effects s))" using inv by (simp add: voter_inv_def)
  have sub: "set (votes_cast_since n (vote_history s)) \<subseteq> set (recorded (effects s))" by (rule hist_ok_votes_cast [OF ok])
  then have bound: "\<forall>v \<in> set (votes_cast_since n (vote_history s)). vote_slot v \<le> H" using ok by (auto simp: hist_ok_def)
  show ?thesis
    unfolding refresh_votes_def
  proof (rule returns_and_then [OF refresh_messages_law [OF inv sub bound]], goal_cases)
    case (3 ms s')
    then have s': "voter_inv evs H s'" "later s s'" by simp_all
    have "\<forall>op'. Some (RefreshVotes ms) = Some op' \<longrightarrow> (\<forall>m \<in> set (op_messages op'). msg_vote m \<in> set (recorded (effects s')))"
      using 3 by auto
    from voter_inv_push [OF s'(1) this] s' show ?case by (auto intro: later_trans)
  qed auto
qed

section \<open>Rooting and parent-ready slots\<close>

text \<open>
  The environment in which the handler does not panic: votes can be signed, the receiver of leader
  windows is there, no finalised block has a bank hash mismatch, the banks in the forks have a hash and
  replayed blocks have a block id. \<open>clock_ok\<close>: the clock is far from its end.
\<close>

definition env_ok :: "signing_library \<Rightarrow> handler_env \<Rightarrow> slot \<Rightarrow> votor_event set \<Rightarrow> bool" where
  "env_ok lib env H evs \<longleftrightarrow> signer_ok lib env H \<and> leader_window_sender env \<noteq> Disconnected \<and>
     (\<forall>b fast. Finalized b fast \<in> evs \<longrightarrow> \<not> bank_hash_mismatch env b) \<and>
     (\<forall>n. forks_get env n \<noteq> None \<longrightarrow> forks_bank_hash env n \<noteq> None) \<and>
     (\<forall>cb. CompletedBlock cb \<in> evs \<longrightarrow> bank_block_id (completed_bank cb) \<noteq> None)"

definition clock_ok :: "handler_env \<Rightarrow> bool" where
  "clock_ok env \<longleftrightarrow> (\<forall>n. instant_now env + max_timeout + 5 * ns_per_slot_at_slot env n \<le> instant_max)"

lemma returns_env: "returns (signer_ok lib env H) Q res \<Longrightarrow> returns (env_ok lib env H evs) Q res"
  by (erule returns_weaken) (simp add: env_ok_def)

lemma returns_vote:
  assumes "returns (signer_ok lib env H) P res" and "\<And>r s. P r s \<Longrightarrow> voter_inv evs H s"
  shows "returns (env_ok lib env H evs) (\<lambda>r s. voter_inv evs H s) (voting res)"
  by (rule returns_env, rule returns_voting [OF assms(1)]) (auto dest: assms(2))

lemma pending_ok_root:
  assumes "pending_ok evs H h pending" and "r \<in> voted_slots h" and "history_root h \<le> r"
  shows "pending_ok evs H (history_set_root r h) (bt_split_off r pending)"
proof -
  have "block_ok evs H (history_set_root r h) b p" if "block_ok evs H h b p" "r \<le> block_slot b" for b p
    using that assms(2,3) by (auto simp: block_ok_def history_set_root_def)
  then show ?thesis
    using assms(1) by (fastforce simp: pending_ok_def bt_split_off_def)
qed

lemma handler_set_root_law:
  assumes inv: "voter_inv evs H s" and "r \<in> voted_slots (vote_history s)" and "history_root (vote_history s) \<le> r"
    and root: "handler_set_root env r s = Some s'"
  shows "voter_inv evs H s'"
proof -
  define t where "t = s\<lparr>vote_history := history_set_root r (vote_history s),
    pending_blocks := bt_split_off r (pending_blocks s), finalized_blocks := {b \<in> finalized_blocks s. Block r 0 \<le> b},
    received_shred := {x \<in> received_shred s. r \<le> x}\<rparr>"
  have "voter_inv evs H t"
    using inv assms(2,3) by (auto simp: voter_inv_def t_def sent_ok_def intro: hist_ok_root pending_ok_root)
  moreover obtain hash where
    "s' = snd (update_commitment_cache env RootedCommitment r (emit (OptimisticSlot r hash) (emit (EnqueueSetRoot r) t)))"
    using root by (auto simp: handler_set_root_def Let_def t_def elim!: bind_eq_SomeE)
  ultimately show ?thesis by (simp add: update_commitment_cache_def split: channel.splits)
qed

lemma check_rootable_blocks_law:
  assumes inv: "voter_inv evs H s"
  shows "check_rootable_blocks env s = None \<Longrightarrow> \<not> env_ok lib env H evs"
    and "check_rootable_blocks env s = Some s' \<Longrightarrow> voter_inv evs H s'"
proof -
  define R where "R = {b \<in> finalized_blocks s. rootable env (vote_history s) b}"
  have "finite (block_slot ` R)" using inv by (simp add: R_def voter_inv_def)
  then have "Max (block_slot ` R) \<in> block_slot ` R" if "R \<noteq> {}" using that by (intro Max_in) auto
  then have new: "\<exists>b. rootable env (vote_history s) b \<and> Max (block_slot ` R) = block_slot b" if "R \<noteq> {}"
    using that by (auto simp: R_def)
  have run: "check_rootable_blocks env s =
      (if \<forall>b \<in> finalized_blocks s. \<not> bank_hash_mismatch env b
       then if R = {} then Some s else handler_set_root env (Max (block_slot ` R)) s else None)"
    unfolding check_rootable_blocks_def R_def [symmetric] by (simp add: Let_def)
  show "\<not> env_ok lib env H evs" if none: "check_rootable_blocks env s = None"
  proof
    assume env: "env_ok lib env H evs"
    then have "\<forall>b \<in> finalized_blocks s. \<not> bank_hash_mismatch env b"
      using inv by (auto simp: env_ok_def voter_inv_def)
    with none run have "R \<noteq> {}" and "handler_set_root env (Max (block_slot ` R)) s = None" by (auto split: if_splits)
    moreover obtain b where "rootable env (vote_history s) b" "Max (block_slot ` R) = block_slot b"
      using new \<open>R \<noteq> {}\<close> by blast
    then have "forks_bank_hash env (Max (block_slot ` R)) \<noteq> None"
      using env by (auto simp: rootable_def env_ok_def split: option.splits)
    ultimately show False by (auto simp: handler_set_root_def Let_def)
  qed
  show "voter_inv evs H s'" if some: "check_rootable_blocks env s = Some s'"
  proof (cases "R = {}")
    case True
    then show ?thesis using some run inv by (simp split: if_splits)
  next
    case False
    then obtain b where b: "rootable env (vote_history s) b" "Max (block_slot ` R) = block_slot b" using new by blast
    have "handler_set_root env (block_slot b) s = Some s'" using some run False b(2) by (simp split: if_splits)
    moreover have "block_slot b \<in> voted_slots (vote_history s)" "history_root (vote_history s) \<le> block_slot b"
      using b(1) by (auto simp: rootable_def voted_def split: option.splits if_splits)
    ultimately show ?thesis using handler_set_root_law [OF inv] by blast
  qed
qed

lemma pending_ok_cong:
  "history_root h' = history_root h \<Longrightarrow> voted_slots h' = voted_slots h \<Longrightarrow>
     pending_ok evs H h' pending = pending_ok evs H h pending"
  by (simp add: pending_ok_def block_ok_def)

lemma voter_inv_history:
  assumes "voter_inv evs H s" and "hist_ok evs H h (recorded (effects s))"
    and "history_root h = history_root (vote_history s)" and "voted_slots h = voted_slots (vote_history s)"
  shows "voter_inv evs H (s\<lparr>vote_history := h\<rparr>)"
  using assms pending_ok_cong [OF assms(3,4), of evs H "pending_blocks s"] by (simp add: voter_inv_def sent_ok_def)

lemma add_parent_ready_fields:
  "history_root (snd (add_parent_ready slot p h)) = history_root h"
  "voted_slots (snd (add_parent_ready slot p h)) = voted_slots h"
  by (simp_all add: add_parent_ready_def split: option.splits)

lemma voter_inv_timers:
  "voter_inv evs H s \<Longrightarrow> timers_ok ts \<Longrightarrow> voter_inv evs H (s\<lparr>handler_timers := ts\<rparr>)"
  by (simp add: voter_inv_def sent_ok_def)

lemma handle_parent_ready_event_law:
  assumes inv: "voter_inv evs H s" and ready: "window_start slot \<Longrightarrow> ParentReady slot p \<in> evs" and clock: "clock_ok env"
  shows "returns (env_ok lib env H evs) (\<lambda>r s'. voter_inv evs H s') (handle_parent_ready_event lib env slot p s)"
proof -
  define t where "t = (if block_slot p > root_slot env
    then s\<lparr>latest_switch_request := try_advance p (latest_switch_request s)\<rparr> else s)"
  have t: "voter_inv evs H t" using inv by (auto simp: t_def voter_inv_def sent_ok_def)
  then have "hist_ok evs H (snd (add_parent_ready slot p (vote_history t))) (recorded (effects t))"
    by (intro hist_ok_parent_ready ready) (simp add: voter_inv_def)
  then have "voter_inv evs H (t\<lparr>vote_history := snd (add_parent_ready slot p (vote_history t))\<rparr>)"
    by (rule voter_inv_history [OF t _ add_parent_ready_fields])
  then have "returns (env_ok lib env H evs) (\<lambda>r s'. voter_inv evs H s')
      (voting (check_pending_blocks lib env (t\<lparr>vote_history := snd (add_parent_ready slot p (vote_history t))\<rparr>)))"
    by (intro returns_vote [OF check_pending_blocks_law]) auto
  then show ?thesis
    unfolding handle_parent_ready_event_def Let_def t_def [symmetric]
  proof (rule returns_and_then, goal_cases)
    case (2 a s')
    have ok: "timers_ok (handler_timers s')" using 2 by (simp add: voter_inv_def)
    have "instant_now env + max_timeout + 5 * ns_per_slot_at_slot env slot \<le> instant_max"
      using clock by (simp add: clock_ok_def)
    from set_timeouts_law [OF ok order_refl this, of "duration_scale env" slot "standstill_slot s'"]
    obtain b ts where ts: "set_timeouts (duration_scale env) slot (instant_now env) (standstill_slot s')
        (ns_per_slot_at_slot env slot) (ns_per_slot_at_slot env slot) (handler_timers s') = Some (b, ts)" "timers_ok ts"
      by blast
    have "voter_inv evs H (s'\<lparr>handler_timers := ts\<rparr>)" using 2 ts(2) by (rule voter_inv_timers)
    then show ?case by (simp add: ts(1) voter_inv_def sent_ok_def)
  qed simp_all
qed

lemma trigger_missing_parent_ready_law:
  assumes "voter_inv evs H s" and "clock_ok env"
  shows "returns (env_ok lib env H evs) (\<lambda>r s'. voter_inv evs H s') (trigger_missing_parent_ready lib env b s)"
proof (cases "add_missing_parent_ready env b s")
  case None
  then show ?thesis using assms by (simp add: trigger_missing_parent_ready_def)
next
  case (Some p)
  then have "first_of_consecutive_leader_slots (block_slot b) \<noteq> block_slot b" "first_of_consecutive_leader_slots (block_slot b) \<noteq> 0"
    by (auto simp: add_missing_parent_ready_def Let_def split: if_splits)
  then have "\<not> window_start (block_slot b)"
    by (auto simp: window_start_def first_of_consecutive_leader_slots_def leader_slot_index_def num_consecutive_leader_slots_def) presburger
  then have "returns (env_ok lib env H evs) (\<lambda>r s'. voter_inv evs H s')
      (handle_parent_ready_event lib env (block_slot b) p s)"
    by (intro handle_parent_ready_event_law assms) simp
  then show ?thesis using Some by (simp add: trigger_missing_parent_ready_def)
qed

section \<open>Events\<close>

text \<open>Events name slots up to \<open>H\<close>, a completed block the slot of its bank; the identity is kept.\<close>

definition event_ok :: "slot \<Rightarrow> votor_event \<Rightarrow> bool" where
  "event_ok H ev =
     (case ev of
        CompletedBlock cb \<Rightarrow> bank_slot_of (completed_bank cb) = completed_slot cb \<and> completed_slot cb \<le> H
      | BlockNotarized b \<Rightarrow> block_slot b \<le> H
      | TimeoutCrashedLeader n \<Rightarrow> last_of_consecutive_leader_slots n \<le> H
      | Timeout n \<Rightarrow> last_of_consecutive_leader_slots n \<le> H
      | SafeToNotar b \<Rightarrow> last_of_consecutive_leader_slots (block_slot b) \<le> H
      | SafeToSkip n \<Rightarrow> last_of_consecutive_leader_slots n \<le> H
      | SetIdentity \<Rightarrow> False
      | _ \<Rightarrow> True)"

lemma send_metrics_law:
  "voter_inv evs H s \<Longrightarrow> returns b (\<lambda>r s'. voter_inv evs H s' \<and> vote_history s' = vote_history s) (send_metrics env ms s)"
  by (simp add: send_metrics_def emit_def voter_inv_def sent_ok_def)

lemma request_repair_law: "voter_inv evs H s \<Longrightarrow> returns b (\<lambda>r s'. voter_inv evs H s') (request_repair env block s)"
  by (simp add: request_repair_def)

lemma voter_inv_add_pending:
  assumes inv: "voter_inv evs H s" and b: "block_ok evs H (vote_history s) b p"
  shows "voter_inv evs H (s\<lparr>pending_blocks := bt_entry [] (\<lambda>bs. bs @ [(b, p)]) (block_slot b) (pending_blocks s)\<rparr>)"
proof -
  define old where "old = (case bt_get (pending_blocks s) (block_slot b) of None \<Rightarrow> [] | Some bs \<Rightarrow> bs)"
  have pend: "pending_ok evs H (vote_history s) (pending_blocks s)" using inv by (simp add: voter_inv_def)
  have set_ins: "set (bt_insert k v m) \<subseteq> insert (k, v) (set m)" for k v and m :: "(slot, (block \<times> block) list) btree"
    by (induction k v m rule: bt_insert.induct) auto
  have "\<forall>bp \<in> set old. block_slot (fst bp) = block_slot b \<and> block_ok evs H (vote_history s) (fst bp) (snd bp)"
  proof (cases "bt_get (pending_blocks s) (block_slot b)")
    case (Some bs)
    from bt_get_Some_in_set [OF this] show ?thesis using pend Some by (force simp: pending_ok_def old_def)
  qed (simp add: old_def)
  with b have new: "\<forall>bp \<in> set (old @ [(b, p)]). block_slot (fst bp) = block_slot b \<and>
      block_ok evs H (vote_history s) (fst bp) (snd bp)" by auto
  have "pending_ok evs H (vote_history s) (bt_entry [] (\<lambda>bs. bs @ [(b, p)]) (block_slot b) (pending_blocks s))"
    unfolding pending_ok_def
  proof
    fix e
    assume "e \<in> set (bt_entry [] (\<lambda>bs. bs @ [(b, p)]) (block_slot b) (pending_blocks s))"
    then have "e = (block_slot b, old @ [(b, p)]) \<or> e \<in> set (pending_blocks s)"
      using set_ins [of "block_slot b" "old @ [(b, p)]" "pending_blocks s"] by (auto simp: bt_entry_def old_def)
    then show "\<forall>bp \<in> set (snd e). block_slot (fst bp) = fst e \<and> block_ok evs H (vote_history s) (fst bp) (snd bp)"
      using new pend unfolding pending_ok_def by fastforce
  qed
  then show ?thesis using inv by (simp add: voter_inv_def sent_ok_def)
qed

lemma handle_block_law:
  assumes inv: "voter_inv evs H s" and ev: "CompletedBlock cb \<in> evs" and ok: "event_ok H (CompletedBlock cb)"
    and above: "history_root (vote_history s) < completed_slot cb" and clock: "clock_ok env"
  shows "returns (env_ok lib env H evs) (\<lambda>r s'. voter_inv evs H s') (handle_block lib env cb s)"
  unfolding handle_block_def Let_def
proof (rule returns_and_then [OF send_metrics_law [OF inv]], goal_cases)
  case (2 a s1)
  then have s1: "voter_inv evs H s1" "vote_history s1 = vote_history s" by simp_all
  show ?case
  proof (rule returns_bind, goal_cases)
    case 1
    have "env_ok lib env H evs \<Longrightarrow> bank_block_id (completed_bank cb) \<noteq> None" using ev by (simp add: env_ok_def)
    then show ?case using 1 by (auto simp: get_block_parent_block_def)
  next
    case (2 bp)
    obtain b p where bp: "bp = (b, p)" by (cases bp)
    have slot: "block_slot b = completed_slot cb"
      using 2 bp ok by (auto simp: get_block_parent_block_def event_ok_def elim!: bind_eq_SomeE)
    have b: "block_ok evs H (vote_history s1) b p"
      using 2 bp ev ok above slot s1 by (auto simp: block_ok_def completed_def event_ok_def)
    have root: "returns (env_ok lib env H evs) (\<lambda>r s'. voter_inv evs H s')
        (check_rootable_blocks env s' \<bind> (\<lambda>s. trigger_missing_parent_ready lib env b s))" if "voter_inv evs H s'" for s'
      by (rule returns_bind)
         (use check_rootable_blocks_law [OF that] trigger_missing_parent_ready_law [OF _ clock] in blast)+
    have "returns (env_ok lib env H evs) (\<lambda>r s'. voter_inv evs H s' \<and> later s1 s') (voting (try_notar lib env b p s1))"
      by (rule returns_env, rule returns_voting [OF try_notar_law [OF s1(1) b]]) auto
    then show ?case
      unfolding bp prod.case
    proof (rule returns_and_then, goal_cases)
      case (2 notarized s2)
      then have s2: "voter_inv evs H s2" "later s1 s2" by simp_all
      have b2: "block_ok evs H (vote_history s2) b p" by (rule block_ok_later [OF b s2(2)])
      have "returns (env_ok lib env H evs) (\<lambda>r s'. voter_inv evs H s')
          (if notarized then voting (check_pending_blocks lib env s2)
           else voted (completed_slot cb) (vote_history s2) \<bind> (\<lambda>v. Some (Inr (), if v then s2
             else s2\<lparr>pending_blocks := bt_entry [] (\<lambda>bs. bs @ [(b, p)]) (completed_slot cb) (pending_blocks s2)\<rparr>)))"
      proof (cases notarized)
        case True
        have "returns (env_ok lib env H evs) (\<lambda>r s'. voter_inv evs H s') (voting (check_pending_blocks lib env s2))"
          by (rule returns_vote [OF check_pending_blocks_law [OF s2(1)]]) simp
        then show ?thesis using True by simp
      next
        case False
        have "voted (completed_slot cb) (vote_history s2) \<noteq> None"
          using above s1(2) s2(2) by (simp add: voted_def later_def)
        then show ?thesis
          using False s2(1) voter_inv_add_pending [OF s2(1) b2] slot by auto
      qed
      then show ?case by (rule returns_and_then) (simp_all add: root)
    qed simp_all
  qed
qed simp_all

lemma skip_window_law:
  assumes "voter_inv evs H s" and "last_of_consecutive_leader_slots slot \<le> H"
    and "max (root_slot env) (history_root (vote_history s)) < slot"
  shows "returns (env_ok lib env H evs) (\<lambda>r s'. voter_inv evs H s' \<and>
    (\<forall>u. r = Inr u \<longrightarrow> \<not> no_first_vote (recorded (effects s')) slot \<and> history_root (vote_history s') \<le> slot \<and> slot \<le> H))
    (voting (try_skip_window lib env slot s))"
  by (rule returns_env, rule returns_voting [OF try_skip_window_law [OF assms]])
     (use assms leader_window_bounds(2) [of slot] in \<open>auto simp: later_def\<close>)

lemma handle_safe_to_notar_law:
  assumes inv: "voter_inv evs H s" and ev: "SafeToNotar b \<in> evs" and bound: "last_of_consecutive_leader_slots (block_slot b) \<le> H"
    and above: "max (root_slot env) (history_root (vote_history s)) < block_slot b"
  shows "returns (env_ok lib env H evs) (\<lambda>r s'. voter_inv evs H s') (handle_safe_to_notar lib env b s)"
  unfolding handle_safe_to_notar_def
proof (rule returns_and_then [OF skip_window_law [OF inv bound above]], goal_cases)
  case (2 a s')
  then have s': "voter_inv evs H s'" "\<not> no_first_vote (recorded (effects s')) (block_slot b)"
    "history_root (vote_history s') \<le> block_slot b" "block_slot b \<le> H" by auto
  then have ok: "hist_ok evs H (vote_history s') (recorded (effects s'))" by (simp add: voter_inv_def)
  note q = hist_ok_queries(2) [OF ok s'(3)]
  obtain fb where fb: "voted_notar_fallback (block_slot b) (block_hash b) (vote_history s') = Some fb"
    using s'(3) by (auto simp: voted_notar_fallback_def)
  have "returns (env_ok lib env H evs) (\<lambda>r s'. voter_inv evs H s') (voting (cast lib env (NotarizeFallback b) s'))"
    if "Finalize (block_slot b) \<notin> set (recorded (effects s'))"
    using s' ev that by (intro returns_vote [OF cast_law [OF s'(1)]]) (auto simp: justified_def)
  then show ?case using s'(1) by (auto simp: q fb)
qed auto

lemma handle_safe_to_skip_law:
  assumes inv: "voter_inv evs H s" and ev: "SafeToSkip n \<in> evs" and bound: "last_of_consecutive_leader_slots n \<le> H"
    and above: "max (root_slot env) (history_root (vote_history s)) < n"
  shows "returns (env_ok lib env H evs) (\<lambda>r s'. voter_inv evs H s') (handle_safe_to_skip lib env n s)"
  unfolding handle_safe_to_skip_def
proof (rule returns_and_then [OF skip_window_law [OF inv bound above]], goal_cases)
  case (2 a s')
  then have s': "voter_inv evs H s'" "\<not> no_first_vote (recorded (effects s')) n"
    "history_root (vote_history s') \<le> n" "n \<le> H" by auto
  then have ok: "hist_ok evs H (vote_history s') (recorded (effects s'))" by (simp add: voter_inv_def)
  note q = hist_ok_queries(2) [OF ok s'(3)]
  obtain fb where fb: "voted_skip_fallback n (vote_history s') = Some fb"
    using s'(3) by (auto simp: voted_skip_fallback_def)
  have "returns (env_ok lib env H evs) (\<lambda>r s'. voter_inv evs H s') (voting (cast lib env (SkipFallback n) s'))"
    if "Finalize n \<notin> set (recorded (effects s'))"
    using s' ev that by (intro returns_vote [OF cast_law [OF s'(1)]]) (auto simp: justified_def)
  then show ?case using s'(1) by (auto simp: q fb)
qed auto

lemma handle_timeout_laws:
  assumes inv: "voter_inv evs H s" and bound: "last_of_consecutive_leader_slots n \<le> H"
    and above: "max (root_slot env) (history_root (vote_history s)) < n"
  shows "returns (env_ok lib env H evs) (\<lambda>r s'. voter_inv evs H s') (handle_timeout lib env n s)"
    and "returns (env_ok lib env H evs) (\<lambda>r s'. voter_inv evs H s') (handle_timeout_crashed_leader lib env n s)"
proof -
  have skip: "returns (env_ok lib env H evs) (\<lambda>r s'. voter_inv evs H s') (voting (try_skip_window lib env n t))"
    if "voter_inv evs H t" "vote_history t = vote_history s" for t
  proof -
    have "max (root_slot env) (history_root (vote_history t)) < n" using above that(2) by simp
    from skip_window_law [OF that(1) bound this] show ?thesis by (rule returns_mono) simp
  qed
  obtain v where v: "voted n (vote_history s) = Some v" using above by (auto simp: voted_def)
  have "returns (env_ok lib env H evs) (\<lambda>r s'. voter_inv evs H s' \<and> vote_history s' = vote_history s)
      (if n \<noteq> last_of_consecutive_leader_slots n then send_metrics env [StartOfSlot (slot_add n 1)] s else Some (Inr (), s))"
    using send_metrics_law [OF inv] inv by simp
  then show "returns (env_ok lib env H evs) (\<lambda>r s'. voter_inv evs H s') (handle_timeout lib env n s)"
    unfolding handle_timeout_def by (rule returns_and_then) (auto simp: v skip)
  show "returns (env_ok lib env H evs) (\<lambda>r s'. voter_inv evs H s') (handle_timeout_crashed_leader lib env n s)"
    using inv skip [OF inv refl] by (simp add: handle_timeout_crashed_leader_def v)
qed

lemma handle_finalized_law:
  assumes inv: "voter_inv evs H s" and ev: "Finalized b fast \<in> evs" and clock: "clock_ok env"
  shows "returns (env_ok lib env H evs) (\<lambda>r s'. voter_inv evs H s') (handle_finalized lib env b s)"
proof -
  have "voter_inv evs H (s\<lparr>finalized_blocks := insert b (finalized_blocks s)\<rparr>)"
    using inv ev by (auto simp: voter_inv_def sent_ok_def)
  from request_repair_law [OF this] show ?thesis
    unfolding handle_finalized_def
  proof (rule returns_and_then, goal_cases)
    case (2 a s1)
    show ?case
    proof (rule returns_bind, goal_cases)
      case 1
      then show ?case using check_rootable_blocks_law(1) [OF 2] by blast
    next
      case (2 s2)
      then have s2: "voter_inv evs H s2" using check_rootable_blocks_law(2) [OF \<open>voter_inv evs H s1\<close>] by blast
      define s3 where "s3 = (case standstill_slot s2 of None \<Rightarrow> s2
        | Some n \<Rightarrow> if block_slot b > n then s2\<lparr>standstill_slot := None\<rparr> else s2)"
      have "voter_inv evs H s3" using s2 by (auto simp: s3_def voter_inv_def sent_ok_def split: option.splits)
      from trigger_missing_parent_ready_law [OF this clock] show ?case
        unfolding Let_def s3_def [symmetric]
        by (rule returns_and_then) (auto intro: returns_mono [OF send_metrics_law])
    qed
  qed simp_all
qed

text \<open>Every event keeps the invariant; in a sound environment none panics.\<close>

lemma handle_event_law:
  assumes inv: "voter_inv evs H s" and ev: "ev \<in> evs" and ok: "event_ok H ev" and clock: "clock_ok env"
    and above: "\<not> should_ignore ev (max (root_slot env) (history_root (vote_history s)))"
  shows "returns (env_ok lib env H evs) (\<lambda>r s'. voter_inv evs H s') (handle_event lib env ev s)"
proof (cases ev)
  case (CompletedBlock cb)
  then show ?thesis
    using handle_block_law [OF inv, of cb env lib] ev ok above clock by (simp add: handle_event_def should_ignore_def)
next
  case (BlockNotarized b)
  define t where "t = s\<lparr>vote_history := add_block_notarized b (vote_history s)\<rparr>"
  have "hist_ok evs H (add_block_notarized b (vote_history s)) (recorded (effects s))"
    using inv ev BlockNotarized by (intro hist_ok_notarized) (simp_all add: voter_inv_def)
  then have t: "voter_inv evs H t"
    unfolding t_def by (rule voter_inv_history [OF inv]) (simp_all add: add_block_notarized_def)
  have "history_root (vote_history t) \<le> block_slot b" "block_slot b \<le> H"
    using above ok BlockNotarized by (auto simp: should_ignore_def event_ok_def t_def add_block_notarized_def)
  from returns_vote [OF try_final_law [OF t this]] have
    "returns (env_ok lib env H evs) (\<lambda>r s'. voter_inv evs H s') (voting (try_final lib env b t))" by simp
  then show ?thesis
    unfolding handle_event_def BlockNotarized votor_event.case t_def [symmetric]
    by (rule returns_and_then) (auto intro: request_repair_law)
next
  case (FirstShred n)
  then show ?thesis using inv by (simp add: handle_event_def voter_inv_def sent_ok_def)
next
  case (ParentReady n p)
  have "returns (env_ok lib env H evs) (\<lambda>r s'. voter_inv evs H s')
      (send_metrics env [StartOfSlot n] s \<bind> (\<lambda>r. and_then r (\<lambda>_ s. handle_parent_ready_event lib env n p s)))"
    by (rule returns_and_then [OF send_metrics_law [OF inv]])
       (use ev ParentReady clock in \<open>auto intro: handle_parent_ready_event_law\<close>)
  then show ?thesis using ParentReady by (simp add: handle_event_def)
next
  case (Standstill n)
  have "voter_inv evs H (if standstill_slot s = None then s\<lparr>standstill_slot := Some n\<rparr> else s)"
    using inv by (auto simp: voter_inv_def sent_ok_def)
  from returns_vote [OF refresh_votes_law [OF this]] show ?thesis using Standstill by (simp add: handle_event_def)
next
  case (ProduceWindow info)
  then show ?thesis using inv by (auto simp: handle_event_def env_ok_def returns_def)
qed (use inv ev ok above clock handle_timeout_laws [OF inv] handle_safe_to_notar_law [OF inv] handle_safe_to_skip_law [OF inv]
    handle_finalized_law [OF inv] request_repair_law [OF inv]
    in \<open>simp_all add: handle_event_def event_ok_def should_ignore_def not_le\<close>)

end
