(* ===== verification/Event_Handler_Props.thy ===== *)
theory Event_Handler_Props
  imports Event_Handler_Laws
begin

text \<open>
  Runs of the event handler: it follows the voting rules and does not panic.
\<close>

section \<open>Consequences of the rules\<close>

lemma finalize_needs_notarize:
  "follows_rules evs vs \<Longrightarrow> Finalize n \<in> set vs \<Longrightarrow> \<exists>b. block_slot b = n \<and> Notarize b \<in> set vs \<and> BlockNotarized b \<in> evs"
proof (induction vs rule: rev_induct)
  case (snoc v vs)
  show ?case
  proof (cases "Finalize n \<in> set vs")
    case True
    then show ?thesis using snoc by (auto simp: follows_rules_snoc)
  next
    case False
    then show ?thesis using snoc by (auto simp: follows_rules_snoc justified_def)
  qed
qed simp

lemma finalize_excludes_skip:
  "follows_rules evs vs \<Longrightarrow> Finalize n \<in> set vs \<Longrightarrow> w \<in> set vs \<Longrightarrow> vote_slot w = n \<Longrightarrow> \<not> is_skip_like w"
proof (induction vs rule: rev_induct)
  case (snoc v vs)
  have rules: "follows_rules evs vs" "justified evs vs v" using snoc.prems by (simp_all add: follows_rules_snoc)
  consider "Finalize n \<in> set vs" "w \<in> set vs" | "v = Finalize n" | "Finalize n \<in> set vs" "w = v"
    using snoc.prems by auto
  then show ?case
  proof cases
    case 1
    then show ?thesis using snoc rules by blast
  next
    case 2
    then show ?thesis using rules(2) snoc.prems by (cases "w = v") (auto simp: justified_def is_skip_like_def)
  next
    case 3
    obtain b where "block_slot b = n" "Notarize b \<in> set vs" using finalize_needs_notarize [OF rules(1) 3(1)] by blast
    then have "\<not> no_first_vote vs n" by (force simp: no_first_vote_def)
    then show ?thesis using 3 rules(2) snoc.prems(4) by (cases v) (auto simp: justified_def is_skip_like_def)
  qed
qed simp

lemma one_first_vote: "follows_rules evs vs \<Longrightarrow> distinct (map vote_slot (filter is_first_vote vs))"
proof (induction vs rule: rev_induct)
  case (snoc v vs)
  have "no_first_vote vs (vote_slot v)" if "is_first_vote v"
    using snoc.prems that by (cases v) (simp_all add: follows_rules_snoc justified_def)
  with snoc show ?case by (auto simp: follows_rules_snoc no_first_vote_def)
qed simp


section \<open>Runs\<close>

text \<open>
  A state of a run is the handler with the events it has taken from its channel. The timer thread fires
  timers in between. After an error the loop ends; a run that goes on only sees more.
\<close>

inductive handler_step ::
    "signing_library \<Rightarrow> slot \<Rightarrow> event_handler \<times> votor_event set \<Rightarrow> event_handler \<times> votor_event set \<Rightarrow> bool" for lib H where
  event: "event_ok H ev \<Longrightarrow> clock_ok env \<Longrightarrow> process_event lib env ev s = Some (r, s') \<Longrightarrow>
    handler_step lib H (s, evs) (s', insert ev evs)"
| fire: "progress now (handler_timers s) = Some (ret, ts) \<Longrightarrow>
    handler_step lib H (s, evs) (s\<lparr>handler_timers := ts\<rparr>, evs)"

definition handler_init :: "event_handler \<times> votor_event set \<Rightarrow> bool" where
  "handler_init x \<longleftrightarrow> (\<exists>env key root cell. x = (new_event_handler env (new_vote_history key root) cell, {}))"

definition handler_inv :: "slot \<Rightarrow> event_handler \<times> votor_event set \<Rightarrow> bool" where
  "handler_inv H x \<longleftrightarrow> voter_inv (snd x) H (fst x)"

lemma process_event_law:
  assumes inv: "voter_inv evs H s" and ev: "ev \<in> evs" "event_ok H ev" and clock: "clock_ok env"
  shows "returns (env_ok lib env H evs) (\<lambda>r s'. voter_inv evs H s') (process_event lib env ev s)"
proof (cases "should_ignore ev (max (root_slot env) (history_root (vote_history s)))")
  case True
  then show ?thesis using inv by (simp add: process_event_def)
next
  case False
  have t: "voter_inv evs H (s\<lparr>votes := []\<rparr>)" using inv by (simp add: voter_inv_def sent_ok_def)
  have "\<not> should_ignore ev (max (root_slot env) (history_root (vote_history (s\<lparr>votes := []\<rparr>))))" using False by simp
  from handle_event_law [OF t ev clock this] have
    "returns (env_ok lib env H evs) (\<lambda>r s'. voter_inv evs H s') (handle_event lib env ev (s\<lparr>votes := []\<rparr>) \<bind> (\<lambda>r. and_then r (\<lambda>_ s.
      if votes s \<noteq> [] \<and> bls_sender env = Disconnected then Some (Inl SenderDisconnected, s) else Some (Inr (votes s), s))))"
    by (rule returns_and_then) auto
  then show ?thesis using False by (simp add: process_event_def)
qed

lemma handler_inv_init: "handler_init x \<Longrightarrow> handler_inv H x"
  by (auto simp: handler_init_def handler_inv_def voter_inv_def new_event_handler_def hist_ok_new pending_ok_def
      sent_ok_def timers_ok_new)

lemma handler_inv_step:
  assumes "handler_inv H x" and "handler_step lib H x y"
  shows "handler_inv H y"
  using assms(2)
proof cases
  case (event ev env s r s' evs)
  have "voter_inv (insert ev evs) H s" using assms(1) event(1) by (auto simp: handler_inv_def elim: voter_inv_mono)
  from process_event_law [OF this _ event(3,4), of lib] event show ?thesis by (simp add: handler_inv_def)
next
  case (fire now s ret ts evs)
  have inv: "voter_inv evs H s" using assms(1) fire(1) by (simp add: handler_inv_def)
  then have "timers_ok ts"
    using timers_ok_step [OF _ timers_step.fire [OF fire(3)]] by (simp add: voter_inv_def)
  then show ?thesis using inv fire(2) by (simp add: handler_inv_def voter_inv_timers)
qed

interpretation voter: invariant_system handler_init "handler_step lib H" "handler_inv H" for lib H
  by unfold_locales (fact handler_inv_init, rule handler_inv_step)

text \<open>
  C11. The event handler follows the voting rules of the protocol, whatever events it receives and in
  whatever order, and whatever other threads do meanwhile, as long as its identity is not changed. It
  starts with an empty vote history. Every vote it casts is justified by the events
  it has seen and the votes it cast before: it casts at most one first vote (notarisation or skip) per
  slot; it notarises a block only after replaying it, and only if its parent is ready at the start of a
  leader window, or is the block it notarised in the preceding slot; it finalises a slot only if it
  notarised a notarised block there, and then neither before nor after casts a skip or a fallback vote
  for the slot; fallback votes follow the pool's safe-to-notar and safe-to-skip events and its own first
  vote. Only votes that were cast reach the consensus pool and the network.
\<close>

theorem event_handler_follows_the_voting_rules:
  assumes "(handler_step lib H)\<^sup>*\<^sup>* (new_event_handler env (new_vote_history key root) cell, {}) (s, evs)"
  shows "follows_rules evs (recorded (effects s)) \<and>
    distinct (map vote_slot (filter is_first_vote (recorded (effects s)))) \<and>
    (Finalize n \<in> set (recorded (effects s)) \<longrightarrow>
      (\<forall>w \<in> set (recorded (effects s)). vote_slot w = n \<longrightarrow> \<not> is_skip_like w)) \<and>
    (OwnVote m \<in> set (effects s) \<longrightarrow> msg_vote m \<in> set (recorded (effects s))) \<and>
    (\<forall>op \<in> set (votes s). \<forall>m \<in> set (op_messages op). msg_vote m \<in> set (recorded (effects s)))"
proof -
  have "handler_inv H (s, evs)"
    by (rule voter.inv_reachable [OF _ assms]) (unfold handler_init_def, blast)
  then have rules: "follows_rules evs (recorded (effects s))" and sent: "sent_ok s"
    by (simp_all add: handler_inv_def voter_inv_def hist_ok_def)
  show ?thesis
    using rules one_first_vote [OF rules] finalize_excludes_skip [OF rules] sent by (auto simp: sent_ok_def)
qed

definition demo_signer :: signing_library where
  "demo_signer = \<lparr>derive_from_signer = (\<lambda>k. Inr \<lparr>keypair_public = k, keypair_secret = k\<rparr>), bls_sign = (\<lambda>_ _. 0),
     vote_bytes = (\<lambda>_. []), history_bytes = (\<lambda>_. Inr []), sign_message = (\<lambda>_ _. 0)\<rparr>"

definition demo_own_ranks :: rank_map where
  "demo_own_ranks = \<lparr>rank_of_bls = Map.empty, vote_pubkey_to_rank = [7 \<mapsto> 0],
     sorted_pubkeys = [\<lparr>vote_account_pubkey = 7, node_pubkey = 1, bls_pubkey = 5, entry_stake = 100\<rparr>], rank_total_stake = 100\<rparr>"

definition demo_env :: handler_env where
  "demo_env = \<lparr>root_slot = 0, root_has_vote_account = (\<lambda>_. True), root_rank_map = (\<lambda>_. Some demo_own_ranks),
     authorized_voter_keypairs = [5], my_vote_account = 7, wait_to_vote_slot = None, own_vote_sender = Connected,
     commitment_sender = Connected, ns_per_slot_at_slot = (\<lambda>_. 400), forks_root = 0, forks_get = (\<lambda>_. None),
     forks_bank_hash = (\<lambda>_. None), cluster_identity = 1, stored_history = (\<lambda>_. None), instant_now = 10,
     duration_scale = demo_scale, metrics_sender = Connected, repair_sender = Connected,
     leader_window_sender = Connected, bls_sender = Connected\<rparr>"

definition demo_completed :: completed_block where
  "demo_completed = \<lparr>completed_slot = 1, completed_bank = \<lparr>bank_slot_of = 1, bank_block_id = Some 9, bank_parent_slot = 0,
     bank_parent_block_id = None, bank_parent = None, bank_is_frozen = True, bank_hash_of = 3, bank_expected_hash = None,
     bank_leader_id = 4\<rparr>\<rparr>"

definition demo_handler :: event_handler where
  "demo_handler = new_event_handler demo_env (new_vote_history 1 0) (0, Block 0 0)"

text \<open>A block is replayed, then its parent becomes ready.\<close>

definition demo_waiting :: event_handler where
  "demo_waiting = demo_handler\<lparr>effects := [Metrics [StartOfSlot 1]],
     pending_blocks := [(1, [(Block 1 9, Block 0 0)])]\<rparr>"

lemma demo_waiting_step: "process_event demo_signer demo_env (CompletedBlock demo_completed) demo_handler = Some (Inr [], demo_waiting)"
  by (simp add: process_event_def should_ignore_def handle_event_def handle_block_def send_metrics_def and_then_def
      get_block_parent_block_def try_notar_def may_notarize_def voted_def is_parent_ready_def check_rootable_blocks_def
      trigger_missing_parent_ready_def add_missing_parent_ready_def voting_def first_of_consecutive_leader_slots_def
      num_consecutive_leader_slots_def leader_slot_index_def demo_handler_def demo_waiting_def demo_completed_def
      demo_env_def new_event_handler_def new_vote_history_def emit_def bt_entry_def)

lemma demo_vote_step:
  "\<exists>s' op. process_event demo_signer demo_env (ParentReady 1 (Block 0 0)) demo_waiting = Some (Inr [op], s') \<and>
     recorded (effects s') = [Notarize (Block 1 9)]"
  by (simp add: process_event_def should_ignore_def handle_event_def handle_parent_ready_event_def send_metrics_def and_then_def
      check_pending_blocks_def try_notar_def may_notarize_def voted_def is_parent_ready_def add_parent_ready_def voting_def
      cast_def insert_vote_and_create_bls_message_def history_add_vote_def create_and_send_own_vote_message_def
      create_vote_message_def generate_vote_tx_def get_rank_for_vote_pubkey_def get_pubkey_stake_entry_def
      get_or_insert_bls_keypair_def new_saved_vote_history_def push_vote_def update_commitment_cache_def try_final_def
      is_block_notarized_def set_timeouts_def new_timers_def timer_new_def scaled_def demo_scale_def
      calculate_timeout_multiplier_def instant_add_def max_timeout_def instant_max_def delta_timeout_const_def
      last_of_consecutive_leader_slots_def first_of_consecutive_leader_slots_def heap_push_def
      num_consecutive_leader_slots_def leader_slot_index_def demo_handler_def demo_waiting_def demo_signer_def
      demo_own_ranks_def demo_env_def new_event_handler_def new_vote_history_def emit_def bt_entry_def bt_remove_def bt_get_def)

lemma demo_clock: "clock_ok demo_env"
  by (simp add: clock_ok_def demo_env_def max_timeout_def instant_max_def)

lemma demo_waiting_run:
  "(handler_step demo_signer 9)\<^sup>*\<^sup>* (demo_handler, {}) (demo_waiting, {CompletedBlock demo_completed})"
  by (rule r_into_rtranclp, rule handler_step.event [OF _ demo_clock demo_waiting_step])
     (simp add: event_ok_def demo_completed_def)

theorem event_handler_follows_the_voting_rules_witness:
  "\<exists>s' op. process_event demo_signer demo_env (ParentReady 1 (Block 0 0)) demo_waiting = Some (Inr [op], s') \<and>
     recorded (effects s') = [Notarize (Block 1 9)] \<and>
     follows_rules {ParentReady 1 (Block 0 0), CompletedBlock demo_completed} [Notarize (Block 1 9)]"
proof -
  obtain s' op where s': "process_event demo_signer demo_env (ParentReady 1 (Block 0 0)) demo_waiting = Some (Inr [op], s')"
    "recorded (effects s') = [Notarize (Block 1 9)]" using demo_vote_step by blast
  have "handler_step demo_signer 9 (demo_waiting, {CompletedBlock demo_completed})
      (s', {ParentReady 1 (Block 0 0), CompletedBlock demo_completed})"
    by (rule handler_step.event [OF _ demo_clock s'(1)]) (simp add: event_ok_def)
  with demo_waiting_run have "(handler_step demo_signer 9)\<^sup>*\<^sup>* (demo_handler, {})
      (s', {ParentReady 1 (Block 0 0), CompletedBlock demo_completed})" by (rule rtranclp.rtrancl_into_rtrancl)
  from event_handler_follows_the_voting_rules [OF this [unfolded demo_handler_def]] s' show ?thesis by auto
qed


lemma demo_env_sound: "env_ok demo_signer demo_env 9 {Timeout 1, CompletedBlock demo_completed}"
  by (auto simp: env_ok_def signer_ok_def demo_signer_def demo_env_def demo_own_ranks_def demo_completed_def
      get_rank_for_vote_pubkey_def get_pubkey_stake_entry_def)



section \<open>What the handler does not do\<close>

text \<open>
  A parent-ready notification for a slot in the middle of a leader window, as \<open>add_missing_parent_ready\<close>
  triggers it, does not lead to a notarisation vote for the slot: \<open>try_notar\<close> consults the parent-ready
  slots at the start of a window only.
\<close>

lemma parent_ready_inside_a_window_gives_no_vote:
  assumes "\<not> window_start (block_slot b)" and "may_notarize b p h = Some False"
  shows "may_notarize b p (snd (add_parent_ready (block_slot b) p h)) = Some False"
  using assms
  by (auto simp: may_notarize_def window_start_def voted_def voted_notar_def add_parent_ready_def split: if_splits option.splits)

text \<open>
  \<open>set-identity\<close> replaces the vote history and keeps the blocks that wait for their vote. When the
  restored history has a root above such a block, the next parent-ready event panics, in the
  assertion of \<open>voted\<close>.
\<close>

lemma restored_root_above_pending_block_panics:
  assumes "pending_blocks s = (k, (b, p) # bs) # rest" and "stored_history env (cluster_identity env) = Some h"
    and "my_pubkey s \<noteq> cluster_identity env" and "block_slot b < history_root h" and "history_root h < n"
    and "handle_event lib env SetIdentity s = Some (r, s')"
  shows "handle_parent_ready_event lib env n q s' = None"
proof -
  define t where "t = handle_set_identity env s"
  have t: "pending_blocks t = pending_blocks s" "vote_history t = h"
    using assms(2,3) by (simp_all add: t_def handle_set_identity_def Let_def)
  have sends: "pending_blocks c' = pending_blocks c \<and> vote_history c' = vote_history c"
    if "create_and_send_own_vote_message lib env v w c = Some (r, c')" for v w r and c c' :: event_handler
  proof -
    have "sends_own v c c'" using create_and_send_own_vote_message_law [of v "vote_slot v" lib env c w] that by simp
    from sends_own_fields [OF this] show ?thesis by simp
  qed
  have "pending_blocks c' = pending_blocks c \<and> vote_history c' = vote_history c"
    if "for_each (\<lambda>vote s. create_and_send_own_vote_message lib env vote False s \<bind> (\<lambda>r. and_then r (\<lambda>_ s. Some (Inr (), s)))) vs c =
      Some (r, c')" for vs r and c c' :: event_handler
    using that
  proof (induction vs arbitrary: c)
    case (Cons v vs)
    obtain r1 c1 where step: "create_and_send_own_vote_message lib env v False c = Some (r1, c1)"
      using Cons.prems by (auto elim!: bind_eq_SomeE)
    show ?case
    proof (cases r1)
      case (Inl e)
      then show ?thesis using Cons.prems step sends [OF step] by (simp add: and_then_def)
    next
      case (Inr m)
      then show ?thesis using Cons.prems Cons.IH [of c1] step sends [OF step] by (simp add: and_then_def)
    qed
  qed simp
  then have s': "pending_blocks s' = pending_blocks s" "vote_history s' = h"
    using assms(6) t unfolding handle_event_def votor_event.case voting_def send_vote_history_to_consensus_pool_def t_def [symmetric]
    by (auto simp: Let_def)
  have "voted (block_slot b) (snd (add_parent_ready n q h)) = None"
    using assms(4) by (auto simp: voted_def add_parent_ready_def split: option.splits)
  then show ?thesis
    by (simp add: handle_parent_ready_event_def Let_def voting_def check_pending_blocks_def s' assms(1) try_notar_def may_notarize_def)
qed

end
