(* ===== verification/Spec2Isabelle.thy ===== *)
theory Spec2Isabelle
  imports Scheduler_Props Account_Locks Compute_Budget_Props Cost_Tracker_Props Migration_Props
    Vote_History Parent_Ready Rank_Map Vote_Pool Stake_Counters Consensus_Pool_Types
    Pool_Service Event_Handler_Props
begin

text \<open>
  A verification library for parts of the Agave validator.
\<close>

end
